(* ===== verification/Prelude.thy ===== *)
theory Prelude
  imports Complex_Main "HOL-Library.Word" "HOL-Library.Multiset"
begin

text \<open>
  Shared vocabulary of the development: Go's integer division, decimal and byte-string helpers of
  the standard library that the sources use (\<^verbatim>\<open>strings\<close>, \<^verbatim>\<open>strconv\<close>), list and association-map
  lemmas, and the named collections that the component theories fill.
\<close>

named_theorems go_arith \<open>arithmetic facts of Go's integers, times and durations\<close>
named_theorems wf_intros \<open>introduction rules of the well-formedness invariants\<close>
named_theorems step_inv \<open>preservation lemmas: a step keeps the invariant of its component\<close>

subsection \<open>Go integers\<close>

text \<open>Division and remainder of Go truncate towards zero.\<close>

definition go_div :: "int \<Rightarrow> int \<Rightarrow> int" where
  "go_div a b = sgn a * sgn b * (\<bar>a\<bar> div \<bar>b\<bar>)"

definition go_mod :: "int \<Rightarrow> int \<Rightarrow> int" where
  "go_mod a b = a - b * go_div a b"

text \<open>The value of a 64-bit signed integer after an operation whose exact result is \<open>x\<close>.\<close>

definition wrap64 :: "int \<Rightarrow> int" where
  "wrap64 x = (x + 2 ^ 63) mod 2 ^ 64 - 2 ^ 63"

lemma go_div_nonneg [simp, go_arith]: "0 \<le> a \<Longrightarrow> 0 < b \<Longrightarrow> go_div a b = a div b"
  by (cases "a = 0") (simp_all add: go_div_def)

lemma go_mod_nonneg [simp, go_arith]: "0 \<le> a \<Longrightarrow> 0 < b \<Longrightarrow> go_mod a b = a mod b"
  by (simp add: go_mod_def minus_mult_div_eq_mod)

lemma go_mod_bounds: "0 < b \<Longrightarrow> - b < go_mod a b \<and> go_mod a b < b"
proof (cases "0 \<le> a")
  case False
  assume b: "0 < b"
  have "go_mod a b = - ((- a) mod b)"
    using False b by (simp add: go_mod_def go_div_def minus_mult_div_eq_mod [symmetric])
  then show ?thesis using b pos_mod_bound [of b "- a"] pos_mod_sign [of b "- a"] by linarith
next
  case True
  assume b: "0 < b"
  show ?thesis using go_mod_nonneg [OF True b] pos_mod_bound [OF b, of a] pos_mod_sign [OF b, of a] b by linarith
qed

lemma wrap64_id [simp, go_arith]: "- (2 ^ 63) \<le> x \<Longrightarrow> x < 2 ^ 63 \<Longrightarrow> wrap64 x = x"
  by (simp add: wrap64_def)

lemma wrap64_range: "- (2 ^ 63) \<le> wrap64 x \<and> wrap64 x < 2 ^ 63"
  unfolding wrap64_def using pos_mod_bound [of "2 ^ 64" "x + 2 ^ 63"] pos_mod_sign [of "2 ^ 64" "x + 2 ^ 63"]
  by simp

subsection \<open>Decimal numbers\<close>

fun digits_rev :: "nat \<Rightarrow> string" where
  "digits_rev n = (if n < 10 then [char_of (48 + n)] else char_of (48 + n mod 10) # digits_rev (n div 10))"

declare digits_rev.simps [simp del]

definition nat_dec :: "nat \<Rightarrow> string" where
  "nat_dec n = rev (digits_rev n)"

text \<open>\<^verbatim>\<open>%d\<close> of an integer, \<^verbatim>\<open>strconv.FormatInt(v, 10)\<close> and \<^verbatim>\<open>strconv.Itoa\<close>.\<close>

definition itoa :: "int \<Rightarrow> string" where
  "itoa i = (if i < 0 then ''-'' @ nat_dec (nat (- i)) else nat_dec (nat i))"

text \<open>The value of a string of digits, least significant digit first.\<close>

fun val_rev :: "string \<Rightarrow> nat" where
  "val_rev [] = 0"
| "val_rev (c # cs) = (of_char c - 48) + 10 * val_rev cs"

lemma of_char_digit [simp]: "d < 10 \<Longrightarrow> of_char (char_of (48 + d) :: char) = (48 + d :: nat)"
  by (simp add: of_char_of)

lemma val_rev_digits [simp]: "val_rev (digits_rev n) = n"
proof (induction n rule: digits_rev.induct)
  case (1 n)
  show ?case
  proof (cases "n < 10")
    case True
    then show ?thesis by (simp add: digits_rev.simps [of n])
  next
    case False
    then show ?thesis using "1.IH" by (simp add: digits_rev.simps [of n])
  qed
qed

definition is_digit :: "char \<Rightarrow> bool" where
  "is_digit c \<longleftrightarrow> of_char c \<in> {48..57 :: nat}"

lemma digits_rev_digits: "c \<in> set (digits_rev n) \<Longrightarrow> is_digit c"
proof (induction n rule: digits_rev.induct)
  case (1 n)
  have "n mod 10 < 10" by simp
  then show ?case using 1 unfolding digits_rev.simps [of n] is_digit_def
    by (cases "n < 10") (auto simp: of_char_of)
qed

lemma digits_rev_not_Nil [simp]: "digits_rev n \<noteq> []"
  by (simp add: digits_rev.simps [of n])

lemma nat_dec_inj: "nat_dec m = nat_dec n \<Longrightarrow> m = n"
  unfolding nat_dec_def by (metis rev_rev_ident val_rev_digits)

lemma nat_dec_digits: "c \<in> set (nat_dec n) \<Longrightarrow> is_digit c"
  by (simp add: nat_dec_def digits_rev_digits)

lemma nat_dec_not_Nil [simp]: "nat_dec n \<noteq> []"
  by (simp add: nat_dec_def)

lemma itoa_inj: "itoa i = itoa j \<Longrightarrow> i = j"
proof -
  have minus: "CHR ''-'' \<notin> set (nat_dec n)" for n using nat_dec_digits [of "CHR ''-''" n] by (auto simp: is_digit_def)
  have hd: "hd (nat_dec n) \<noteq> CHR ''-''" for n using minus [of n] hd_in_set [of "nat_dec n"] by (metis nat_dec_not_Nil)
  assume eq: "itoa i = itoa j"
  show ?thesis
  proof (cases "i < 0"; cases "j < 0")
    assume "i < 0" "j < 0"
    then show ?thesis using eq nat_dec_inj [of "nat (- i)" "nat (- j)"] by (simp add: itoa_def)
  next
    assume "\<not> i < 0" "\<not> j < 0"
    then show ?thesis using eq nat_dec_inj [of "nat i" "nat j"] by (simp add: itoa_def)
  next
    assume "i < 0" "\<not> j < 0"
    then show ?thesis using arg_cong [OF eq, of hd] hd [of "nat j"] by (simp add: itoa_def)
  next
    assume "\<not> i < 0" "j < 0"
    then show ?thesis using arg_cong [OF eq, of hd] hd [of "nat i"] by (simp add: itoa_def)
  qed
qed

lemma itoa_chars: "c \<in> set (itoa i) \<Longrightarrow> is_digit c \<or> c = CHR ''-''"
  by (auto simp: itoa_def dest: nat_dec_digits split: if_splits)

subsection \<open>Byte strings\<close>

definition HasPrefix :: "string \<Rightarrow> string \<Rightarrow> bool" where
  "HasPrefix s p \<longleftrightarrow> take (length p) s = p"

definition TrimPrefix :: "string \<Rightarrow> string \<Rightarrow> string" where
  "TrimPrefix s p = (if HasPrefix s p then drop (length p) s else s)"

definition is_space :: "char \<Rightarrow> bool" where
  "is_space c \<longleftrightarrow> of_char c \<in> {9, 10, 11, 12, 13, 32 :: nat}"

definition TrimSpace :: "string \<Rightarrow> string" where
  "TrimSpace s = rev (dropWhile is_space (rev (dropWhile is_space s)))"

text \<open>\<^verbatim>\<open>strings.Split(s, sep)\<close> for a separator of one byte: never empty, and the pieces keep empty strings.\<close>

fun split_on :: "char \<Rightarrow> string \<Rightarrow> string list" where
  "split_on c [] = [[]]"
| "split_on c (x # xs) =
     (if x = c then [] # split_on c xs
      else (case split_on c xs of [] \<Rightarrow> [[x]] | y # ys \<Rightarrow> (x # y) # ys))"

text \<open>\<^verbatim>\<open>strings.Cut(s, sep)\<close> for a separator of one byte: before, after, found.\<close>

fun cut_at :: "char \<Rightarrow> string \<Rightarrow> string \<times> string \<times> bool" where
  "cut_at c [] = ([], [], False)"
| "cut_at c (x # xs) =
     (if x = c then ([], xs, True) else (case cut_at c xs of (a, b, f) \<Rightarrow> (x # a, b, f)))"

text \<open>\<^verbatim>\<open>strings.FieldsFunc(s, p)\<close>: the runs of bytes that are no separators, never empty.\<close>

fun split_by :: "(char \<Rightarrow> bool) \<Rightarrow> string \<Rightarrow> string list" where
  "split_by p [] = [[]]"
| "split_by p (x # xs) =
     (if p x then [] # split_by p xs
      else (case split_by p xs of [] \<Rightarrow> [[x]] | y # ys \<Rightarrow> (x # y) # ys))"

definition fields_func :: "(char \<Rightarrow> bool) \<Rightarrow> string \<Rightarrow> string list" where
  "fields_func p s = filter (\<lambda>x. x \<noteq> []) (split_by p s)"

text \<open>\<^verbatim>\<open>strings.Join(xs, sep)\<close> for a separator of one byte.\<close>

fun joined :: "char \<Rightarrow> string list \<Rightarrow> string" where
  "joined c [] = []"
| "joined c [x] = x"
| "joined c (x # y # zs) = x @ c # joined c (y # zs)"

lemma split_on_eq_split_by: "split_on c s = split_by (\<lambda>x. x = c) s"
  by (induction s) simp_all

lemma split_by_plain: "\<forall>x \<in> set s. \<not> p x \<Longrightarrow> split_by p s = [s]"
  by (induction s) auto

lemma split_by_append: "\<forall>x \<in> set s. \<not> p x \<Longrightarrow> p c \<Longrightarrow> split_by p (s @ c # r) = s # split_by p r"
  by (induction s) auto

lemma split_by_joined:
  "xs \<noteq> [] \<Longrightarrow> p c \<Longrightarrow> \<forall>x \<in> set xs. \<forall>y \<in> set x. \<not> p y \<Longrightarrow> split_by p (joined c xs) = xs"
  by (induction c xs rule: joined.induct) (simp_all add: split_by_plain split_by_append)

lemma split_on_joined: "xs \<noteq> [] \<Longrightarrow> \<forall>x \<in> set xs. c \<notin> set x \<Longrightarrow> split_on c (joined c xs) = xs"
  unfolding split_on_eq_split_by by (rule split_by_joined) auto

lemma fields_func_joined:
  "p c \<Longrightarrow> \<forall>x \<in> set xs. x \<noteq> [] \<and> (\<forall>y \<in> set x. \<not> p y) \<Longrightarrow> fields_func p (joined c xs) = xs"
  by (cases "xs = []") (auto simp: fields_func_def split_by_joined)

lemma cut_at_append: "c \<notin> set s \<Longrightarrow> cut_at c (s @ c # r) = (s, r, True)"
  by (induction s) auto

lemma HasPrefix_append [simp]: "HasPrefix (p @ s) p"
  by (simp add: HasPrefix_def)

lemma TrimPrefix_append [simp]: "TrimPrefix (p @ s) p = s"
  by (simp add: TrimPrefix_def)

lemma HasPrefix_iff: "HasPrefix s p \<longleftrightarrow> (\<exists>r. s = p @ r)"
  by (metis HasPrefix_append HasPrefix_def append_take_drop_id)

lemma TrimSpace_id: "s \<noteq> [] \<Longrightarrow> \<not> is_space (hd s) \<Longrightarrow> \<not> is_space (last s) \<Longrightarrow> TrimSpace s = s"
  unfolding TrimSpace_def by (simp add: dropWhile_eq_self_iff [THEN iffD2] hd_rev)

lemma split_on_neq_Nil [simp]: "split_on c s \<noteq> []"
  by (induction c s rule: split_on.induct) (auto split: list.splits)

subsection \<open>Results\<close>

text \<open>\<^verbatim>\<open>x, err := f(); if err != nil { return err }\<close>, and the loop that stops at the first error.\<close>

definition bindE :: "'e + 'a \<Rightarrow> ('a \<Rightarrow> 'e + 'b) \<Rightarrow> 'e + 'b" where
  "bindE r k = (case r of Inl e \<Rightarrow> Inl e | Inr x \<Rightarrow> k x)"

fun mapE :: "('a \<Rightarrow> 'e + 'b) \<Rightarrow> 'a list \<Rightarrow> 'e + 'b list" where
  "mapE f [] = Inr []"
| "mapE f (x # xs) = bindE (f x) (\<lambda>y. bindE (mapE f xs) (\<lambda>ys. Inr (y # ys)))"

lemma bindE_simps [simp]: "bindE (Inl e) k = Inl e" "bindE (Inr x) k = k x"
  by (simp_all add: bindE_def)

lemma bindE_Inr_iff: "bindE r k = Inr y \<longleftrightarrow> (\<exists>x. r = Inr x \<and> k x = Inr y)"
  by (cases r) auto

lemma bindE_Inl_iff: "bindE r k = Inl e \<longleftrightarrow> r = Inl e \<or> (\<exists>x. r = Inr x \<and> k x = Inl e)"
  by (cases r) auto

lemma mapE_Inr_iff: "mapE f xs = Inr ys \<longleftrightarrow> list_all2 (\<lambda>x y. f x = Inr y) xs ys"
  by (induction xs arbitrary: ys) (auto simp: bindE_Inr_iff list_all2_Cons1)

subsection \<open>Lists\<close>

lemma find_Some_iff_unique:
  assumes "\<And>x y. x \<in> set xs \<Longrightarrow> y \<in> set xs \<Longrightarrow> P x \<Longrightarrow> P y \<Longrightarrow> x = y"
  shows "List.find P xs = Some x \<longleftrightarrow> x \<in> set xs \<and> P x"
  using assms
proof (induction xs)
  case (Cons a xs)
  show ?case
  proof (cases "P a")
    case True
    then show ?thesis using Cons.prems [of a x] by auto
  next
    case False
    then show ?thesis using Cons.IH Cons.prems by auto
  qed
qed simp

lemma find_None_set: "List.find P xs = None \<longleftrightarrow> (\<forall>x \<in> set xs. \<not> P x)"
  by (auto simp: find_None_iff)

lemma list_all2_in2: "list_all2 R xs ys \<Longrightarrow> y \<in> set ys \<Longrightarrow> \<exists>x \<in> set xs. R x y"
  by (induction rule: list_all2_induct) auto

lemma list_all2_in1: "list_all2 R xs ys \<Longrightarrow> x \<in> set xs \<Longrightarrow> \<exists>y \<in> set ys. R x y"
  by (induction rule: list_all2_induct) auto

lemma sorted_wrt_mono_on:
  "sorted_wrt P xs \<Longrightarrow> (\<And>x y. x \<in> set xs \<Longrightarrow> y \<in> set xs \<Longrightarrow> P x y \<Longrightarrow> Q x y) \<Longrightarrow> sorted_wrt Q xs"
  by (induction xs) auto

end
