(* ===== verification/GoTime.thy ===== *)
theory GoTime
  imports Prelude
begin

text \<open>
  Go's \<^verbatim>\<open>time.Time\<close> and \<^verbatim>\<open>time.Duration\<close> as the sources use them. A time is the number of
  nanoseconds since the Unix epoch; the zero \<^verbatim>\<open>time.Time\<close> is midnight of the first of January of
  the year 1. A duration is a 64-bit count of nanoseconds: a multiplication wraps around and
  \<^verbatim>\<open>Time.Sub\<close> saturates. \<^verbatim>\<open>After\<close>, \<^verbatim>\<open>Before\<close> and \<^verbatim>\<open>Equal\<close> are \<open>>\<close>, \<open><\<close> and \<open>=\<close>.
\<close>

type_synonym gtime = int
type_synonym duration = int

abbreviation second :: duration where "second \<equiv> 1000000000"
abbreviation millisecond :: duration where "millisecond \<equiv> 1000000"

definition zero_time :: gtime where
  "zero_time = - 62135596800000000000"

abbreviation IsZero :: "gtime \<Rightarrow> bool" where "IsZero t \<equiv> t = zero_time"

definition Unix :: "gtime \<Rightarrow> int" where
  "Unix t = t div second"

definition Nanosecond :: "gtime \<Rightarrow> int" where
  "Nanosecond t = t mod second"

text \<open>\<^verbatim>\<open>time.Duration(n) * time.Second\<close>: wraps for \<open>|n| > 9223372036\<close>.\<close>

definition seconds :: "int \<Rightarrow> duration" where
  "seconds n = wrap64 (n * second)"

definition milliseconds :: "int \<Rightarrow> duration" where
  "milliseconds n = wrap64 (n * millisecond)"

text \<open>\<^verbatim>\<open>t.Sub(u)\<close>.\<close>

definition Sub :: "gtime \<Rightarrow> gtime \<Rightarrow> duration" where
  "Sub t u = max (- (2 ^ 63)) (min (2 ^ 63 - 1) (t - u))"

text \<open>\<^verbatim>\<open>t.Truncate(d)\<close> rounds down to a multiple of \<open>d\<close> since the zero time.\<close>

definition Truncate :: "gtime \<Rightarrow> duration \<Rightarrow> gtime" where
  "Truncate t d = (if d \<le> 0 then t else t - (t - zero_time) mod d)"

text \<open>The largest number of seconds that fits into a duration.\<close>

abbreviation max_seconds :: int where "max_seconds \<equiv> 9223372036"

abbreviation whole :: "gtime \<Rightarrow> bool" where "whole t \<equiv> Nanosecond t = 0"

lemma seconds_id [simp, go_arith]: "- max_seconds \<le> n \<Longrightarrow> n \<le> max_seconds \<Longrightarrow> seconds n = n * second"
  by (simp add: seconds_def)

lemma seconds_mod [simp]: "0 \<le> n \<Longrightarrow> n \<le> max_seconds \<Longrightarrow> seconds n mod second = 0"
  by simp

lemma Sub_id [simp, go_arith]: "- (2 ^ 63) \<le> t - u \<Longrightarrow> t - u < 2 ^ 63 \<Longrightarrow> Sub t u = t - u"
  by (simp add: Sub_def)

lemma whole_iff: "whole t \<longleftrightarrow> (\<exists>k. t = k * second)"
  by (auto simp: Nanosecond_def mod_eq_0_iff_dvd dvd_def mult.commute)

lemma whole_add [simp]: "whole t \<Longrightarrow> whole (t + n * second)"
  by (simp add: Nanosecond_def)

lemma whole_diff_div: "whole t \<Longrightarrow> whole u \<Longrightarrow> (t - u) div second * second = t - u"
proof -
  assume "whole t" "whole u"
  then have "(t - u) mod second = 0" by (simp add: Nanosecond_def mod_diff_eq [symmetric])
  then show ?thesis using div_mult_mod_eq [of "t - u" second] by simp
qed

lemma Truncate_bounds: "0 < d \<Longrightarrow> Truncate t d \<le> t \<and> t < Truncate t d + d"
  using pos_mod_bound [of d "t - zero_time"] pos_mod_sign [of d "t - zero_time"]
  by (simp add: Truncate_def)

lemma Truncate_idem [simp]: "Truncate (Truncate t d) d = Truncate t d"
proof -
  have "(t - (t - zero_time) mod d - zero_time) mod d = ((t - zero_time) - (t - zero_time) mod d) mod d"
    by (simp add: algebra_simps)
  then show ?thesis by (simp add: Truncate_def minus_mod_eq_mult_div)
qed

lemma whole_Truncate: "0 < n \<Longrightarrow> whole (Truncate t (n * second))"
proof -
  assume "0 < n"
  obtain q where q: "t - zero_time - (t - zero_time) mod (n * second) = q * (n * second)"
    by (metis minus_mod_eq_div_mult)
  then have "Truncate t (n * second) = (q * n - 62135596800) * second"
    using \<open>0 < n\<close> by (simp add: Truncate_def zero_time_def algebra_simps)
  then show ?thesis unfolding whole_iff by blast
qed

subsection \<open>Calendar\<close>

text \<open>
  The civil date of a number of days since 1970-01-01 (proleptic Gregorian calendar): cycles of 400, 100, 4 and 1 years
  counted from 0001-01-01, where the last century and the last year of a cycle are one day longer, as in Go's \<^verbatim>\<open>absDate\<close>.
\<close>

definition is_leap :: "int \<Rightarrow> bool" where
  "is_leap y \<longleftrightarrow> y mod 4 = 0 \<and> (y mod 100 \<noteq> 0 \<or> y mod 400 = 0)"

definition month_lens :: "int \<Rightarrow> int list" where
  "month_lens y = [31, if is_leap y then 29 else 28, 31, 30, 31, 30, 31, 31, 30, 31, 30, 31]"

fun month_loop :: "int list \<Rightarrow> int \<Rightarrow> int \<Rightarrow> int \<times> int" where
  "month_loop [] m d = (m, d + 1)"
| "month_loop (n # ns) m d = (if d < n then (m, d + 1) else month_loop ns (m + 1) (d - n))"

definition year_day :: "int \<Rightarrow> int \<times> int" where
  "year_day d0 =
     (let a = d0 div 146097; d1 = d0 mod 146097;
          b = min 3 (d1 div 36524); d2 = d1 - 36524 * b;
          c = d2 div 1461; d3 = d2 mod 1461;
          e = min 3 (d3 div 365)
      in (400 * a + 100 * b + 4 * c + e + 1, d3 - 365 * e))"

definition civil_of_days :: "int \<Rightarrow> int \<times> int \<times> int" where
  "civil_of_days z = (case year_day (z + 719162) of (y, yd) \<Rightarrow> (y, month_loop (month_lens y) 1 yd))"

definition days_before_year :: "int \<Rightarrow> int" where
  "days_before_year y = 365 * (y - 1) + (y - 1) div 4 - (y - 1) div 100 + (y - 1) div 400"

definition days_of_civil :: "int \<Rightarrow> int \<Rightarrow> int \<Rightarrow> int" where
  "days_of_civil y m d = days_before_year y + sum_list (take (nat m - 1) (month_lens y)) + d - 1 - 719162"

lemma year_day_spec:
  assumes "year_day d0 = (y, yd)"
  shows "d0 = days_before_year y + yd \<and> 0 \<le> yd \<and> yd < (if is_leap y then 366 else 365)"
proof -
  define a where "a = d0 div 146097"
  define d1 where "d1 = d0 mod 146097"
  define b where "b = min 3 (d1 div 36524)"
  define d2 where "d2 = d1 - 36524 * b"
  define c where "c = d2 div 1461"
  define d3 where "d3 = d2 mod 1461"
  define e where "e = min 3 (d3 div 365)"
  have y: "y = 400 * a + 100 * b + 4 * c + e + 1" "yd = d3 - 365 * e"
    using assms by (simp_all only: year_day_def Let_def prod.inject a_def b_def c_def e_def d1_def d2_def d3_def)
  have d1: "0 \<le> d1" "d1 < 146097" "d0 = 146097 * a + d1" by (simp_all add: d1_def a_def)
  have b: "0 \<le> b" "b \<le> 3" using d1 by (simp_all add: b_def pos_imp_zdiv_nonneg_iff)
  have d2: "0 \<le> d2" "d2 < 36524 \<or> b = 3 \<and> d2 \<le> 36524"
    using d1 unfolding d2_def b_def by (auto simp: min_def)
  have c: "0 \<le> c" "c \<le> 24" using d2 by (auto simp: c_def pos_imp_zdiv_nonneg_iff)
  have d3: "0 \<le> d3" "d3 < 1461" "d2 = 1461 * c + d3" by (simp_all add: d3_def c_def)
  have e: "0 \<le> e" "e \<le> 3" using d3 by (simp_all add: e_def pos_imp_zdiv_nonneg_iff)
  have yd: "0 \<le> yd" "yd < 365 \<or> e = 3 \<and> yd = 365"
    using d3 unfolding y(2) e_def by (auto simp: min_def minus_mult_div_eq_mod)
  have q: "(y - 1) div 4 = 100 * a + 25 * b + c" "(y - 1) div 100 = 4 * a + b" "(y - 1) div 400 = a"
    using b c e int_div_pos_eq [of "y - 1" 4 "100 * a + 25 * b + c" e] int_div_pos_eq [of "y - 1" 100 "4 * a + b" "4 * c + e"]
      int_div_pos_eq [of "y - 1" 400 a "100 * b + 4 * c + e"] unfolding y(1) by simp_all
  have sum: "d0 = days_before_year y + yd"
    unfolding days_before_year_def q using d1(3) d3(3) y by (simp add: d2_def algebra_simps)
  have "is_leap y" if "yd = 365"
  proof -
    have e3: "e = 3" using yd that by simp
    have "c \<noteq> 24 \<or> b = 3" using d2 d3(3) that y(2) e3 by auto
    moreover have "y = 4 * (100 * a + 25 * b + c + 1)" using y e3 by simp
    moreover have "y = 100 * (4 * a + b) + 4 * (c + 1)" using y e3 by simp
    ultimately show ?thesis using b c unfolding is_leap_def
    proof -
      assume h: "c \<noteq> 24 \<or> b = 3" and y4: "y = 4 * (100 * a + 25 * b + c + 1)" and y100: "y = 100 * (4 * a + b) + 4 * (c + 1)"
      have "y mod 100 = (4 * (c + 1)) mod 100" unfolding y100 by (simp add: mod_mult_self4 del: distrib_left distrib_left_numeral)
      then have "y mod 100 \<noteq> 0" if "c \<noteq> 24" using c that by simp
      moreover have "y mod 400 = 0" if "c = 24" "b = 3" using y100 that by simp
      moreover have "y mod 4 = 0" unfolding y4 by simp
      ultimately show "y mod 4 = 0 \<and> (y mod 100 \<noteq> 0 \<or> y mod 400 = 0)" using h by (cases "c = 24") auto
    qed
  qed
  then show ?thesis using sum yd by auto
qed

lemma month_loop_spec:
  "month_loop ns m0 d0 = (m, d) \<Longrightarrow> 0 \<le> d0 \<Longrightarrow> d0 < sum_list ns
    \<Longrightarrow> \<exists>k < length ns. m = m0 + int k \<and> d0 = sum_list (take k ns) + d - 1 \<and> 1 \<le> d \<and> d \<le> ns ! k"
proof (induction ns m0 d0 rule: month_loop.induct)
  case (2 n ns m0 d0)
  show ?case
  proof (cases "d0 < n")
    case True
    then show ?thesis using 2(2,3) by (intro exI [of _ 0]) auto
  next
    case False
    then obtain k where "k < length ns" "m = m0 + 1 + int k" "d0 - n = sum_list (take k ns) + d - 1" "1 \<le> d" "d \<le> ns ! k"
      using 2 by auto
    then show ?thesis by (intro exI [of _ "Suc k"]) auto
  qed
qed simp

lemma civil_spec:
  assumes "civil_of_days z = (y, m, d)"
  shows "days_of_civil y m d = z" "1 \<le> m" "m \<le> 12" "1 \<le> d" "d \<le> month_lens y ! (nat m - 1)"
proof -
  obtain yd where yd: "year_day (z + 719162) = (y, yd)" "month_loop (month_lens y) 1 yd = (m, d)"
    using assms by (auto simp: civil_of_days_def split: prod.splits)
  note s = year_day_spec [OF yd(1)]
  have "sum_list (month_lens y) = (if is_leap y then 366 else 365)" by (simp add: month_lens_def)
  then obtain k where k: "k < length (month_lens y)" "m = 1 + int k" "yd = sum_list (take k (month_lens y)) + d - 1" "1 \<le> d" "d \<le> month_lens y ! k"
    using month_loop_spec [OF yd(2)] s by auto
  moreover have "length (month_lens y) = 12" by (simp add: month_lens_def)
  ultimately show "days_of_civil y m d = z" "1 \<le> m" "m \<le> 12" "1 \<le> d" "d \<le> month_lens y ! (nat m - 1)"
    using s by (simp_all add: days_of_civil_def nat_add_distrib)
qed

text \<open>The first of January 9999 is day 2932532.\<close>

lemma civil_year:
  assumes "civil_of_days z = (y, m, d)" "0 \<le> z" "z < 2932532"
  shows "1 \<le> y" "y \<le> 9999"
proof -
  obtain yd where "year_day (z + 719162) = (y, yd)" using assms(1) by (auto simp: civil_of_days_def split: prod.splits)
  then have s: "z + 719162 = days_before_year y + yd" "0 \<le> yd" "yd < 366" using year_day_spec [of "z + 719162" y yd] by (auto split: if_splits)
  have q: "4 * (x div 4) \<le> x" "x \<le> 4 * (x div 4) + 3" "100 * (x div 100) \<le> x" "x \<le> 100 * (x div 100) + 99"
    "400 * (x div 400) \<le> x" "x \<le> 400 * (x div 400) + 399" for x :: int
    by simp_all
  have lin: "0 \<le> x \<and> x \<le> 9998"
    if "4 * q4 \<le> x" "x \<le> 4 * q4 + 3" "100 * q100 \<le> x" "x \<le> 100 * q100 + 99" "400 * q400 \<le> x" "x \<le> 400 * q400 + 399"
      "z + 719162 = 365 * x + q4 - q100 + q400 + yd" for x q4 q100 q400 :: int
    using that s(2,3) assms(2,3) by linarith
  have "0 \<le> y - 1 \<and> y - 1 \<le> 9998" by (rule lin [OF q]) (use s(1) in \<open>simp add: days_before_year_def\<close>)
  then show "1 \<le> y" "y \<le> 9999" by simp_all
qed

definition pad :: "nat \<Rightarrow> int \<Rightarrow> string" where
  "pad w n = (let s = itoa n in replicate (w - length s) (CHR ''0'') @ s)"

text \<open>The layout \<^verbatim>\<open>2006-01-02T15:04:05\<close> in UTC.\<close>

definition format_base :: "gtime \<Rightarrow> string" where
  "format_base t =
     (let s = Unix t; sod = s mod 86400 in
      case civil_of_days (s div 86400) of (y, m, d) \<Rightarrow>
        pad 4 y @ ''-'' @ pad 2 m @ ''-'' @ pad 2 d @ ''T'' @
        pad 2 (sod div 3600) @ '':'' @ pad 2 (sod div 60 mod 60) @ '':'' @ pad 2 (sod mod 60))"

text \<open>\<^verbatim>\<open>Format(time.RFC3339)\<close> of a UTC time, and the layout with three digits of a second.\<close>

definition format_rfc3339 :: "gtime \<Rightarrow> string" where
  "format_rfc3339 t = format_base t @ ''Z''"

definition format_millis :: "gtime \<Rightarrow> string" where
  "format_millis t = format_base t @ ''.'' @ pad 3 (Nanosecond t div 1000000) @ ''Z''"

end
