(* ===== verification/Models.thy ===== *)
theory Models
  imports GoTime
begin

text \<open>
  The data that the services exchange (\<^verbatim>\<open>pkg/models/models.go\<close>) and the settings of the engine that
  its components read (\<^verbatim>\<open>pkg/config/config.go\<close>). Field names carry a prefix per record; optional
  Go strings are empty strings, as in the source.
\<close>

record TimelineEntry =
  te_Type :: string
  te_AssetID :: string
  te_URI :: string
  te_Start :: gtime
  te_DurationS :: int
  te_OffsetS :: int
  te_Category :: string
  te_SCTE35 :: string

text \<open>
  Fields that may be nil and are tested for it (\<^verbatim>\<open>Tags\<close>, \<^verbatim>\<open>Meta\<close>, \<^verbatim>\<open>Ladder\<close>) are options; a value of \<^verbatim>\<open>Meta\<close> is its JSON text.
\<close>

record Asset =
  as_ID :: string
  as_URI :: string
  as_DurationS :: int
  as_Tags :: "string list option"
  as_Meta :: "(string \<times> string) list option"
  as_CreatedAt :: gtime

record Channel =
  ch_ID :: string
  ch_Name :: string
  ch_SegmentSec :: int
  ch_Ladder :: "string list option"
  ch_CreatedAt :: gtime
  ch_ScheduleVersion :: int

record AdItem =
  ad_URI :: string
  ad_DurationS :: int
  ad_CreativeID :: string
  ad_Type :: string

record ClipItem =
  ci_Seq :: int
  ci_URI :: string
  ci_StartAt :: gtime
  ci_DurationS :: int
  ci_OffsetS :: int
  ci_Discontinuity :: bool
  ci_Type :: string
  ci_Title :: string
  ci_EntryStart :: gtime
  ci_BreakStart :: gtime
  ci_BreakDurS :: int
  ci_SCTE35 :: string

text \<open>The zero values of the structs (\<^verbatim>\<open>var item models.ClipItem\<close>).\<close>

definition zero_entry :: TimelineEntry where
  "zero_entry = \<lparr>te_Type = '''', te_AssetID = '''', te_URI = '''', te_Start = zero_time, te_DurationS = 0,
     te_OffsetS = 0, te_Category = '''', te_SCTE35 = ''''\<rparr>"

definition zero_clip :: ClipItem where
  "zero_clip = \<lparr>ci_Seq = 0, ci_URI = '''', ci_StartAt = zero_time, ci_DurationS = 0, ci_OffsetS = 0,
     ci_Discontinuity = False, ci_Type = '''', ci_Title = '''', ci_EntryStart = zero_time,
     ci_BreakStart = zero_time, ci_BreakDurS = 0, ci_SCTE35 = ''''\<rparr>"

text \<open>The settings (\<^verbatim>\<open>config.Config\<close>); a float is the fraction it denotes.\<close>

record Config =
  cfg_APIKey :: string
  cfg_PostgresDSN :: string
  cfg_OriginRoot :: string
  cfg_SegmentSec :: int
  cfg_AdsURL :: string
  cfg_AdsRegistryFile :: string
  cfg_AdsAPIKey :: string
  cfg_ChannelID :: string
  cfg_VariantID :: string
  cfg_VariantBandwidth :: int
  cfg_VariantAverageBandwidth :: int
  cfg_VariantResolution :: string
  cfg_VariantFrameRate :: rat
  cfg_VariantCodecs :: string
  cfg_PlaylistWindowMax :: int
  cfg_TargetDurationFloor :: int
  cfg_IOTmpSuffix :: string
  cfg_IOFsync :: bool
  cfg_PreloadWindowS :: int
  cfg_TickMs :: int
  cfg_SlateURI :: string
  cfg_PublishAheadS :: int
  cfg_SourceFetchMap :: string
  cfg_SourceTimeoutMs :: int
  cfg_DurationTolerance :: rat
  cfg_LiveLeadS :: int
  cfg_RetainS :: int
  cfg_SCTE35Tags :: string
  cfg_SourceFileRoot :: string
  cfg_SourceAllowHosts :: string

text \<open>\<^verbatim>\<open>const SegmentSec = 1\<close> and the settings of an empty environment (\<^verbatim>\<open>FromEnv\<close> is in the theory \<open>Settings\<close>).\<close>

definition SegmentSec :: int where
  "SegmentSec = 1"

definition default_config :: Config where
  "default_config = \<lparr>cfg_APIKey = '''', cfg_PostgresDSN = '''', cfg_OriginRoot = ''/var/www'', cfg_SegmentSec = SegmentSec,
     cfg_AdsURL = '''', cfg_AdsRegistryFile = '''', cfg_AdsAPIKey = '''', cfg_ChannelID = ''c1'', cfg_VariantID = ''v720'',
     cfg_VariantBandwidth = 3000000, cfg_VariantAverageBandwidth = 2600000, cfg_VariantResolution = ''1280x720'',
     cfg_VariantFrameRate = 25, cfg_VariantCodecs = ''avc1.4d401f,mp4a.40.2'', cfg_PlaylistWindowMax = 180, cfg_TargetDurationFloor = 1,
     cfg_IOTmpSuffix = ''.tmp'', cfg_IOFsync = True, cfg_PreloadWindowS = 180, cfg_TickMs = 500,
     cfg_SlateURI = ''s3://bucket/slates/default_2s_cmaf.m3u8'', cfg_PublishAheadS = 30, cfg_SourceFetchMap = '''',
     cfg_SourceTimeoutMs = 3000, cfg_DurationTolerance = 1 / 100, cfg_LiveLeadS = 6, cfg_RetainS = 30, cfg_SCTE35Tags = ''daterange'',
     cfg_SourceFileRoot = '''', cfg_SourceAllowHosts = ''''\<rparr>"

text \<open>
  Shared by the planner and the schedule editor: an entry is on the air in
  \<open>[Start, Start + DurationS)\<close>; \<open>endOf\<close> is \<^verbatim>\<open>schedule.endOf\<close>, written out inline elsewhere.
\<close>

definition endOf :: "TimelineEntry \<Rightarrow> gtime" where
  "endOf e = te_Start e + seconds (te_DurationS e)"

definition covers :: "TimelineEntry \<Rightarrow> gtime \<Rightarrow> bool" where
  "covers e t \<longleftrightarrow> \<not> t < te_Start e \<and> t < endOf e"

text \<open>A duration that is positive and does not overflow when it is turned into nanoseconds.\<close>

definition dur_ok :: "int \<Rightarrow> bool" where
  "dur_ok n \<longleftrightarrow> 0 < n \<and> n \<le> max_seconds"

lemma endOf_ok [go_arith]: "dur_ok (te_DurationS e) \<Longrightarrow> endOf e = te_Start e + te_DurationS e * second"
  by (simp add: endOf_def dur_ok_def)

lemma endOf_gt: "dur_ok (te_DurationS e) \<Longrightarrow> te_Start e < endOf e"
  by (simp add: dur_ok_def endOf_def)

end
