(* ===== verification/Schedule.thy ===== *)
theory Schedule
  imports Models
begin

text \<open>
  \<^verbatim>\<open>pkg/schedule/schedule.go\<close>: the check of a schedule and the two edits that a command makes,
  \<^verbatim>\<open>InsertShift\<close> and \<^verbatim>\<open>Skip\<close>. The abstract view of a schedule is \<open>airs\<close>: what is on the air at
  a moment and from which position of its source. The two edits are specified by it.
\<close>

datatype sched_error = Problem string string | ErrNothing string

record Edit =
  ed_From :: gtime
  ed_To :: gtime
  ed_Entries :: "TimelineEntry list"

definition MaxWindow :: duration where
  "MaxWindow = 12 * 3600 * second"

definition MaxEntries :: nat where
  "MaxEntries = 20000"

definition validTypes :: "string \<Rightarrow> bool" where
  "validTypes s \<longleftrightarrow> s \<in> {''content'', ''bumper'', ''slate'', ''ad_break''}"

subsection \<open>Validate and CheckEntries\<close>

definition check_entry :: "nat \<Rightarrow> TimelineEntry option \<Rightarrow> TimelineEntry \<Rightarrow> gtime \<Rightarrow> gtime \<Rightarrow> sched_error option" where
  "check_entry i prev e from to =
     (let f = ''entries['' @ nat_dec i @ '']'' in
      if \<not> validTypes (te_Type e) then Some (Problem (f @ ''.type'') ''must be content, bumper, slate or ad_break'')
      else if te_Type e \<in> {''content'', ''bumper''} \<and> te_AssetID e = '''' \<and> te_URI e = ''''
        then Some (Problem f (''a '' @ te_Type e @ '' needs an asset_id or a uri''))
      else if te_Type e = ''ad_break'' \<and> (te_AssetID e \<noteq> '''' \<or> te_URI e \<noteq> '''')
        then Some (Problem f ''an ad_break has no asset: the ads service chooses what to play'')
      else if te_DurationS e \<le> 0 then Some (Problem (f @ ''.duration'') ''must be positive'')
      else if te_OffsetS e < 0 then Some (Problem (f @ ''.offset_s'') ''must not be negative'')
      else if Nanosecond (te_Start e) \<noteq> 0 then Some (Problem (f @ ''.start'') ''must be a whole second'')
      else if te_Start e < from \<or> \<not> te_Start e < to then Some (Problem (f @ ''.start'') ''is outside the window'')
      else (case prev of
          None \<Rightarrow> None
        | Some p \<Rightarrow> (let prevEnd = te_Start p + seconds (te_DurationS p) in
            if te_Start e < prevEnd
            then Some (Problem f (''overlaps the entry before it (it ends at '' @ format_rfc3339 prevEnd @ '')''))
            else None)))"

fun check_loop :: "nat \<Rightarrow> TimelineEntry option \<Rightarrow> TimelineEntry list \<Rightarrow> gtime \<Rightarrow> gtime \<Rightarrow> sched_error option" where
  "check_loop i prev [] from to = None"
| "check_loop i prev (e # es) from to =
     (case check_entry i prev e from to of
        Some err \<Rightarrow> Some err
      | None \<Rightarrow> check_loop (Suc i) (Some e) es from to)"

definition CheckEntries :: "TimelineEntry list \<Rightarrow> gtime \<Rightarrow> gtime \<Rightarrow> sched_error + TimelineEntry list" where
  "CheckEntries entries from to =
     (if length entries > MaxEntries
      then Inl (Problem ''entries'' (''more than '' @ nat_dec MaxEntries @ '' entries''))
      else let out = sort_key te_Start entries in
        (case check_loop 0 None out from to of Some err \<Rightarrow> Inl err | None \<Rightarrow> Inr out))"

definition Validate :: "TimelineEntry list \<Rightarrow> gtime \<Rightarrow> gtime \<Rightarrow> sched_error + TimelineEntry list" where
  "Validate entries from to =
     (if IsZero from \<or> IsZero to \<or> \<not> to > from then Inl (Problem ''window'' ''from must be before to'')
      else if Sub to from > MaxWindow then Inl (Problem ''window'' ''the window is longer than 12h0m0s'')
      else if Nanosecond from \<noteq> 0 \<or> Nanosecond to \<noteq> 0 then Inl (Problem ''window'' ''times must be whole seconds'')
      else CheckEntries entries from to)"

subsection \<open>InsertShift\<close>

text \<open>
  The loop over the existing entries: the new \<^verbatim>\<open>From\<close>, the part of the cut entry that stays, and
  the entries that follow the insertion.
\<close>

fun shift_loop :: "TimelineEntry list \<Rightarrow> gtime \<Rightarrow> duration \<Rightarrow> gtime \<Rightarrow> TimelineEntry list \<Rightarrow> TimelineEntry list
    \<Rightarrow> gtime \<times> TimelineEntry list \<times> TimelineEntry list" where
  "shift_loop [] at0 d frm ents after = (frm, ents, after)"
| "shift_loop (e # es) at0 d frm ents after =
     (let end = endOf e in
      if \<not> end > at0 then shift_loop es at0 d frm ents after
      else if te_Start e < at0 then
        (let a = e\<lparr>te_DurationS := go_div (Sub at0 (te_Start e)) second\<rparr>;
             b = e\<lparr>te_Start := at0 + d, te_DurationS := go_div (Sub end at0) second,
                   te_OffsetS := te_OffsetS e + te_DurationS a\<rparr>
         in shift_loop es at0 d (te_Start e) (ents @ [a]) (after @ [b]))
      else shift_loop es at0 d frm ents (after @ [e\<lparr>te_Start := te_Start e + d\<rparr>]))"

definition InsertShift :: "TimelineEntry list \<Rightarrow> gtime \<Rightarrow> TimelineEntry \<Rightarrow> sched_error + Edit" where
  "InsertShift existing at0 ins0 =
     (if Nanosecond at0 \<noteq> 0 then Inl (Problem ''at'' ''must be a whole second'')
      else if te_DurationS ins0 \<le> 0 then Inl (Problem ''duration'' ''must be positive'')
      else
        let d = seconds (te_DurationS ins0); ins = ins0\<lparr>te_Start := at0\<rparr> in
        if te_Type ins = ''ad_break'' \<and>
           list_ex (\<lambda>e. te_Type e = ''ad_break'' \<and> \<not> te_Start e > at0 \<and> endOf e > at0) existing
        then Inl (ErrNothing ''an ad break is already on the air'')
        else case shift_loop existing at0 d at0 [] [] of
          (frm, ents, after) \<Rightarrow>
            let es = ents @ [ins] @ after
            in Inr \<lparr>ed_From = frm, ed_To = endOf (last es), ed_Entries = es\<rparr>)"

subsection \<open>Skip\<close>

fun pull_loop :: "TimelineEntry list \<Rightarrow> duration \<Rightarrow> gtime \<Rightarrow> bool \<Rightarrow> gtime \<Rightarrow> TimelineEntry list
    \<Rightarrow> gtime \<times> TimelineEntry list" where
  "pull_loop [] pulled prevEnd chain to out = (to, out)"
| "pull_loop (e # es) pulled prevEnd chain to out =
     (let oldEnd = endOf e; to' = (if oldEnd > to then oldEnd else to) in
      if chain \<and> te_Start e = prevEnd
      then pull_loop es pulled (endOf e) True to' (out @ [e\<lparr>te_Start := te_Start e - pulled\<rparr>])
      else pull_loop es pulled prevEnd False to' (out @ [e]))"

definition Skip :: "TimelineEntry list \<Rightarrow> gtime \<Rightarrow> sched_error + Edit" where
  "Skip existing at0 =
     (if Nanosecond at0 \<noteq> 0 then Inl (Problem ''at'' ''must be a whole second'')
      else case dropWhile (\<lambda>e. \<not> (\<not> te_Start e > at0 \<and> endOf e > at0)) existing of
          [] \<Rightarrow> Inl (ErrNothing ''nothing is scheduled at that moment'')
        | cur # rest \<Rightarrow>
            let pulled = Sub (endOf cur) at0;
                ents = (if at0 > te_Start cur
                        then [cur\<lparr>te_DurationS := go_div (Sub at0 (te_Start cur)) second\<rparr>] else [])
            in (case pull_loop rest pulled (endOf cur) True (endOf cur) ents of
                 (to, es) \<Rightarrow> Inr \<lparr>ed_From = te_Start cur, ed_To = (if es = [] then endOf cur else to), ed_Entries = es\<rparr>))"

subsection \<open>What a schedule means\<close>

text \<open>
  \<open>what e t\<close> is what the entry shows at \<open>t\<close>: its kind and source, and the position in the source
  in nanoseconds. \<open>apply_edit\<close> is the meaning of an \<open>Edit\<close>: everything that starts in
  \<open>[From, To)\<close> is replaced (the statements of \<^verbatim>\<open>replaceInTx\<close> and the order of \<^verbatim>\<open>queryRange\<close>).
\<close>

definition what :: "TimelineEntry \<Rightarrow> gtime \<Rightarrow> string \<times> string \<times> string \<times> string \<times> int" where
  "what e t = (te_Type e, te_AssetID e, te_URI e, te_Category e, te_OffsetS e * second + (t - te_Start e))"

definition airs :: "TimelineEntry list \<Rightarrow> gtime \<Rightarrow> (string \<times> string \<times> string \<times> string \<times> int) option" where
  "airs es t = map_option (\<lambda>e. what e t) (List.find (\<lambda>e. covers e t) es)"

definition apply_edit :: "TimelineEntry list \<Rightarrow> Edit \<Rightarrow> TimelineEntry list" where
  "apply_edit es ed =
     sort_key te_Start (filter (\<lambda>e. \<not> (ed_From ed \<le> te_Start e \<and> te_Start e < ed_To ed)) es @ ed_Entries ed)"

definition no_overlap :: "TimelineEntry list \<Rightarrow> bool" where
  "no_overlap es \<longleftrightarrow> sorted_wrt (\<lambda>a b. endOf a \<le> te_Start b) es"

definition entry_wf :: "TimelineEntry \<Rightarrow> bool" where
  "entry_wf e \<longleftrightarrow> dur_ok (te_DurationS e) \<and> whole (te_Start e)"

definition wf_sched :: "TimelineEntry list \<Rightarrow> bool" where
  "wf_sched es \<longleftrightarrow> no_overlap es \<and> (\<forall>e \<in> set es. entry_wf e)"

text \<open>The end of the run of entries that follow each other without a gap.\<close>

fun run_end :: "gtime \<Rightarrow> TimelineEntry list \<Rightarrow> gtime" where
  "run_end p [] = p"
| "run_end p (e # es) = (if te_Start e = p then run_end (endOf e) es else p)"

definition static_ok :: "TimelineEntry \<Rightarrow> bool" where
  "static_ok e \<longleftrightarrow>
     te_Type e \<in> {''content'', ''bumper'', ''slate'', ''ad_break''} \<and>
     (te_Type e \<in> {''content'', ''bumper''} \<longrightarrow> te_AssetID e \<noteq> '''' \<or> te_URI e \<noteq> '''') \<and>
     (te_Type e = ''ad_break'' \<longrightarrow> te_AssetID e = '''' \<and> te_URI e = '''') \<and>
     0 < te_DurationS e \<and> 0 \<le> te_OffsetS e \<and> whole (te_Start e)"

definition entry_ok :: "gtime \<Rightarrow> gtime \<Rightarrow> TimelineEntry \<Rightarrow> bool" where
  "entry_ok from to e \<longleftrightarrow> static_ok e \<and> from \<le> te_Start e \<and> te_Start e < to"

subsection \<open>CheckEntries accepts exactly the valid schedules\<close>

lemma check_entry_None:
  "check_entry i prev e from to = None \<longleftrightarrow>
     entry_ok from to e \<and> (\<forall>p. prev = Some p \<longrightarrow> endOf p \<le> te_Start e)"
  unfolding check_entry_def entry_ok_def static_ok_def validTypes_def Let_def
  by (cases prev) (auto simp: endOf_def not_less)

lemma check_loop_None:
  "check_loop i prev es from to = None \<longleftrightarrow>
     (\<forall>e \<in> set es. entry_ok from to e) \<and>
     successively (\<lambda>a b. endOf a \<le> te_Start b) (case prev of None \<Rightarrow> es | Some p \<Rightarrow> p # es)"
proof (induction es arbitrary: i prev)
  case (Cons e es)
  have "check_loop i prev (e # es) from to = None \<longleftrightarrow>
      check_entry i prev e from to = None \<and> check_loop (Suc i) (Some e) es from to = None"
    by (simp split: option.splits)
  then show ?case using Cons.IH by (cases prev) (auto simp: check_entry_None)
qed (auto split: option.splits)

lemma successively_no_overlap:
  assumes "\<forall>e \<in> set es. dur_ok (te_DurationS e)"
  shows "successively (\<lambda>a b. endOf a \<le> te_Start b) es \<longleftrightarrow> no_overlap es"
  unfolding no_overlap_def using assms
proof (induction es rule: induct_list012)
  case (3 a b es)
  have "endOf a \<le> te_Start b \<Longrightarrow> sorted_wrt (\<lambda>a b. endOf a \<le> te_Start b) (b # es) \<Longrightarrow> \<forall>c \<in> set es. endOf a \<le> te_Start c"
    using "3.prems" endOf_gt [of b] by (auto intro: order_trans less_imp_le)
  then show ?case using "3.IH"(2) "3.prems" by auto
qed auto

lemma no_overlap_sorted: "wf_sched es \<Longrightarrow> sorted (map te_Start es)"
  unfolding wf_sched_def no_overlap_def sorted_map
  by (auto elim!: sorted_wrt_mono_on dest!: endOf_gt bspec simp: entry_wf_def)

lemma no_overlap_distinct_starts:
  assumes "no_overlap es" and "\<forall>e \<in> set es. dur_ok (te_DurationS e)"
  shows "sorted (map te_Start es) \<and> distinct (map te_Start es)"
proof -
  have "sorted_wrt (<) (map te_Start es)"
    using assms unfolding no_overlap_def sorted_wrt_map
    by (auto elim!: sorted_wrt_mono_on dest!: endOf_gt bspec)
  then show ?thesis by (simp add: strict_sorted_iff)
qed

lemma CheckEntries_Inr:
  "CheckEntries es from to = Inr out \<longleftrightarrow>
     length es \<le> MaxEntries \<and> out = sort_key te_Start es \<and>
     (\<forall>e \<in> set es. entry_ok from to e) \<and> successively (\<lambda>a b. endOf a \<le> te_Start b) out"
  unfolding CheckEntries_def Let_def
  using check_loop_None [of 0 None "sort_key te_Start es" "from" to]
  by (auto split: option.splits)

lemma sort_key_unique:
  "mset out = mset es \<Longrightarrow> sorted (map k out) \<Longrightarrow> distinct (map k out) \<Longrightarrow> out = sort_key k es"
  by (rule sort_key_inj_key_eq [symmetric]) (auto simp: distinct_map dest: mset_eq_setD)

lemma entry_ok_dur: "entry_ok from to e \<Longrightarrow> te_DurationS e \<le> max_seconds \<Longrightarrow> dur_ok (te_DurationS e)"
  by (simp add: entry_ok_def static_ok_def dur_ok_def)

subsection \<open>InsertShift cuts, inserts and shifts\<close>

lemma wf_sched_split:
  assumes "wf_sched es"
  obtains pre st fut where "es = pre @ st @ fut"
    and "\<forall>e \<in> set pre. endOf e \<le> at0" and "\<forall>e \<in> set fut. at0 \<le> te_Start e"
    and "st = [] \<or> (\<exists>s. st = [s] \<and> te_Start s < at0 \<and> at0 < endOf s)"
proof -
  have "\<exists>pre st fut. es = pre @ st @ fut \<and> (\<forall>e \<in> set pre. endOf e \<le> at0) \<and> (\<forall>e \<in> set fut. at0 \<le> te_Start e)
      \<and> (st = [] \<or> (\<exists>s. st = [s] \<and> te_Start s < at0 \<and> at0 < endOf s))"
    using assms
  proof (induction es)
    case (Cons e es)
    then have wf: "wf_sched es" and e: "\<forall>x \<in> set es. endOf e \<le> te_Start x" "te_Start e < endOf e"
      by (auto simp: wf_sched_def no_overlap_def entry_wf_def endOf_gt)
    show ?case
    proof (cases "endOf e \<le> at0")
      case True
      with Cons.IH [OF wf] show ?thesis by (metis append_Cons set_ConsD)
    next
      case False
      then have "\<forall>x \<in> set es. at0 \<le> te_Start x" using e by fastforce
      then show ?thesis using False e
        by (cases "te_Start e < at0")
           (rule exI [of _ "[]"], rule exI [of _ "[e]"], force, rule exI [of _ "[]"], rule exI [of _ "[]"], force)
    qed
  qed simp
  then show ?thesis using that by blast
qed

abbreviation move :: "duration \<Rightarrow> TimelineEntry \<Rightarrow> TimelineEntry" where
  "move d e \<equiv> e\<lparr>te_Start := te_Start e + d\<rparr>"

lemma endOf_move [simp]: "endOf (move d e) = endOf e + d"
  by (simp add: endOf_def)

lemma shift_loop_future:
  "\<forall>e \<in> set fut. at0 \<le> te_Start e \<and> at0 < endOf e \<Longrightarrow>
     shift_loop fut at0 d frm ents after = (frm, ents, after @ map (move d) fut)"
  by (induction fut arbitrary: after) auto

lemma airs_append: "airs (xs @ ys) t = (case airs xs t of None \<Rightarrow> airs ys t | Some x \<Rightarrow> Some x)"
  unfolding airs_def by (induction xs) auto

lemma airs_None: "airs es t = None \<longleftrightarrow> (\<forall>e \<in> set es. \<not> covers e t)"
  by (auto simp: airs_def find_None_set)

lemma airs_single: "airs [e] t = (if covers e t then Some (what e t) else None)"
  by (simp add: airs_def)

lemma airs_Cons: "airs (e # es) t = (if covers e t then Some (what e t) else airs es t)"
  by (simp add: airs_def)

lemma airs_Nil [simp]: "airs [] t = None"
  by (simp add: airs_def)

lemma covers_move [simp]: "covers (move d e) t \<longleftrightarrow> covers e (t - d)"
  by (auto simp: covers_def)

lemma airs_move: "airs (map (move d) es) t = airs es (t - d)"
  unfolding airs_def by (induction es) (auto simp: what_def)

definition headpart :: "gtime \<Rightarrow> TimelineEntry \<Rightarrow> TimelineEntry" where
  "headpart at0 s = s\<lparr>te_DurationS := (at0 - te_Start s) div second\<rparr>"

definition tailpart :: "gtime \<Rightarrow> duration \<Rightarrow> TimelineEntry \<Rightarrow> TimelineEntry" where
  "tailpart at0 d s = s\<lparr>te_Start := at0 + d, te_DurationS := (endOf s - at0) div second,
     te_OffsetS := te_OffsetS s + (at0 - te_Start s) div second\<rparr>"

lemma inside_entry:
  assumes "entry_wf s" "whole at0" "te_Start s \<le> at0" "at0 < endOf s"
  obtains k where "at0 = te_Start s + k * second" "0 \<le> k" "k < te_DurationS s"
proof -
  define k where "k = (at0 - te_Start s) div second"
  have k: "at0 = te_Start s + k * second"
    using whole_diff_div [of at0 "te_Start s"] assms by (simp add: k_def entry_wf_def)
  have "te_Start s + k * second < te_Start s + te_DurationS s * second"
    using assms k by (simp add: entry_wf_def endOf_ok)
  then show ?thesis using that [OF k] assms k by simp
qed

text \<open>The two parts of a cut entry: the first ends at the cut, the second resumes there after \<open>d\<close>.\<close>

lemma cut_parts:
  assumes s: "entry_wf s" and at0: "whole at0" "te_Start s < at0" "at0 < endOf s"
  shows "s\<lparr>te_DurationS := go_div (Sub at0 (te_Start s)) second\<rparr> = headpart at0 s"
    and "s\<lparr>te_Start := at0 + d, te_DurationS := go_div (Sub (endOf s) at0) second,
           te_OffsetS := te_OffsetS s + te_DurationS (headpart at0 s)\<rparr> = tailpart at0 d s"
    and "endOf (headpart at0 s) = at0" and "endOf (tailpart at0 d s) = endOf s + d"
    and "dur_ok (te_DurationS (headpart at0 s))" and "dur_ok (te_DurationS (tailpart at0 d s))"
    and "te_OffsetS (tailpart at0 d s) * second = te_OffsetS s * second + (at0 - te_Start s)"
proof -
  obtain k where k: "at0 = te_Start s + k * second" "0 \<le> k" "k < te_DurationS s"
    using inside_entry [of s at0] assms by auto
  have k0: "0 < k" using k at0 by auto
  have dur: "te_DurationS s \<le> max_seconds" using s by (simp add: entry_wf_def dur_ok_def)
  have e: "endOf s = te_Start s + te_DurationS s * second" using s by (simp add: entry_wf_def endOf_ok)
  have h: "(at0 - te_Start s) div second = k" using k by simp
  have ek: "endOf s - at0 = (te_DurationS s - k) * second" using e k by (simp add: algebra_simps)
  then have t: "(endOf s - at0) div second = te_DurationS s - k" by simp
  have g1: "go_div (Sub at0 (te_Start s)) second = k" using k k0 dur by simp
  have g2: "go_div (Sub (endOf s) at0) second = te_DurationS s - k" using ek k k0 dur by simp
  show hp: "s\<lparr>te_DurationS := go_div (Sub at0 (te_Start s)) second\<rparr> = headpart at0 s"
    by (simp only: headpart_def h g1)
  show "s\<lparr>te_Start := at0 + d, te_DurationS := go_div (Sub (endOf s) at0) second,
           te_OffsetS := te_OffsetS s + te_DurationS (headpart at0 s)\<rparr> = tailpart at0 d s"
    unfolding tailpart_def headpart_def t g2 by simp
  show "endOf (headpart at0 s) = at0"
    unfolding endOf_def headpart_def h using k k0 dur by simp
  show "endOf (tailpart at0 d s) = endOf s + d"
    using k k0 dur ek unfolding tailpart_def t e by (simp add: endOf_def algebra_simps)
  show "dur_ok (te_DurationS (headpart at0 s))" and "dur_ok (te_DurationS (tailpart at0 d s))"
    unfolding headpart_def tailpart_def h t using k k0 dur by (simp_all add: dur_ok_def)
  show "te_OffsetS (tailpart at0 d s) * second = te_OffsetS s * second + (at0 - te_Start s)"
    unfolding tailpart_def h using k by (simp add: algebra_simps)
qed

text \<open>The entries of the edit, given how the schedule lies around the moment.\<close>

definition inserted_entries :: "gtime \<Rightarrow> TimelineEntry \<Rightarrow> TimelineEntry list \<Rightarrow> TimelineEntry list \<Rightarrow> TimelineEntry list" where
  "inserted_entries at0 ins st fut =
     (let d = seconds (te_DurationS ins) in
      map (headpart at0) st @ [ins\<lparr>te_Start := at0\<rparr>] @ map (tailpart at0 d) st @ map (move d) fut)"

lemma shift_loop_split:
  assumes "whole at0" and "\<forall>e \<in> set (st @ fut). entry_wf e" and "\<forall>e \<in> set fut. at0 \<le> te_Start e"
    and "st = [] \<or> (\<exists>s. st = [s] \<and> te_Start s < at0 \<and> at0 < endOf s)"
  shows "shift_loop (st @ fut) at0 d at0 [] [] =
    ((case st of [] \<Rightarrow> at0 | s # _ \<Rightarrow> te_Start s), map (headpart at0) st, map (tailpart at0 d) st @ map (move d) fut)"
proof -
  have fut: "\<forall>e \<in> set fut. at0 \<le> te_Start e \<and> at0 < endOf e"
    using assms by (fastforce simp: entry_wf_def dest: endOf_gt)
  from assms(4) show ?thesis
  proof
    assume "st = []"
    then show ?thesis by (simp add: shift_loop_future [OF fut])
  next
    assume "\<exists>s. st = [s] \<and> te_Start s < at0 \<and> at0 < endOf s"
    then obtain s where s: "st = [s]" "te_Start s < at0" "at0 < endOf s" by blast
    with assms have wf: "entry_wf s" by simp
    note cut = cut_parts(1,2) [OF wf assms(1) s(2,3)]
    show ?thesis using s by (simp add: Let_def cut shift_loop_future [OF fut])
  qed
qed

lemma InsertShift_shape:
  assumes "whole at0" and "\<forall>e \<in> set (st @ fut). entry_wf e" and "\<forall>e \<in> set fut. at0 \<le> te_Start e"
    and "st = [] \<or> (\<exists>s. st = [s] \<and> te_Start s < at0 \<and> at0 < endOf s)"
    and "InsertShift (st @ fut) at0 ins = Inr ed"
  shows "0 < te_DurationS ins" and "ed_Entries ed = inserted_entries at0 ins st fut"
    and "ed_From ed = (case st of [] \<Rightarrow> at0 | s # _ \<Rightarrow> te_Start s)"
    and "ed_To ed = endOf (last (ed_Entries ed))"
  using assms(5) unfolding InsertShift_def inserted_entries_def Let_def shift_loop_split [OF assms(1-4)]
  by (auto split: if_splits)

lemma endOf_le_last:
  assumes "wf_sched es" "e \<in> set es"
  shows "endOf e \<le> endOf (last es)"
proof (cases es rule: rev_cases)
  case (snoc ys y)
  have "te_Start y < endOf y" using assms snoc by (simp add: wf_sched_def entry_wf_def endOf_gt)
  moreover have "e \<in> set ys \<Longrightarrow> endOf e \<le> te_Start y"
    using assms snoc by (auto simp: wf_sched_def no_overlap_def sorted_wrt_append)
  ultimately show ?thesis using assms snoc by auto
qed (use assms in simp)

lemma whole_move: "entry_wf e \<Longrightarrow> d mod second = 0 \<Longrightarrow> entry_wf (move d e)"
  by (auto simp: entry_wf_def Nanosecond_def mod_add_eq [symmetric])

lemma wf_inserted:
  assumes wf: "wf_sched (pre @ st @ fut)" and at0: "whole at0" and ins: "dur_ok (te_DurationS ins)"
    and pre: "\<forall>e \<in> set pre. endOf e \<le> at0" and fut: "\<forall>e \<in> set fut. at0 \<le> te_Start e"
    and st: "st = [] \<or> (\<exists>s. st = [s] \<and> te_Start s < at0 \<and> at0 < endOf s)"
  shows "wf_sched (pre @ inserted_entries at0 ins st fut)"
proof -
  define d where "d = te_DurationS ins * second"
  have d: "seconds (te_DurationS ins) = d" "0 < d" "d mod second = 0"
    using ins by (simp_all add: d_def dur_ok_def)
  have i: "endOf (ins\<lparr>te_Start := at0\<rparr>) = at0 + d" "entry_wf (ins\<lparr>te_Start := at0\<rparr>)"
    using ins at0 d by (simp_all add: endOf_def entry_wf_def)
  have futs: "no_overlap (map (move d) fut)" "\<forall>e \<in> set fut. entry_wf (move d e)"
    using wf d by (auto simp: wf_sched_def no_overlap_def sorted_wrt_append sorted_wrt_map whole_move)
  have at_d: "whole (at0 + d)" using at0 d by (simp add: Nanosecond_def d_def)
  have ie: "inserted_entries at0 ins st fut =
      map (headpart at0) st @ [ins\<lparr>te_Start := at0\<rparr>] @ map (tailpart at0 d) st @ map (move d) fut"
    by (simp only: inserted_entries_def d(1) Let_def)
  have pf: "\<forall>x \<in> set pre. \<forall>y \<in> set fut. endOf x \<le> te_Start y + d" "\<forall>x \<in> set pre. endOf x \<le> at0 + d"
    using pre fut d(2) by fastforce+
  from st show ?thesis
  proof
    assume "st = []"
    then show ?thesis unfolding ie using wf pre fut futs i d(2) pf
      by (auto simp: wf_sched_def no_overlap_def sorted_wrt_append)
  next
    assume "\<exists>s. st = [s] \<and> te_Start s < at0 \<and> at0 < endOf s"
    then obtain s where s: "st = [s]" "te_Start s < at0" "at0 < endOf s" by blast
    have ws: "entry_wf s" using wf s by (simp add: wf_sched_def)
    note cut = cut_parts(3,5) [OF ws at0 s(2,3)] cut_parts(4,6) [OF ws at0 s(2,3), of d]
    have starts: "te_Start (headpart at0 s) = te_Start s" "te_Start (tailpart at0 d s) = at0 + d"
      by (simp_all add: headpart_def tailpart_def)
    have "entry_wf (headpart at0 s)" "entry_wf (tailpart at0 d s)"
      using cut starts ws at_d by (simp_all add: entry_wf_def)
    then show ?thesis unfolding ie using wf pre fut futs i d(2) s cut starts pf
      by (auto simp: wf_sched_def no_overlap_def sorted_wrt_append)
  qed
qed

lemma sort_key_wf: "wf_sched es \<Longrightarrow> sort_key te_Start es = es"
  by (intro sort_key_id_if_sorted no_overlap_sorted)

lemma apply_edit_inserted:
  assumes wf: "wf_sched (pre @ st @ fut)" and at0: "whole at0" and ins: "dur_ok (te_DurationS ins)"
    and pre: "\<forall>e \<in> set pre. endOf e \<le> at0" and fut: "\<forall>e \<in> set fut. at0 \<le> te_Start e"
    and st: "st = [] \<or> (\<exists>s. st = [s] \<and> te_Start s < at0 \<and> at0 < endOf s)"
    and ed: "InsertShift (st @ fut) at0 ins = Inr ed"
  shows "apply_edit (pre @ st @ fut) ed = pre @ inserted_entries at0 ins st fut"
proof -
  have wfe: "\<forall>e \<in> set (st @ fut). entry_wf e" using wf by (simp add: wf_sched_def)
  note shape = InsertShift_shape [OF at0 wfe fut st ed]
  let ?es = "inserted_entries at0 ins st fut" and ?d = "seconds (te_DurationS ins)"
  have d: "0 < ?d" using ins by (simp add: dur_ok_def)
  have wfn: "wf_sched (pre @ ?es)" by (rule wf_inserted [OF wf at0 ins pre fut st])
  have wfi: "wf_sched ?es" using wfn by (simp add: wf_sched_def no_overlap_def sorted_wrt_append)
  have kept: "te_Start e < ed_From ed" if "e \<in> set pre" for e
    using that wf pre st endOf_gt [of e] shape(3)
    by (fastforce simp: wf_sched_def no_overlap_def sorted_wrt_append entry_wf_def split: list.splits)
  have gone: "ed_From ed \<le> te_Start e \<and> te_Start e < ed_To ed" if e: "e \<in> set (st @ fut)" for e
  proof -
    obtain e' where e': "e' \<in> set ?es" "endOf e' = endOf e + ?d"
    proof (cases "e \<in> set fut")
      case True
      then show ?thesis using that [of "move ?d e"] by (simp add: inserted_entries_def Let_def)
    next
      case False
      then obtain s where s: "st = [s]" "e = s" "te_Start s < at0" "at0 < endOf s" using e st by auto
      then show ?thesis using that [of "tailpart at0 ?d s"] cut_parts(4) [OF _ at0, of s ?d] wfe
        by (simp add: inserted_entries_def Let_def)
    qed
    have "te_Start e < endOf e" using wfe e by (simp add: entry_wf_def endOf_gt)
    then have "te_Start e < ed_To ed"
      using endOf_le_last [OF wfi e'(1)] e'(2) d shape(2,4) by simp
    moreover have "ed_From ed \<le> te_Start e" using e st fut shape(3) by (auto split: list.splits)
    ultimately show ?thesis by simp
  qed
  have "filter (\<lambda>e. \<not> (ed_From ed \<le> te_Start e \<and> te_Start e < ed_To ed)) (pre @ st @ fut) = pre"
    using kept gone by (fastforce simp: filter_empty_conv intro!: filter_True)
  then show ?thesis unfolding apply_edit_def shape(2) by (simp add: sort_key_wf [OF wfn])
qed

lemma airs_inserted:
  assumes wf: "wf_sched (pre @ st @ fut)" and at0: "whole at0" and ins: "dur_ok (te_DurationS ins)"
    and pre: "\<forall>e \<in> set pre. endOf e \<le> at0" and fut: "\<forall>e \<in> set fut. at0 \<le> te_Start e"
    and st: "st = [] \<or> (\<exists>s. st = [s] \<and> te_Start s < at0 \<and> at0 < endOf s)"
  shows "airs (pre @ inserted_entries at0 ins st fut) t =
    (let d = te_DurationS ins * second in
     if t < at0 then airs (pre @ st @ fut) t
     else if t < at0 + d then Some (what (ins\<lparr>te_Start := at0\<rparr>) t)
     else airs (pre @ st @ fut) (t - d))"
proof -
  define d where "d = te_DurationS ins * second"
  have d: "seconds (te_DurationS ins) = d" "0 < d" using ins by (simp_all add: d_def dur_ok_def)
  have ci: "covers (ins\<lparr>te_Start := at0\<rparr>) t \<longleftrightarrow> at0 \<le> t \<and> t < at0 + d" for t
    using d by (auto simp: covers_def endOf_def)
  have pre_None: "at0 \<le> t \<Longrightarrow> airs pre t = None" for t using pre by (auto simp: airs_None covers_def)
  have fut_None: "t < at0 \<Longrightarrow> airs fut t = None" for t using fut by (auto simp: airs_None covers_def)
  have head: "airs (map (headpart at0) st) t = (if t < at0 then airs st t else None)" for t
    using st cut_parts(3) [OF _ at0] wf
    by (auto simp: wf_sched_def airs_single covers_def headpart_def what_def)
  have tail: "airs (map (tailpart at0 d) st) t = (if t < at0 + d then None else airs st (t - d))" for t
  proof (cases st)
    case (Cons s r)
    then have s: "st = [s]" "te_Start s < at0" "at0 < endOf s" using st by auto
    have ws: "entry_wf s" using wf s by (simp add: wf_sched_def)
    have "te_Start (tailpart at0 d s) = at0 + d" by (simp add: tailpart_def)
    then show ?thesis using s cut_parts(4,7) [OF ws at0 s(2,3), of d]
      by (auto simp: airs_single covers_def what_def tailpart_def)
  qed simp
  show ?thesis
    unfolding inserted_entries_def d(1) Let_def d_def [symmetric]
    using d(2) by (auto simp: airs_append airs_move airs_Cons ci pre_None fut_None head tail split: option.splits)
qed

subsection \<open>Skip ends the current entry and pulls its run earlier\<close>

fun chain_split :: "gtime \<Rightarrow> TimelineEntry list \<Rightarrow> TimelineEntry list \<times> TimelineEntry list" where
  "chain_split p [] = ([], [])"
| "chain_split p (e # es) =
     (if te_Start e = p then (case chain_split (endOf e) es of (a, b) \<Rightarrow> (e # a, b)) else ([], e # es))"

lemma pull_loop_False:
  "pull_loop es pulled p False to out = (fold (\<lambda>e m. max m (endOf e)) es to, out @ es)"
  by (induction es arbitrary: to out) (auto simp: max_def Let_def)

lemma pull_loop_True:
  "pull_loop es pulled p True to out =
     (fold (\<lambda>e m. max m (endOf e)) es to,
      out @ map (move (- pulled)) (fst (chain_split p es)) @ snd (chain_split p es))"
  by (induction es arbitrary: p to out) (auto simp: max_def Let_def pull_loop_False split: prod.splits)

lemma chain_split_append: "fst (chain_split p es) @ snd (chain_split p es) = es"
  by (induction p es rule: chain_split.induct) (auto split: prod.splits)

lemma chain_split_props:
  assumes "wf_sched es" and "\<forall>e \<in> set es. p \<le> te_Start e"
  shows "p \<le> run_end p es \<and> (\<forall>e \<in> set (fst (chain_split p es)). endOf e \<le> run_end p es)
    \<and> (\<forall>e \<in> set (snd (chain_split p es)). run_end p es \<le> te_Start e)"
  using assms
proof (induction p es rule: chain_split.induct)
  case (2 p e es)
  have wf: "wf_sched es" "\<forall>x \<in> set es. endOf e \<le> te_Start x" "p < endOf e"
    using "2.prems" endOf_gt [of e] by (auto simp: wf_sched_def no_overlap_def entry_wf_def)
  show ?case
  proof (cases "te_Start e = p")
    case True
    then show ?thesis using "2.IH" [OF True wf(1,2)] wf(3) by (auto split: prod.splits)
  next
    case False
    then show ?thesis using "2.prems" by auto
  qed
qed simp

lemma fold_max_ge: "(m::int) \<le> fold (\<lambda>e m. max m (f e)) es m \<and> (\<forall>e \<in> set es. f e \<le> fold (\<lambda>e m. max m (f e)) es m)"
proof (induction es arbitrary: m)
  case (Cons a es)
  have "max m (f a) \<le> fold (\<lambda>e m. max m (f e)) es (max m (f a))"
    and "\<forall>e \<in> set es. f e \<le> fold (\<lambda>e m. max m (f e)) es (max m (f a))" using Cons.IH by blast+
  then show ?case by auto
qed simp

text \<open>The cut of the current entry: nothing of it stays when it starts at the moment itself.\<close>

definition kept_part :: "gtime \<Rightarrow> TimelineEntry \<Rightarrow> TimelineEntry list" where
  "kept_part at0 cur = (if at0 > te_Start cur then [headpart at0 cur] else [])"

definition pulled_entries :: "gtime \<Rightarrow> TimelineEntry \<Rightarrow> TimelineEntry list \<Rightarrow> TimelineEntry list" where
  "pulled_entries at0 cur rest =
     kept_part at0 cur @ map (move (at0 - endOf cur)) (fst (chain_split (endOf cur) rest))
       @ snd (chain_split (endOf cur) rest)"

lemma Skip_shape:
  assumes "entry_wf cur" and at0: "whole at0" "te_Start cur \<le> at0" "at0 < endOf cur"
  shows "Skip (cur # rest) at0 = Inr \<lparr>ed_From = te_Start cur,
     ed_To = fold (\<lambda>e m. max m (endOf e)) rest (endOf cur), ed_Entries = pulled_entries at0 cur rest\<rparr>"
proof -
  obtain k where k: "at0 = te_Start cur + k * second" "0 \<le> k" "k < te_DurationS cur"
    using inside_entry [of cur at0] assms by auto
  have e: "endOf cur = te_Start cur + te_DurationS cur * second" and m: "te_DurationS cur \<le> max_seconds"
    using assms(1) by (simp_all add: entry_wf_def endOf_ok dur_ok_def)
  have p: "Sub (endOf cur) at0 = endOf cur - at0" using e k m by simp
  have c: "at0 > te_Start cur \<Longrightarrow> cur\<lparr>te_DurationS := go_div (Sub at0 (te_Start cur)) second\<rparr> = headpart at0 cur"
    using cut_parts(1) assms by blast
  have n: "kept_part at0 cur @ map (move (at0 - endOf cur)) (fst (chain_split (endOf cur) rest))
       @ snd (chain_split (endOf cur) rest) = [] \<Longrightarrow> rest = []"
    using chain_split_append [of "endOf cur" rest] by auto
  have ents: "(if at0 > te_Start cur then [cur\<lparr>te_DurationS := go_div (Sub at0 (te_Start cur)) second\<rparr>] else [])
     = kept_part at0 cur" by (simp add: kept_part_def c)
  show ?thesis unfolding Skip_def pulled_entries_def using assms n
    by (auto simp: Let_def p ents pull_loop_True)
qed

lemma Skip_Nothing:
  "\<forall>e \<in> set es. \<not> covers e at0 \<Longrightarrow> whole at0 \<Longrightarrow> Skip es at0 = Inl (ErrNothing ''nothing is scheduled at that moment'')"
  unfolding Skip_def by (auto simp: covers_def not_less dropWhile_eq_Nil_conv [THEN iffD2])

lemma wf_pulled:
  assumes wf: "wf_sched (pre @ cur # rest)" and at0: "whole at0" "te_Start cur \<le> at0" "at0 < endOf cur"
  shows "wf_sched (pre @ pulled_entries at0 cur rest)"
proof -
  define ch tl where "ch = fst (chain_split (endOf cur) rest)" and "tl = snd (chain_split (endOf cur) rest)"
  define d where "d = at0 - endOf cur"
  have rest: "rest = ch @ tl" by (simp add: ch_def tl_def chain_split_append)
  have wcur: "entry_wf cur" using wf by (simp add: wf_sched_def)
  have d: "d < 0" "d mod second = 0"
  proof -
    show "d < 0" using at0 by (simp add: d_def)
    have "endOf cur mod second = 0" "at0 mod second = 0"
      using wcur at0 by (simp_all add: entry_wf_def endOf_ok Nanosecond_def)
    then show "d mod second = 0" by (simp add: d_def mod_diff_eq [symmetric])
  qed
  have chw: "\<forall>e \<in> set ch. entry_wf (move d e)" "no_overlap (map (move d) ch)"
    using wf d unfolding rest
    by (auto simp: wf_sched_def no_overlap_def sorted_wrt_append sorted_wrt_map intro: whole_move)
  have ord: "\<forall>x \<in> set ch. \<forall>y \<in> set tl. endOf x \<le> te_Start y" "\<forall>x \<in> set ch. endOf cur \<le> te_Start x"
      "\<forall>x \<in> set tl. endOf cur \<le> te_Start x" "\<forall>x \<in> set pre. endOf x \<le> te_Start cur"
    using wf unfolding rest by (auto simp: wf_sched_def no_overlap_def sorted_wrt_append)
  have sep: "\<forall>x \<in> set ch. \<forall>y \<in> set tl. endOf x + d \<le> te_Start y" "\<forall>x \<in> set ch. at0 \<le> te_Start x + d"
      "\<forall>x \<in> set tl. at0 \<le> te_Start x" "\<forall>x \<in> set pre. \<forall>y \<in> set ch. endOf x \<le> te_Start y + d"
  proof -
    show "\<forall>x \<in> set ch. \<forall>y \<in> set tl. endOf x + d \<le> te_Start y" using ord(1) d(1) by force
    show a: "\<forall>x \<in> set ch. at0 \<le> te_Start x + d" using ord(2) by (force simp: d_def)
    show "\<forall>x \<in> set tl. at0 \<le> te_Start x" using ord(3) at0(3) by force
    show "\<forall>x \<in> set pre. \<forall>y \<in> set ch. endOf x \<le> te_Start y + d" using a ord(4) at0(2) by force
  qed
  have kp: "\<forall>e \<in> set (kept_part at0 cur). entry_wf e \<and> endOf e = at0 \<and> te_Start e = te_Start cur"
    using cut_parts(3,5) [OF wcur at0(1) _ at0(3)] wcur
    by (auto simp: kept_part_def entry_wf_def headpart_def)
  have so: "sorted_wrt (\<lambda>a b. endOf a \<le> te_Start b) (kept_part at0 cur)" by (simp add: kept_part_def)
  have "pulled_entries at0 cur rest = kept_part at0 cur @ map (move d) ch @ tl"
    by (simp add: pulled_entries_def ch_def tl_def d_def)
  then show ?thesis using wf chw sep kp so ord
    unfolding rest by (auto simp: wf_sched_def no_overlap_def sorted_wrt_append)
qed

lemma apply_edit_pulled:
  assumes wf: "wf_sched (pre @ cur # rest)" and at0: "whole at0" "te_Start cur \<le> at0" "at0 < endOf cur"
    and ed: "Skip (cur # rest) at0 = Inr ed"
  shows "apply_edit (pre @ cur # rest) ed = pre @ pulled_entries at0 cur rest"
proof -
  have wcur: "entry_wf cur" using wf by (simp add: wf_sched_def)
  have ed': "ed = \<lparr>ed_From = te_Start cur, ed_To = fold (\<lambda>e m. max m (endOf e)) rest (endOf cur),
      ed_Entries = pulled_entries at0 cur rest\<rparr>"
    using ed by (simp add: Skip_shape [OF wcur at0])
  have kept: "te_Start e < te_Start cur" if "e \<in> set pre" for e
    using that wf endOf_gt [of e] by (fastforce simp: wf_sched_def no_overlap_def sorted_wrt_append entry_wf_def)
  have gone: "te_Start cur \<le> te_Start e \<and> te_Start e < ed_To ed" if e: "e \<in> set (cur # rest)" for e
  proof -
    have "te_Start e < endOf e" using wf e by (auto simp: wf_sched_def entry_wf_def endOf_gt)
    moreover have "endOf e \<le> ed_To ed" using e fold_max_ge [of "endOf cur" endOf rest] by (auto simp: ed')
    moreover have "te_Start cur \<le> te_Start e"
      using e wf wcur endOf_gt [of cur] by (auto simp: wf_sched_def no_overlap_def sorted_wrt_append entry_wf_def)
    ultimately show ?thesis by simp
  qed
  have "filter (\<lambda>e. \<not> (ed_From ed \<le> te_Start e \<and> te_Start e < ed_To ed)) (pre @ cur # rest) = pre"
    using kept gone by (fastforce simp: ed' filter_empty_conv intro!: filter_True)
  then show ?thesis unfolding apply_edit_def ed' by (simp add: sort_key_wf [OF wf_pulled [OF wf at0]])
qed

lemma airs_pulled:
  assumes wf: "wf_sched (pre @ cur # rest)" and at0: "whole at0" "te_Start cur \<le> at0" "at0 < endOf cur"
  shows "airs (pre @ pulled_entries at0 cur rest) t =
    (let pulled = endOf cur - at0; stop = run_end (endOf cur) rest in
     if t < at0 then airs (pre @ cur # rest) t
     else if t < stop - pulled then airs (pre @ cur # rest) (t + pulled)
     else if t < stop then None
     else airs (pre @ cur # rest) t)"
proof -
  define ch tl stop d where "ch = fst (chain_split (endOf cur) rest)" and "tl = snd (chain_split (endOf cur) rest)"
    and "stop = run_end (endOf cur) rest" and "d = at0 - endOf cur"
  have rest: "rest = ch @ tl" by (simp add: ch_def tl_def chain_split_append)
  have wcur: "entry_wf cur" using wf by (simp add: wf_sched_def)
  have wfr: "wf_sched rest" "\<forall>e \<in> set rest. endOf cur \<le> te_Start e"
    using wf by (auto simp: wf_sched_def no_overlap_def sorted_wrt_append)
  have cs: "endOf cur \<le> stop" "\<forall>e \<in> set ch. endOf e \<le> stop" "\<forall>e \<in> set tl. stop \<le> te_Start e"
    using chain_split_props [OF wfr] by (simp_all add: stop_def ch_def tl_def)
  have pre_None: "at0 \<le> t \<Longrightarrow> airs pre t = None" for t
    using wf at0 by (auto simp: airs_None covers_def wf_sched_def no_overlap_def sorted_wrt_append dest!: bspec)
  have ch_None: "t < endOf cur \<or> stop \<le> t \<Longrightarrow> airs ch t = None" for t
    using wfr cs(2) unfolding rest by (auto simp: airs_None covers_def dest!: bspec)
  have tl_None: "t < stop \<Longrightarrow> airs tl t = None" for t using cs(3) by (auto simp: airs_None covers_def dest!: bspec)
  have cur_None: "endOf cur \<le> t \<Longrightarrow> airs [cur] t = None" for t by (simp add: airs_single covers_def)
  have kp: "airs (kept_part at0 cur) t = (if t < at0 then airs [cur] t else None)" for t
    using cut_parts(3) [OF wcur at0(1) _ at0(3)] at0
    by (auto simp: kept_part_def airs_single covers_def headpart_def what_def)
  have new: "pre @ pulled_entries at0 cur rest = pre @ kept_part at0 cur @ map (move d) ch @ tl"
    by (simp add: pulled_entries_def ch_def tl_def d_def)
  have old: "pre @ cur # rest = pre @ [cur] @ ch @ tl" by (simp add: rest)
  have A: "airs (pre @ pulled_entries at0 cur rest) t =
      (case airs pre t of Some x \<Rightarrow> Some x | None \<Rightarrow>
        (case if t < at0 then airs [cur] t else None of Some x \<Rightarrow> Some x | None \<Rightarrow>
          (case airs ch (t - d) of Some x \<Rightarrow> Some x | None \<Rightarrow> airs tl t)))"
    unfolding new airs_append kp airs_move by simp
  have B: "airs (pre @ cur # rest) u =
      (case airs pre u of Some x \<Rightarrow> Some x | None \<Rightarrow>
        (case airs [cur] u of Some x \<Rightarrow> Some x | None \<Rightarrow>
          (case airs ch u of Some x \<Rightarrow> Some x | None \<Rightarrow> airs tl u)))" for u
    unfolding old airs_append by simp
  have td: "t - d = t + (endOf cur - at0)" by (simp add: d_def)
  have sd: "stop - (endOf cur - at0) \<ge> at0" "endOf cur - at0 > 0" using cs(1) at0 by simp_all
  show ?thesis unfolding A B Let_def stop_def [symmetric] td
    using sd cs(1) at0 pre_None [of t] pre_None [of "t + (endOf cur - at0)"] ch_None [of t] ch_None [of "t + (endOf cur - at0)"]
      tl_None [of t] tl_None [of "t + (endOf cur - at0)"] cur_None [of t] cur_None [of "t + (endOf cur - at0)"]
    by (auto simp: not_less split: option.splits)
qed

subsection \<open>The properties of the schedule editor\<close>

lemma filter_ending_after:
  assumes "wf_sched (pre @ st @ fut)" "\<forall>e \<in> set pre. endOf e \<le> at0" "\<forall>e \<in> set fut. at0 \<le> te_Start e"
    and "st = [] \<or> (\<exists>s. st = [s] \<and> te_Start s < at0 \<and> at0 < endOf s)"
  shows "filter (\<lambda>e. at0 < endOf e) (pre @ st @ fut) = st @ fut"
proof -
  have "at0 < endOf e" if "e \<in> set fut" for e
    using that assms(1,3) endOf_gt [of e] by (fastforce simp: wf_sched_def entry_wf_def)
  then show ?thesis using assms(2,4) by (force simp: filter_empty_conv)
qed

lemma wf_sched_at:
  assumes wf: "wf_sched (pre @ cur # rest)" and "covers cur at0"
  shows "filter (\<lambda>e. at0 < endOf e) (pre @ cur # rest) = cur # rest"
proof -
  have "endOf e \<le> at0" if "e \<in> set pre" for e
    using that assms by (fastforce simp: wf_sched_def no_overlap_def sorted_wrt_append covers_def)
  moreover have "at0 < endOf e" if "e \<in> set rest" for e
  proof -
    have "endOf cur \<le> te_Start e" "te_Start e < endOf e"
      using that wf by (auto simp: wf_sched_def no_overlap_def sorted_wrt_append entry_wf_def endOf_gt)
    then show ?thesis using assms(2) by (simp add: covers_def)
  qed
  ultimately show ?thesis using assms(2) by (force simp: filter_empty_conv covers_def)
qed

lemma InsertShift_InrD: "InsertShift es at0 ins = Inr ed \<Longrightarrow> whole at0 \<and> 0 < te_DurationS ins"
  by (simp add: InsertShift_def split: if_splits)

lemma Skip_InrD: "Skip es at0 = Inr ed \<Longrightarrow> whole at0"
  by (simp add: Skip_def split: if_splits)

lemma wf_sched_append: "wf_sched (xs @ ys) \<Longrightarrow> wf_sched ys"
  by (simp add: wf_sched_def no_overlap_def sorted_wrt_append)

lemma CheckEntries_wf:
  assumes "wf_sched es" "length es \<le> MaxEntries" "\<forall>e \<in> set es. entry_ok from to e"
  shows "CheckEntries es from to = Inr es"
  unfolding CheckEntries_Inr using assms successively_no_overlap [of es] sort_key_wf [OF assms(1)]
  by (auto simp: wf_sched_def entry_wf_def)

text \<open>C23. \<^verbatim>\<open>CheckEntries\<close> accepts a list of entries exactly when it can be put in an order in which no entry
  overlaps another and every entry is well formed and starts in the window, and it returns that order.
  The only condition is that the durations fit into a \<^verbatim>\<open>time.Duration\<close>.\<close>

theorem CheckEntries_iff:
  assumes "\<forall>e \<in> set es. te_DurationS e \<le> max_seconds"
  shows "CheckEntries es from to = Inr out \<longleftrightarrow>
    length es \<le> MaxEntries \<and> mset out = mset es \<and> no_overlap out \<and> (\<forall>e \<in> set out. entry_ok from to e)"
proof
  assume "CheckEntries es from to = Inr out"
  then show "length es \<le> MaxEntries \<and> mset out = mset es \<and> no_overlap out \<and> (\<forall>e \<in> set out. entry_ok from to e)"
    unfolding CheckEntries_Inr using assms successively_no_overlap [of out]
    by (auto dest: entry_ok_dur)
next
  assume r: "length es \<le> MaxEntries \<and> mset out = mset es \<and> no_overlap out \<and> (\<forall>e \<in> set out. entry_ok from to e)"
  then have s: "set out = set es" by (auto dest: mset_eq_setD)
  with r assms have dur: "\<forall>e \<in> set out. dur_ok (te_DurationS e)" by (auto intro: entry_ok_dur)
  then have "out = sort_key te_Start es"
    using no_overlap_distinct_starts [of out] r by (intro sort_key_unique) auto
  then show "CheckEntries es from to = Inr out"
    unfolding CheckEntries_Inr using r s successively_no_overlap [OF dur] by auto
qed

definition w_movie :: TimelineEntry where
  "w_movie = zero_entry\<lparr>te_Type := ''content'', te_AssetID := ''film'', te_Start := 100 * second, te_DurationS := 60\<rparr>"

definition w_next :: TimelineEntry where
  "w_next = zero_entry\<lparr>te_Type := ''bumper'', te_AssetID := ''promo'', te_Start := 160 * second, te_DurationS := 10\<rparr>"

definition w_ad :: TimelineEntry where
  "w_ad = zero_entry\<lparr>te_Type := ''ad_break'', te_DurationS := 30\<rparr>"

lemmas w_defs = w_movie_def w_next_def w_ad_def zero_entry_def

theorem CheckEntries_iff_witness:
  "CheckEntries [w_next, w_movie] (100 * second) (200 * second) = Inr [w_movie, w_next]"
proof -
  have "\<forall>e \<in> set [w_next, w_movie]. te_DurationS e \<le> max_seconds" by (simp add: w_defs)
  moreover have "length [w_next, w_movie] \<le> MaxEntries \<and> mset [w_movie, w_next] = mset [w_next, w_movie] \<and>
      no_overlap [w_movie, w_next] \<and> (\<forall>e \<in> set [w_movie, w_next]. entry_ok (100 * second) (200 * second) e)"
    by (simp add: MaxEntries_def no_overlap_def w_defs endOf_def entry_ok_def static_ok_def Nanosecond_def)
  ultimately show ?thesis using CheckEntries_iff by blast
qed

text \<open>An insertion means what the broadcaster expects: before the moment the schedule is as it was, then the
  inserted entry is on the air for its duration, and from then on everything is what was scheduled, later by
  that duration; a program that was cut goes on at the position of its source where it stopped.\<close>

theorem InsertShift_airs:
  assumes "wf_sched es" and "te_DurationS ins \<le> max_seconds"
    and "InsertShift (filter (\<lambda>e. at0 < endOf e) es) at0 ins = Inr ed"
  shows "airs (apply_edit es ed) t =
    (let d = te_DurationS ins * second in
     if t < at0 then airs es t
     else if t < at0 + d then Some (what (ins\<lparr>te_Start := at0\<rparr>) t)
     else airs es (t - d))"
proof -
  have at0: "whole at0" and ins: "dur_ok (te_DurationS ins)"
    using InsertShift_InrD [OF assms(3)] assms(2) by (auto simp: dur_ok_def)
  obtain pre st fut where s: "es = pre @ st @ fut" "\<forall>e \<in> set pre. endOf e \<le> at0" "\<forall>e \<in> set fut. at0 \<le> te_Start e"
      "st = [] \<or> (\<exists>s. st = [s] \<and> te_Start s < at0 \<and> at0 < endOf s)"
    using wf_sched_split [OF assms(1)] by metis
  have ed: "InsertShift (st @ fut) at0 ins = Inr ed"
    using assms(1,3) filter_ending_after [OF _ s(2-4)] s(1) by simp
  show ?thesis using assms(1) unfolding s(1)
    by (simp only: apply_edit_inserted [OF _ at0 ins s(2-4) ed] airs_inserted [OF _ at0 ins s(2-4)])
qed

text \<open>Every entry of the edit is the inserted one or comes from an entry of the schedule, not earlier in its source.\<close>

lemma inserted_static:
  assumes e: "e \<in> set (inserted_entries at0 ins st fut)" and w: "entry_wf e" "\<forall>e \<in> set st. entry_wf e"
    and at0: "whole at0" and st: "st = [] \<or> (\<exists>s. st = [s] \<and> te_Start s < at0 \<and> at0 < endOf s)"
    and ok: "\<forall>e \<in> set (st @ fut). static_ok e" "static_ok (ins\<lparr>te_Start := at0\<rparr>)"
  shows "static_ok e"
proof -
  define d where "d = seconds (te_DurationS ins)"
  have dur: "0 < te_DurationS e" "whole (te_Start e)" using w(1) by (simp_all add: entry_wf_def dur_ok_def)
  consider (head) s where "s \<in> set st" "e = headpart at0 s" | (ins) "e = ins\<lparr>te_Start := at0\<rparr>"
    | (tail) s where "s \<in> set st" "e = tailpart at0 d s" | (future) x where "x \<in> set fut" "e = move d x"
    using e by (auto simp: inserted_entries_def Let_def d_def)
  then show ?thesis
  proof cases
    case head
    then have "static_ok s" using ok by simp
    then show ?thesis using dur head by (simp add: static_ok_def headpart_def)
  next
    case ins
    then show ?thesis using ok by simp
  next
    case tail
    then have "te_Start s < at0" "at0 < endOf s" using st by auto
    then have "te_OffsetS s \<le> te_OffsetS e" using cut_parts(7) [of s at0 d] w(2) at0 tail by simp
    moreover have "static_ok s" using ok tail by simp
    ultimately show ?thesis using dur tail by (simp add: static_ok_def tailpart_def)
  next
    case future
    then have "static_ok x" using ok by simp
    then show ?thesis using dur future by (simp add: static_ok_def)
  qed
qed

text \<open>The entries that an insertion writes are accepted by \<^verbatim>\<open>CheckEntries\<close> for the window of the edit, and the
  schedule stays free of overlaps: a command is never refused because of what it did itself.\<close>

theorem InsertShift_checked:
  assumes "wf_sched es" and "\<forall>e \<in> set es. static_ok e" and "static_ok (ins\<lparr>te_Start := at0\<rparr>)"
    and "te_DurationS ins \<le> max_seconds" and "InsertShift (filter (\<lambda>e. at0 < endOf e) es) at0 ins = Inr ed"
    and "length (ed_Entries ed) \<le> MaxEntries"
  shows "CheckEntries (ed_Entries ed) (ed_From ed) (ed_To ed) = Inr (ed_Entries ed) \<and> wf_sched (apply_edit es ed)"
proof -
  have at0: "whole at0" and ins: "dur_ok (te_DurationS ins)"
    using InsertShift_InrD [OF assms(5)] assms(4) by (auto simp: dur_ok_def)
  obtain pre st fut where s: "es = pre @ st @ fut" "\<forall>e \<in> set pre. endOf e \<le> at0" "\<forall>e \<in> set fut. at0 \<le> te_Start e"
      "st = [] \<or> (\<exists>s. st = [s] \<and> te_Start s < at0 \<and> at0 < endOf s)"
    using wf_sched_split [OF assms(1)] by metis
  have wf: "wf_sched (pre @ st @ fut)" using assms(1) s(1) by simp
  have ed: "InsertShift (st @ fut) at0 ins = Inr ed"
    using assms(5) filter_ending_after [OF wf s(2-4)] s(1) by simp
  have wfe: "\<forall>e \<in> set (st @ fut). entry_wf e" using wf by (simp add: wf_sched_def)
  note shape = InsertShift_shape [OF at0 wfe s(3,4) ed]
  have wfn: "wf_sched (pre @ ed_Entries ed)" using wf_inserted [OF wf at0 ins s(2-4)] shape(2) by simp
  have d: "0 < seconds (te_DurationS ins)" using ins by (simp add: dur_ok_def)
  have ok: "entry_ok (ed_From ed) (ed_To ed) e" if e: "e \<in> set (ed_Entries ed)" for e
  proof -
    have w: "entry_wf e" using wfn e by (simp add: wf_sched_def)
    have "te_Start e < ed_To ed"
      using endOf_le_last [OF wf_sched_append [OF wfn] e] endOf_gt [of e] w shape(4) by (simp add: entry_wf_def)
    moreover have "ed_From ed \<le> te_Start e"
      using e s(3,4) d unfolding shape(2,3) inserted_entries_def Let_def
      by (force simp: headpart_def tailpart_def split: list.splits)
    moreover have "static_ok e"
      using inserted_static [OF _ w _ at0 s(4), of ins fut] e wfe assms(2,3) unfolding shape(2) s(1) by auto
    ultimately show ?thesis by (simp add: entry_ok_def)
  qed
  show ?thesis using CheckEntries_wf [OF wf_sched_append [OF wfn] assms(6)] ok
      apply_edit_inserted [OF wf at0 ins s(2-4) ed] wfn shape(2) s(1) by auto
qed

lemma pulled_ok:
  assumes wf: "wf_sched (pre @ cur # rest)" and at0: "whole at0" "te_Start cur \<le> at0" "at0 < endOf cur"
    and e: "e \<in> set (pulled_entries at0 cur rest)" and ok: "\<forall>e \<in> set (cur # rest). static_ok e"
  shows "entry_ok (te_Start cur) (fold (\<lambda>e m. max m (endOf e)) rest (endOf cur)) e"
proof -
  let ?to = "fold (\<lambda>e m. max m (endOf e)) rest (endOf cur)" and ?ch = "fst (chain_split (endOf cur) rest)"
    and ?tl = "snd (chain_split (endOf cur) rest)"
  have sub: "set ?ch \<union> set ?tl = set rest" using chain_split_append [of "endOf cur" rest] by (metis set_append)
  have wn: "entry_wf e" using wf_pulled [OF wf at0] e by (simp add: wf_sched_def)
  have to: "endOf cur \<le> ?to" "\<forall>x \<in> set rest. endOf x \<le> ?to"
    using fold_max_ge [of "endOf cur" endOf rest] by blast+
  have rest: "endOf cur \<le> te_Start x \<and> te_Start x < endOf x" if "x \<in> set rest" for x
    using that wf by (auto simp: wf_sched_def no_overlap_def sorted_wrt_append entry_wf_def endOf_gt)
  consider (kept) "e = headpart at0 cur" | (pulled) x where "x \<in> set rest" "e = move (at0 - endOf cur) x"
    | (rest) "e \<in> set rest"
    using e sub by (auto simp: pulled_entries_def kept_part_def split: if_splits)
  then show ?thesis
  proof cases
    case kept
    then show ?thesis using ok wn to(1) at0
      by (simp add: entry_ok_def static_ok_def headpart_def entry_wf_def dur_ok_def)
  next
    case pulled
    then have "static_ok x" and "endOf x \<le> ?to" using ok to by auto
    then show ?thesis using pulled rest [of x] wn at0 by (simp add: entry_ok_def static_ok_def entry_wf_def)
  next
    case rest
    then have "static_ok e" and "endOf e \<le> ?to" using ok to by auto
    then show ?thesis using \<open>e \<in> set rest\<close> \<open>\<And>x. x \<in> set rest \<Longrightarrow> endOf cur \<le> te_Start x \<and> te_Start x < endOf x\<close> [of e] at0
      by (simp add: entry_ok_def)
  qed
qed

text \<open>Skipping means: before the moment nothing changes; from it on the entries that followed the current one
  without a gap are on the air earlier by what was left of it; where their run ended there is nothing until its
  old end, and after that the schedule is as it was.\<close>

theorem Skip_airs:
  assumes "wf_sched (pre @ cur # rest)" and "covers cur at0"
    and "Skip (filter (\<lambda>e. at0 < endOf e) (pre @ cur # rest)) at0 = Inr ed"
  shows "airs (apply_edit (pre @ cur # rest) ed) t =
    (let pulled = endOf cur - at0; stop = run_end (endOf cur) rest in
     if t < at0 then airs (pre @ cur # rest) t
     else if t < stop - pulled then airs (pre @ cur # rest) (t + pulled)
     else if t < stop then None
     else airs (pre @ cur # rest) t)"
proof -
  have at0: "whole at0" "te_Start cur \<le> at0" "at0 < endOf cur"
    using Skip_InrD [OF assms(3)] assms(2) by (auto simp: covers_def)
  have ed: "Skip (cur # rest) at0 = Inr ed" using assms(3) by (simp only: wf_sched_at [OF assms(1,2)])
  show ?thesis by (simp only: apply_edit_pulled [OF assms(1) at0 ed] airs_pulled [OF assms(1) at0])
qed

text \<open>Skip answers "nothing is scheduled" exactly when no entry covers the moment; otherwise it succeeds, its
  entries are accepted by \<^verbatim>\<open>CheckEntries\<close> and the schedule stays free of overlaps.\<close>

theorem Skip_checked:
  assumes "wf_sched es" and "\<forall>e \<in> set es. static_ok e" and "whole at0" and "length es \<le> MaxEntries"
  shows "if airs es at0 = None
    then Skip (filter (\<lambda>e. at0 < endOf e) es) at0 = Inl (ErrNothing ''nothing is scheduled at that moment'')
    else (\<exists>ed. Skip (filter (\<lambda>e. at0 < endOf e) es) at0 = Inr ed
      \<and> CheckEntries (ed_Entries ed) (ed_From ed) (ed_To ed) = Inr (ed_Entries ed) \<and> wf_sched (apply_edit es ed))"
proof (cases "airs es at0")
  case None
  then show ?thesis using Skip_Nothing [OF _ assms(3), of "filter (\<lambda>e. at0 < endOf e) es"] by (simp add: airs_None)
next
  case (Some x)
  then obtain cur where "cur \<in> set es" and cov: "covers cur at0" by (metis airs_None option.distinct(1))
  then obtain pre rest where es: "es = pre @ cur # rest" by (metis split_list)
  have wf: "wf_sched (pre @ cur # rest)" using assms(1) es by simp
  have at0: "whole at0" "te_Start cur \<le> at0" "at0 < endOf cur" using assms(3) cov by (auto simp: covers_def)
  have wcur: "entry_wf cur" using wf by (simp add: wf_sched_def)
  define ed where "ed = \<lparr>ed_From = te_Start cur,
     ed_To = fold (\<lambda>e m. max m (endOf e)) rest (endOf cur), ed_Entries = pulled_entries at0 cur rest\<rparr>"
  have sk: "Skip (cur # rest) at0 = Inr ed" unfolding ed_def by (rule Skip_shape [OF wcur at0])
  have wfn: "wf_sched (pre @ ed_Entries ed)" using wf_pulled [OF wf at0] by (simp add: ed_def)
  have ok: "entry_ok (ed_From ed) (ed_To ed) e" if e: "e \<in> set (ed_Entries ed)" for e
    using pulled_ok [OF wf at0, of e] e assms(2) es by (simp add: ed_def)
  have "length (ed_Entries ed) \<le> length (cur # rest)"
    using arg_cong [OF chain_split_append [of "endOf cur" rest], of length]
    by (simp add: ed_def pulled_entries_def kept_part_def)
  then have "CheckEntries (ed_Entries ed) (ed_From ed) (ed_To ed) = Inr (ed_Entries ed)"
    using CheckEntries_wf [OF wf_sched_append [OF wfn]] ok assms(4) es by simp
  moreover have "wf_sched (apply_edit es ed)"
    using wfn apply_edit_pulled [OF wf at0 sk] es by (simp add: ed_def)
  ultimately show ?thesis using Some sk wf_sched_at [OF wf cov] es by auto
qed

theorem InsertShift_airs_witness:
  "InsertShift (filter (\<lambda>e. 120 * second < endOf e) [w_movie, w_next]) (120 * second) w_ad =
     Inr \<lparr>ed_From = 100 * second, ed_To = 200 * second, ed_Entries = inserted_entries (120 * second) w_ad [w_movie] [w_next]\<rparr>
   \<and> airs (apply_edit [w_movie, w_next] \<lparr>ed_From = 100 * second, ed_To = 200 * second,
       ed_Entries = inserted_entries (120 * second) w_ad [w_movie] [w_next]\<rparr>) (155 * second)
     = Some (''content'', ''film'', '''', '''', 25 * second)"
proof -
  have wf: "wf_sched [w_movie, w_next]"
    by (simp add: wf_sched_def no_overlap_def entry_wf_def w_defs endOf_def Nanosecond_def dur_ok_def)
  have d: "te_DurationS w_ad \<le> max_seconds" by (simp add: w_defs)
  have h: "InsertShift (filter (\<lambda>e. 120 * second < endOf e) [w_movie, w_next]) (120 * second) w_ad =
     Inr \<lparr>ed_From = 100 * second, ed_To = 200 * second, ed_Entries = inserted_entries (120 * second) w_ad [w_movie] [w_next]\<rparr>"
    by (simp add: InsertShift_def w_defs endOf_def Nanosecond_def inserted_entries_def headpart_def tailpart_def)
  show ?thesis using h InsertShift_airs [OF wf d h, of "155 * second"]
    by (simp add: w_defs airs_def covers_def endOf_def what_def)
qed

theorem InsertShift_checked_witness:
  "CheckEntries (inserted_entries (120 * second) w_ad [w_movie] [w_next]) (100 * second) (200 * second) =
     Inr (inserted_entries (120 * second) w_ad [w_movie] [w_next])"
proof -
  have wf: "wf_sched [w_movie, w_next]" "\<forall>e \<in> set [w_movie, w_next]. static_ok e"
      "static_ok (w_ad\<lparr>te_Start := 120 * second\<rparr>)" "te_DurationS w_ad \<le> max_seconds"
    by (simp_all add: wf_sched_def no_overlap_def entry_wf_def w_defs endOf_def Nanosecond_def dur_ok_def static_ok_def)
  have h: "InsertShift (filter (\<lambda>e. 120 * second < endOf e) [w_movie, w_next]) (120 * second) w_ad =
     Inr \<lparr>ed_From = 100 * second, ed_To = 200 * second, ed_Entries = inserted_entries (120 * second) w_ad [w_movie] [w_next]\<rparr>"
    by (simp add: InsertShift_def w_defs endOf_def Nanosecond_def inserted_entries_def headpart_def tailpart_def)
  show ?thesis using InsertShift_checked [OF wf h] by (simp add: inserted_entries_def MaxEntries_def Let_def)
qed

theorem Skip_airs_witness:
  "airs (apply_edit [w_movie, w_next] \<lparr>ed_From = 100 * second, ed_To = 170 * second,
       ed_Entries = pulled_entries (120 * second) w_movie [w_next]\<rparr>) (123 * second)
     = Some (''bumper'', ''promo'', '''', '''', 3 * second)"
proof -
  have wf: "wf_sched ([] @ w_movie # [w_next])" and c: "covers w_movie (120 * second)"
    by (simp_all add: wf_sched_def no_overlap_def entry_wf_def w_defs endOf_def Nanosecond_def dur_ok_def covers_def)
  have h: "Skip (filter (\<lambda>e. 120 * second < endOf e) ([] @ w_movie # [w_next])) (120 * second) =
     Inr \<lparr>ed_From = 100 * second, ed_To = 170 * second, ed_Entries = pulled_entries (120 * second) w_movie [w_next]\<rparr>"
    by (simp add: Skip_def w_defs endOf_def Nanosecond_def pulled_entries_def kept_part_def headpart_def)
  show ?thesis using Skip_airs [OF wf c h, of "123 * second"]
    by (simp add: w_defs airs_def covers_def endOf_def what_def)
qed

theorem Skip_checked_witness:
  "\<exists>ed. Skip [w_movie, w_next] (120 * second) = Inr ed \<and> wf_sched (apply_edit [w_movie, w_next] ed)"
proof -
  have wf: "wf_sched [w_movie, w_next]" "\<forall>e \<in> set [w_movie, w_next]. static_ok e" "whole (120 * second)"
      "length [w_movie, w_next] \<le> MaxEntries"
    by (simp_all add: wf_sched_def no_overlap_def entry_wf_def w_defs endOf_def Nanosecond_def dur_ok_def static_ok_def MaxEntries_def)
  have f: "filter (\<lambda>e. 120 * second < endOf e) [w_movie, w_next] = [w_movie, w_next]"
    and a: "airs [w_movie, w_next] (120 * second) \<noteq> None"
    by (simp_all add: w_defs endOf_def airs_def covers_def)
  show ?thesis using Skip_checked [OF wf] f a by auto
qed

end
