(* ===== verification/Bytes.thy ===== *)
theory Bytes
  imports Prelude
begin

unbundle bit_operations_syntax

text \<open>
  Bytes and the big-endian integers of \<^verbatim>\<open>encoding/binary\<close> that the two binary formats share (the SCTE-35 section and
  the MP4 boxes), with their round trips.
\<close>

type_synonym byte = "8 word"

definition be16 :: "16 word \<Rightarrow> byte list" where
  "be16 v = [ucast (drop_bit 8 v), ucast v]"

definition be32 :: "32 word \<Rightarrow> byte list" where
  "be32 v = [ucast (drop_bit 24 v), ucast (drop_bit 16 v), ucast (drop_bit 8 v), ucast v]"

definition dec16 :: "byte \<Rightarrow> byte \<Rightarrow> 16 word" where
  "dec16 a b = push_bit 8 (ucast a) OR ucast b"

definition dec32 :: "byte \<Rightarrow> byte \<Rightarrow> byte \<Rightarrow> byte \<Rightarrow> 32 word" where
  "dec32 a b c d = push_bit 24 (ucast a) OR push_bit 16 (ucast b) OR push_bit 8 (ucast c) OR ucast d"

definition be64 :: "64 word \<Rightarrow> byte list" where
  "be64 v = be32 (ucast (drop_bit 32 v)) @ be32 (ucast v)"

text \<open>\<^verbatim>\<open>BigEndian.Uint32(b[p:p+4])\<close> and \<^verbatim>\<open>BigEndian.Uint64(b[p:p+8])\<close>.\<close>

definition Uint32 :: "byte list \<Rightarrow> nat \<Rightarrow> 32 word" where
  "Uint32 b p = dec32 (b ! p) (b ! (p + 1)) (b ! (p + 2)) (b ! (p + 3))"

definition Uint64 :: "byte list \<Rightarrow> nat \<Rightarrow> 64 word" where
  "Uint64 b p = push_bit 32 (ucast (Uint32 b p)) OR ucast (Uint32 b (p + 4))"

text \<open>\<^verbatim>\<open>BigEndian.PutUint64(b[p:p+8], v)\<close>.\<close>

definition PutUint64 :: "byte list \<Rightarrow> nat \<Rightarrow> 64 word \<Rightarrow> byte list" where
  "PutUint64 b p v = take p b @ be64 v @ drop (p + 8) b"

lemma dec16_be16: "dec16 (ucast (drop_bit 8 v)) (ucast v) = v"
  unfolding dec16_def by (rule bit_word_eqI) (auto simp: bit_simps)

lemma dec32_be32: "dec32 (ucast (drop_bit 24 v)) (ucast (drop_bit 16 v)) (ucast (drop_bit 8 v)) (ucast v) = v"
proof (rule bit_word_eqI)
  fix n assume "n < LENGTH(32)"
  then consider "n < 8" | "8 \<le> n" "n < 16" | "16 \<le> n" "n < 24" | "24 \<le> n" "n < 32" by fastforce
  then show "bit (dec32 (ucast (drop_bit 24 v)) (ucast (drop_bit 16 v)) (ucast (drop_bit 8 v)) (ucast v)) n = bit v n"
    by cases (auto simp: dec32_def bit_simps)
qed

lemma length_be [simp]: "length (be16 v) = 2" "length (be32 w) = 4" "length (be64 x) = 8"
  by (simp_all add: be16_def be32_def be64_def)

lemma dec64_be64: "push_bit 32 (ucast (ucast (drop_bit 32 v) :: 32 word)) OR ucast (ucast v :: 32 word) = (v :: 64 word)"
  by (rule bit_word_eqI) (auto simp: bit_simps)

lemma Uint32_be32 [simp]: "Uint32 (be32 v) 0 = v" "Uint32 (be32 v @ r) 0 = v"
  by (simp_all add: Uint32_def be32_def dec32_be32)

lemma Uint32_cong: "(\<And>i. i < 4 \<Longrightarrow> b ! (p + i) = c ! (q + i)) \<Longrightarrow> Uint32 b p = Uint32 c q"
proof -
  assume a: "\<And>i. i < 4 \<Longrightarrow> b ! (p + i) = c ! (q + i)"
  show ?thesis using a [of 0] a [of 1] a [of 2] a [of 3] by (simp add: Uint32_def)
qed

lemma Uint64_cong: "(\<And>i. i < 8 \<Longrightarrow> b ! (p + i) = c ! (q + i)) \<Longrightarrow> Uint64 b p = Uint64 c q"
proof -
  assume a: "\<And>i. i < 8 \<Longrightarrow> b ! (p + i) = c ! (q + i)"
  have "Uint32 b p = Uint32 c q" by (rule Uint32_cong) (simp add: a)
  moreover have "Uint32 b (p + 4) = Uint32 c (q + 4)"
    using a [of "4 + i" for i] by (intro Uint32_cong) (simp add: add.assoc)
  ultimately show ?thesis by (simp add: Uint64_def)
qed

lemma length_PutUint64 [simp]: "p + 8 \<le> length b \<Longrightarrow> length (PutUint64 b p v) = length b"
  by (simp add: PutUint64_def)

lemma PutUint64_other: "p + 8 \<le> length b \<Longrightarrow> i < p \<or> p + 8 \<le> i \<Longrightarrow> PutUint64 b p v ! i = b ! i"
  by (auto simp: PutUint64_def nth_append)

lemma PutUint64_at: "p + 8 \<le> length b \<Longrightarrow> i < 8 \<Longrightarrow> PutUint64 b p v ! (p + i) = be64 v ! i"
  by (simp add: PutUint64_def nth_append)

lemma Uint64_PutUint64 [simp]: "p + 8 \<le> length b \<Longrightarrow> Uint64 (PutUint64 b p v) p = v"
proof -
  assume p: "p + 8 \<le> length b"
  have "Uint64 (PutUint64 b p v) p = Uint64 (be64 v) 0"
    by (rule Uint64_cong) (simp add: PutUint64_at [OF p])
  also have "\<dots> = v" by (simp add: Uint64_def be64_def Uint32_def be32_def dec32_be32 dec64_be64)
  finally show ?thesis .
qed

subsection \<open>Hex\<close>

text \<open>\<^verbatim>\<open>encoding/hex\<close>: both cases are read.\<close>

definition hex_val :: "char \<Rightarrow> byte option" where
  "hex_val c = (let n = of_char c :: nat in
     if 48 \<le> n \<and> n \<le> 57 then Some (of_nat (n - 48))
     else if 97 \<le> n \<and> n \<le> 102 then Some (of_nat (n - 87))
     else if 65 \<le> n \<and> n \<le> 70 then Some (of_nat (n - 55))
     else None)"

fun hex_DecodeString :: "string \<Rightarrow> byte list option" where
  "hex_DecodeString [] = Some []"
| "hex_DecodeString [c] = None"
| "hex_DecodeString (a # b # r) =
     (case (hex_val a, hex_val b) of
        (Some x, Some y) \<Rightarrow> map_option (\<lambda>bs. (push_bit 4 x OR y) # bs) (hex_DecodeString r)
      | _ \<Rightarrow> None)"

end
