(* ===== verification/Scte35.thy ===== *)
theory Scte35
  imports Bytes
begin

unbundle bit_operations_syntax

text \<open>
  \<^verbatim>\<open>pkg/scte35/scte35.go\<close>: the splice\_info\_section, its CRC, and the ways it is written. Bytes are
  \<^typ>\<open>8 word\<close>, the fields have the widths of the Go struct. A conversion \<^verbatim>\<open>byte(x)\<close> is \<^const>\<open>ucast\<close> to
  eight bits.
\<close>

datatype scte_error = ErrDuration | ErrPTS | ErrNoTime | ErrTooShort | ErrTableID byte | ErrLength int int
  | ErrCRC | ErrProtocol byte | ErrEncrypted | ErrCmdLen | ErrCmdPastEnd | ErrCutShort | ErrComponent | ErrNotHexNotBase64

definition TickRate :: "64 word" where "TickRate = 90000"
definition CmdNull :: byte where "CmdNull = 0x00"
definition CmdSpliceInsert :: byte where "CmdSpliceInsert = 0x05"
definition CmdTimeSignal :: byte where "CmdTimeSignal = 0x06"

record SpliceInsert =
  si_EventID :: "32 word"
  si_Cancel :: bool
  si_Out :: bool
  si_Immediate :: bool
  si_PTS :: "64 word option"
  si_DurationTicks :: "64 word"
  si_AutoReturn :: bool
  si_UniqueProgramID :: "16 word"
  si_AvailNum :: byte
  si_AvailsExpected :: byte

record Section =
  sec_PTSAdjustment :: "64 word"
  sec_CommandType :: byte
  sec_Insert :: "SpliceInsert option"

definition zero_insert :: SpliceInsert where
  "zero_insert = \<lparr>si_EventID = 0, si_Cancel = False, si_Out = False, si_Immediate = False, si_PTS = None,
     si_DurationTicks = 0, si_AutoReturn = False, si_UniqueProgramID = 0, si_AvailNum = 0, si_AvailsExpected = 0\<rparr>"

subsection \<open>CRC-32/MPEG-2\<close>

definition crc_bit :: "32 word \<Rightarrow> 32 word" where
  "crc_bit crc = (if crc AND 0x80000000 \<noteq> 0 then push_bit 1 crc XOR 0x04C11DB7 else push_bit 1 crc)"

definition crc_byte :: "32 word \<Rightarrow> byte \<Rightarrow> 32 word" where
  "crc_byte crc x = (crc_bit ^^ 8) (crc XOR push_bit 24 (ucast x))"

definition crc32mpeg :: "byte list \<Rightarrow> 32 word" where
  "crc32mpeg b = foldl crc_byte 0xFFFFFFFF b"

subsection \<open>Encode\<close>

text \<open>A 33-bit value behind seven flag bits: the splice time and the break duration.\<close>

definition be33 :: "byte \<Rightarrow> 64 word \<Rightarrow> byte list" where
  "be33 flags p = [flags OR ucast (drop_bit 32 p AND 1), ucast (drop_bit 24 p), ucast (drop_bit 16 p), ucast (drop_bit 8 p), ucast p]"

definition insert_flags :: "SpliceInsert \<Rightarrow> byte" where
  "insert_flags s = (0x0F OR (if si_Out s then 0x80 else 0) OR 0x40
     OR (if si_DurationTicks s > 0 then 0x20 else 0) OR (if si_Immediate s then 0x10 else 0))"

definition encode_cmd :: "SpliceInsert \<Rightarrow> scte_error + byte list" where
  "encode_cmd s =
     (if si_Cancel s then Inr (be32 (si_EventID s) @ [0xFF])
      else
        let tail = (if si_DurationTicks s > 0
                    then be33 (0x7E OR (if si_AutoReturn s then 0x80 else 0)) (si_DurationTicks s) else [])
                   @ be16 (si_UniqueProgramID s) @ [si_AvailNum s, si_AvailsExpected s];
            head = be32 (si_EventID s) @ [0x7F, insert_flags s]
        in if \<not> si_Immediate s
           then (case si_PTS s of None \<Rightarrow> Inl ErrNoTime | Some p \<Rightarrow> Inr (head @ be33 0xFE p @ tail))
           else Inr (head @ tail))"

text \<open>The fixed fields around a command, and the section with its length and CRC.\<close>

definition section_body :: "byte \<Rightarrow> byte list \<Rightarrow> byte list" where
  "section_body typ cmd =
     [0x00] @ [0x00, 0x00, 0x00, 0x00, 0x00] @ [0xFF] @
     [0xFF, 0xF0 OR ucast (drop_bit 8 (of_nat (length cmd) :: 64 word) AND 0x0F), ucast (of_nat (length cmd) :: 64 word)] @
     [typ] @ cmd @ [0x00, 0x00]"

definition finish_section :: "byte list \<Rightarrow> byte list" where
  "finish_section body =
     (let len = of_nat (length body + 4) :: 64 word;
          out = [0xFC, 0x30 OR ucast (drop_bit 8 len AND 0x0F), ucast len] @ body
      in out @ be32 (crc32mpeg out))"

definition Encode :: "SpliceInsert \<Rightarrow> scte_error + byte list" where
  "Encode s =
     (if si_DurationTicks s \<ge> 2 ^ 33 then Inl ErrDuration
      else if (case si_PTS s of Some p \<Rightarrow> p \<ge> 2 ^ 33 | None \<Rightarrow> False) then Inl ErrPTS
      else case encode_cmd s of Inl e \<Rightarrow> Inl e | Inr cmd \<Rightarrow> Inr (finish_section (section_body CmdSpliceInsert cmd)))"

text \<open>\<^verbatim>\<open>Out\<close>, \<^verbatim>\<open>In\<close> and \<^verbatim>\<open>Null\<close>; \<^verbatim>\<open>uint64(seconds)\<close> of a negative number wraps.\<close>

definition Out :: "32 word \<Rightarrow> int \<Rightarrow> scte_error + byte list" where
  "Out eventID secs = Encode (zero_insert\<lparr>si_EventID := eventID, si_Out := True, si_Immediate := True,
     si_DurationTicks := of_int secs * TickRate, si_AutoReturn := True, si_AvailsExpected := 1\<rparr>)"

definition In :: "32 word \<Rightarrow> scte_error + byte list" where
  "In eventID = Encode (zero_insert\<lparr>si_EventID := eventID, si_Out := False, si_Immediate := True\<rparr>)"

definition Null :: "byte list" where
  "Null = finish_section (section_body CmdNull [])"

subsection \<open>Decode\<close>

definition dec33 :: "byte \<Rightarrow> byte \<Rightarrow> byte \<Rightarrow> byte \<Rightarrow> byte \<Rightarrow> 64 word" where
  "dec33 a b c d e = push_bit 32 (ucast (a AND 1)) OR push_bit 24 (ucast b) OR push_bit 16 (ucast c)
     OR push_bit 8 (ucast d) OR ucast e"

definition len12 :: "byte \<Rightarrow> byte \<Rightarrow> nat" where
  "len12 hi lo = unat (push_bit 8 (ucast (hi AND 0x0F)) OR ucast lo :: 64 word)"

text \<open>The splice time: an optional 33-bit value; the rest of the command.\<close>

definition decode_time :: "bool \<Rightarrow> byte list \<Rightarrow> scte_error + 64 word option \<times> byte list" where
  "decode_time immediate c =
     (if immediate then Inr (None, c)
      else case c of
          [] \<Rightarrow> Inl ErrCutShort
        | f # _ \<Rightarrow>
            if f AND 0x80 \<noteq> 0
            then (case c of a # b # x # d # e # rest \<Rightarrow> Inr (Some (dec33 a b x d e), rest) | _ \<Rightarrow> Inl ErrCutShort)
            else Inr (None, tl c))"

definition decode_duration :: "bool \<Rightarrow> byte list \<Rightarrow> scte_error + (bool \<times> 64 word) \<times> byte list" where
  "decode_duration has c =
     (if \<not> has then Inr ((False, 0), c)
      else case c of a # b # x # d # e # rest \<Rightarrow> Inr ((a AND 0x80 \<noteq> 0, dec33 a b x d e), rest) | _ \<Rightarrow> Inl ErrCutShort)"

definition decodeInsert :: "byte list \<Rightarrow> scte_error + SpliceInsert" where
  "decodeInsert c =
     (case c of
        c0 # c1 # c2 # c3 # c4 # rest \<Rightarrow>
          (let s = zero_insert\<lparr>si_EventID := dec32 c0 c1 c2 c3, si_Cancel := (c4 AND 0x80 \<noteq> 0)\<rparr> in
           if si_Cancel s then Inr s
           else case rest of
               [] \<Rightarrow> Inl ErrCutShort
             | f # r1 \<Rightarrow>
               (let s1 = s\<lparr>si_Out := (f AND 0x80 \<noteq> 0), si_Immediate := (f AND 0x10 \<noteq> 0)\<rparr> in
                if \<not> (f AND 0x40 \<noteq> 0) then Inl ErrComponent
                else case decode_time (si_Immediate s1) r1 of
                    Inl e \<Rightarrow> Inl e
                  | Inr (pts, r2) \<Rightarrow>
                    (case decode_duration (f AND 0x20 \<noteq> 0) r2 of
                       Inl e \<Rightarrow> Inl e
                     | Inr ((ar, ticks), r3) \<Rightarrow>
                       (case r3 of
                          p0 # p1 # p2 # p3 # _ \<Rightarrow>
                            Inr (s1\<lparr>si_PTS := pts, si_AutoReturn := ar, si_DurationTicks := ticks,
                                   si_UniqueProgramID := dec16 p0 p1, si_AvailNum := p2, si_AvailsExpected := p3\<rparr>)
                        | _ \<Rightarrow> Inl ErrCutShort))))
      | _ \<Rightarrow> Inl ErrCutShort)"

definition Decode :: "byte list \<Rightarrow> scte_error + Section" where
  "Decode b =
     (let n = length b in
      if n < 18 then Inl ErrTooShort
      else if b ! 0 \<noteq> 0xFC then Inl (ErrTableID (b ! 0))
      else if len12 (b ! 1) (b ! 2) + 3 \<noteq> n then Inl (ErrLength (int (len12 (b ! 1) (b ! 2) + 3)) (int n))
      else if crc32mpeg (take (n - 4) b) \<noteq> dec32 (b ! (n - 4)) (b ! (n - 3)) (b ! (n - 2)) (b ! (n - 1)) then Inl ErrCRC
      else if b ! 3 \<noteq> 0 then Inl (ErrProtocol (b ! 3))
      else if b ! 4 AND 0x80 \<noteq> 0 then Inl ErrEncrypted
      else
        let s = \<lparr>sec_PTSAdjustment = dec33 (b ! 4) (b ! 5) (b ! 6) (b ! 7) (b ! 8), sec_CommandType = b ! 13, sec_Insert = None\<rparr>;
            cmdLen = len12 (b ! 11) (b ! 12)
        in if cmdLen = 0xFFF then Inl ErrCmdLen
           else if int (14 + cmdLen) > int n - 4 - 2 then Inl ErrCmdPastEnd
           else if sec_CommandType s \<noteq> CmdSpliceInsert then Inr s
           else case decodeInsert (take cmdLen (drop 14 b)) of
               Inl e \<Rightarrow> Inl e
             | Inr i \<Rightarrow> Inr (s\<lparr>sec_Insert := Some i\<rparr>))"

subsection \<open>Hex and base64\<close>

text \<open>\<^verbatim>\<open>Hex\<close> writes upper case after \<^verbatim>\<open>0x\<close>; \<^verbatim>\<open>encoding/hex\<close> reads both cases.\<close>

definition hex_digit :: "byte \<Rightarrow> char" where
  "hex_digit v = ''0123456789ABCDEF'' ! unat v"

definition Hex :: "byte list \<Rightarrow> string" where
  "Hex b = ''0x'' @ concat (map (\<lambda>x. [hex_digit (drop_bit 4 x), hex_digit (x AND 0x0F)]) b)"

text \<open>\<^verbatim>\<open>encoding/base64\<close>: the standard alphabet, with padding (\<^verbatim>\<open>StdEncoding\<close>) and without
  (\<^verbatim>\<open>RawStdEncoding\<close>). The decoders skip line breaks and do not check the unused bits of the last group.\<close>

definition b64_char :: "byte \<Rightarrow> char" where
  "b64_char v = (let n = unat (v AND 0x3F) in
     if n < 26 then char_of (65 + n)
     else if n < 52 then char_of (71 + n)
     else if n < 62 then char_of (n - 4)
     else if n = 62 then CHR ''+'' else CHR ''/'')"

definition b64_val :: "char \<Rightarrow> byte option" where
  "b64_val c = (let n = of_char c :: nat in
     if 65 \<le> n \<and> n \<le> 90 then Some (of_nat (n - 65))
     else if 97 \<le> n \<and> n \<le> 122 then Some (of_nat (n - 71))
     else if 48 \<le> n \<and> n \<le> 57 then Some (of_nat (n + 4))
     else if n = 43 then Some 62
     else if n = 47 then Some 63
     else None)"

fun Base64 :: "byte list \<Rightarrow> string" where
  "Base64 [] = []"
| "Base64 [a] = [b64_char (drop_bit 2 a), b64_char (push_bit 4 (a AND 3)), CHR ''='', CHR ''='']"
| "Base64 [a, b] = [b64_char (drop_bit 2 a), b64_char (push_bit 4 (a AND 3) OR drop_bit 4 b),
     b64_char (push_bit 2 (b AND 0x0F)), CHR ''='']"
| "Base64 (a # b # c # r) = b64_char (drop_bit 2 a) # b64_char (push_bit 4 (a AND 3) OR drop_bit 4 b)
     # b64_char (push_bit 2 (b AND 0x0F) OR drop_bit 6 c) # b64_char c # Base64 r"

definition b64_1 :: "byte \<Rightarrow> byte \<Rightarrow> byte" where "b64_1 p q = push_bit 2 p OR drop_bit 4 q"
definition b64_2 :: "byte \<Rightarrow> byte \<Rightarrow> byte" where "b64_2 q r = push_bit 4 q OR drop_bit 2 r"
definition b64_3 :: "byte \<Rightarrow> byte \<Rightarrow> byte" where "b64_3 r s = push_bit 6 r OR s"

fun b64_groups :: "bool \<Rightarrow> string \<Rightarrow> byte list option" where
  "b64_groups padded [] = Some []"
| "b64_groups padded [a] = None"
| "b64_groups padded [a, b] =
     (if padded then None
      else case (b64_val a, b64_val b) of (Some p, Some q) \<Rightarrow> Some [b64_1 p q] | _ \<Rightarrow> None)"
| "b64_groups padded [a, b, c] =
     (if padded then None
      else case (b64_val a, b64_val b, b64_val c) of
          (Some p, Some q, Some r) \<Rightarrow> Some [b64_1 p q, b64_2 q r] | _ \<Rightarrow> None)"
| "b64_groups padded (a # b # c # d # rest) =
     (case (b64_val a, b64_val b) of
        (Some p, Some q) \<Rightarrow>
          (if padded \<and> c = CHR ''='' then (if d = CHR ''='' \<and> rest = [] then Some [b64_1 p q] else None)
           else case b64_val c of
               None \<Rightarrow> None
             | Some r \<Rightarrow>
               (if padded \<and> d = CHR ''='' then (if rest = [] then Some [b64_1 p q, b64_2 q r] else None)
                else case b64_val d of
                    None \<Rightarrow> None
                  | Some s \<Rightarrow> map_option (\<lambda>bs. b64_1 p q # b64_2 q r # b64_3 r s # bs) (b64_groups padded rest)))
      | _ \<Rightarrow> None)"

definition b64_DecodeString :: "bool \<Rightarrow> string \<Rightarrow> byte list option" where
  "b64_DecodeString padded s = b64_groups padded (filter (\<lambda>c. of_char c \<notin> {10, 13 :: nat}) s)"

definition ParseSection :: "string \<Rightarrow> scte_error + byte list" where
  "ParseSection s0 =
     (let s = TrimSpace s0; h = TrimPrefix (TrimPrefix s ''0x'') ''0X'' in
      case hex_DecodeString h of
        Some (x # xs) \<Rightarrow> Inr (x # xs)
      | _ \<Rightarrow>
        (case b64_DecodeString True s of
           Some (x # xs) \<Rightarrow> Inr (x # xs)
         | _ \<Rightarrow>
           (case b64_DecodeString False s of
              Some (x # xs) \<Rightarrow> Inr (x # xs)
            | _ \<Rightarrow> Inl ErrNotHexNotBase64)))"

subsection \<open>Words and bytes\<close>

named_theorems scte_bits \<open>bit-level facts of the byte encodings\<close>

lemma length_be33 [simp]: "length (be33 f p) = 5"
  by (simp add: be33_def)

lemma bit_lt_2_33: "(p :: 64 word) < 2 ^ 33 \<Longrightarrow> 33 \<le> n \<Longrightarrow> \<not> bit p n"
proof -
  assume p: "p < 2 ^ 33" and n: "33 \<le> n"
  have "uint p < 2 ^ 33" using p by (simp add: word_less_alt)
  also have "(2::int) ^ 33 \<le> 2 ^ n" using n by (intro power_increasing) auto
  finally have "\<not> bit (uint p) n" by (simp add: bit_iff_odd)
  then show ?thesis using bit_imp_le_length [of p n] by (auto simp: bit_uint_iff)
qed

lemma dec33_be33:
  assumes "p < 2 ^ 33" "\<not> bit f 0"
  shows "dec33 (f OR ucast (drop_bit 32 p AND 1)) (ucast (drop_bit 24 p)) (ucast (drop_bit 16 p)) (ucast (drop_bit 8 p)) (ucast p) = p"
proof (rule bit_word_eqI)
  fix n assume "n < LENGTH(64)"
  have top: "33 \<le> n \<Longrightarrow> \<not> bit p n" by (rule bit_lt_2_33 [OF assms(1)])
  consider "n < 8" | "8 \<le> n" "n < 16" | "16 \<le> n" "n < 24" | "24 \<le> n" "n < 32" | "n = 32" | "33 \<le> n" by linarith
  then show "bit (dec33 (f OR ucast (drop_bit 32 p AND 1)) (ucast (drop_bit 24 p)) (ucast (drop_bit 16 p))
      (ucast (drop_bit 8 p)) (ucast p)) n = bit p n"
    by cases (use assms(2) top \<open>n < LENGTH(64)\<close> in \<open>auto simp: dec33_def bit_simps bit_1_iff\<close>)
qed

lemma crc_bit_inj: "crc_bit a = crc_bit b \<Longrightarrow> a = b"
proof -
  assume eq: "crc_bit a = crc_bit b"
  have top: "(x AND 0x80000000 \<noteq> 0) = bit x 31" for x :: "32 word"
  proof -
    have "(0x80000000 :: 32 word) = 2 ^ 31" by simp
    then show ?thesis by (metis and_exp_eq_0_iff_not_bit)
  qed
  have b: "bit (crc_bit x) n = (n < 32 \<and> ((0 < n \<and> bit x (n - 1)) \<noteq> (bit x 31 \<and> bit (0x04C11DB7 :: 32 word) n)))" for x n
    using bit_imp_le_length [of "0x04C11DB7 :: 32 word" n]
    by (cases "bit x 31") (simp_all only: crc_bit_def top if_True if_False bit_xor_iff bit_push_bit_iff, auto)
  have p0: "bit (0x04C11DB7 :: 32 word) 0" by simp
  have e31: "bit a 31 = bit b 31" using arg_cong [OF eq, of "\<lambda>w. bit w 0"] p0 by (simp add: b)
  show "a = b"
  proof (rule bit_word_eqI)
    fix n assume "n < LENGTH(32)"
    then show "bit a n = bit b n"
      using e31 arg_cong [OF eq, of "\<lambda>w. bit w (Suc n)"] by (cases "n = 31") (auto simp: b)
  qed
qed

lemma xor_left_cancel: "a XOR c = b XOR c \<Longrightarrow> a = (b :: 'a::len word)"
proof (rule bit_word_eqI)
  fix n assume "a XOR c = b XOR c"
  then have "bit (a XOR c) n = bit (b XOR c) n" by simp
  then show "bit a n = bit b n" by (auto simp: bit_xor_iff)
qed

lemma crc_bits_inj: "(crc_bit ^^ n) a = (crc_bit ^^ n) b \<Longrightarrow> a = b"
  by (induction n) (auto dest: crc_bit_inj)

lemma crc_byte_inj_state: "crc_byte a x = crc_byte b x \<Longrightarrow> a = b"
proof -
  assume eq: "crc_byte a x = crc_byte b x"
  from crc_bits_inj [OF eq [unfolded crc_byte_def]] have "a XOR push_bit 24 (ucast x) = b XOR push_bit 24 (ucast x)"
    .
  then show "a = b" by (rule xor_left_cancel)
qed

lemma crc_byte_inj_byte: "crc_byte a x = crc_byte a y \<Longrightarrow> x = y"
proof -
  assume eq: "crc_byte a x = crc_byte a y"
  from crc_bits_inj [OF eq [unfolded crc_byte_def]] have "a XOR push_bit 24 (ucast x) = a XOR push_bit 24 (ucast y)"
    .
  then have p: "push_bit 24 (ucast x) = (push_bit 24 (ucast y) :: 32 word)"
    by (rule xor_left_cancel [of _ a, OF trans [OF xor.commute trans [OF _ xor.commute]]])
  show "x = y"
  proof (rule bit_word_eqI)
    fix n assume "n < LENGTH(8)"
    then show "bit x n = bit y n" using arg_cong [OF p, of "\<lambda>w. bit w (n + 24)"] by (simp add: bit_simps)
  qed
qed

lemma crc_fold_inj: "foldl crc_byte a xs = foldl crc_byte b xs \<Longrightarrow> a = b"
  by (induction xs arbitrary: a b) (auto dest: crc_byte_inj_state)

text \<open>Changing one byte of a message changes its CRC.\<close>

lemma crc_changes:
  assumes "i < length b" "x \<noteq> b ! i"
  shows "crc32mpeg (b[i := x]) \<noteq> crc32mpeg b"
proof
  assume eq: "crc32mpeg (b[i := x]) = crc32mpeg b"
  have u: "b[i := x] = take i b @ x # drop (Suc i) b" using assms(1) by (rule upd_conv_take_nth_drop)
  have v: "b = take i b @ b ! i # drop (Suc i) b" using assms(1) by (rule id_take_nth_drop)
  have "crc32mpeg (take i b @ x # drop (Suc i) b) = crc32mpeg (take i b @ b ! i # drop (Suc i) b)"
    using eq u v by simp
  then have "foldl crc_byte (crc_byte (foldl crc_byte 0xFFFFFFFF (take i b)) x) (drop (Suc i) b) =
      foldl crc_byte (crc_byte (foldl crc_byte 0xFFFFFFFF (take i b)) (b ! i)) (drop (Suc i) b)"
    by (simp only: crc32mpeg_def foldl_append foldl_Cons)
  then show False using assms(2) crc_fold_inj crc_byte_inj_byte by blast
qed

lemma dec32_inj:
  assumes "dec32 a b c d = dec32 a' b' c' d'"
  shows "a = a' \<and> b = b' \<and> c = c' \<and> d = d'"
proof -
  have bits: "bit (dec32 a b c d) n =
      (if n < 8 then bit d n else if n < 16 then bit c (n - 8) else if n < 24 then bit b (n - 16) else n < 32 \<and> bit a (n - 24))"
    for a b c d n
    using bit_imp_le_length [of a "n - 24"] bit_imp_le_length [of b "n - 16"] bit_imp_le_length [of c "n - 8"]
      bit_imp_le_length [of d n]
    by (auto simp: dec32_def bit_simps)
  have "bit a m = bit a' m \<and> bit b m = bit b' m \<and> bit c m = bit c' m \<and> bit d m = bit d' m" if "m < 8" for m
    using that arg_cong [OF assms, of "\<lambda>w. bit w m"] arg_cong [OF assms, of "\<lambda>w. bit w (m + 8)"]
      arg_cong [OF assms, of "\<lambda>w. bit w (m + 16)"] arg_cong [OF assms, of "\<lambda>w. bit w (m + 24)"]
    by (simp add: bits)
  then show ?thesis by (auto intro!: bit_word_eqI)
qed

lemma len12_be:
  assumes "n < 4096" "\<forall>k < 4. \<not> bit f k"
  shows "len12 (f OR ucast (drop_bit 8 (of_nat n :: 64 word) AND 0x0F)) (ucast (of_nat n :: 64 word)) = n"
proof -
  let ?w = "of_nat n :: 64 word"
  have u: "unat ?w = n" using assms(1) by (simp add: unat_of_nat take_bit_nat_eq_self)
  have m: "(0x0F :: 64 word) = mask 4" "(0x0F :: byte) = mask 4" by (simp_all add: mask_eq_exp_minus_1)
  have top: "12 \<le> k \<Longrightarrow> \<not> bit ?w k" for k
  proof -
    assume k: "12 \<le> k"
    have "uint ?w < 2 ^ 12" using assms(1) by (simp add: uint_nat u)
    also have "(2::int) ^ 12 \<le> 2 ^ k" using k by (intro power_increasing) auto
    finally have "\<not> bit (uint ?w) k" by (simp add: bit_iff_odd)
    then show ?thesis using bit_imp_le_length [of ?w k] by (auto simp: bit_uint_iff)
  qed
  have "push_bit 8 (ucast ((f OR ucast (drop_bit 8 ?w AND 0x0F)) AND 0x0F)) OR ucast (ucast ?w :: byte) = ?w"
  proof (rule bit_word_eqI)
    fix k assume "k < LENGTH(64)"
    consider "k < 8" | "8 \<le> k" "k < 12" | "12 \<le> k" by linarith
    then show "bit (push_bit 8 (ucast ((f OR ucast (drop_bit 8 ?w AND 0x0F)) AND 0x0F)) OR ucast (ucast ?w :: byte) :: 64 word) k = bit ?w k"
      unfolding m by cases (use top \<open>k < LENGTH(64)\<close> assms(2) in \<open>auto simp: bit_simps simp del: of_nat_eq_id\<close>)
  qed
  then show ?thesis unfolding len12_def using u by simp
qed

subsection \<open>Decoding what was encoded\<close>

text \<open>What survives a round trip: a cancelled event carries only its id, an immediate splice has no time,
  and the return flag is part of the break duration.\<close>

definition canonical :: "SpliceInsert \<Rightarrow> SpliceInsert" where
  "canonical s =
     (if si_Cancel s then zero_insert\<lparr>si_EventID := si_EventID s, si_Cancel := True\<rparr>
      else s\<lparr>si_PTS := (if si_Immediate s then None else si_PTS s),
             si_AutoReturn := (si_AutoReturn s \<and> si_DurationTicks s > 0)\<rparr>)"

lemma insert_flags_bits:
  "(insert_flags s AND 0x80 \<noteq> 0) = si_Out s" "(insert_flags s AND 0x10 \<noteq> 0) = si_Immediate s"
  "insert_flags s AND 0x40 \<noteq> 0" "(insert_flags s AND 0x20 \<noteq> 0) = (si_DurationTicks s > 0)"
  by (simp_all add: insert_flags_def)

lemma decode_time_be33:
  "p < 2 ^ 33 \<Longrightarrow> decode_time False (be33 0xFE p @ r) = Inr (Some p, r)"
proof -
  assume p: "p < 2 ^ 33"
  have f: "(0xFE OR ucast (drop_bit 32 p AND 1)) AND 0x80 \<noteq> (0 :: byte)"
  proof
    assume "(0xFE OR ucast (drop_bit 32 p AND 1)) AND 0x80 = (0 :: byte)"
    then have "\<not> bit ((0xFE OR ucast (drop_bit 32 p AND 1)) AND 0x80 :: byte) 7" by simp
    then show False by (simp add: bit_simps)
  qed
  show ?thesis using f dec33_be33 [OF p, of "0xFE"] by (simp add: decode_time_def be33_def)
qed

lemma decode_duration_be33:
  assumes "p < 2 ^ 33"
  shows "decode_duration True (be33 (0x7E OR (if ar then 0x80 else 0)) p @ r) = Inr ((ar, p), r)"
proof -
  define f :: byte where "f = 0x7E OR (if ar then 0x80 else 0)"
  have f0: "\<not> bit f 0" by (simp add: f_def)
  have f7: "(f OR ucast (drop_bit 32 p AND 1)) AND 0x80 \<noteq> 0 \<longleftrightarrow> ar"
  proof -
    have "(0x80 :: byte) = 2 ^ 7" by simp
    then have "(f OR ucast (drop_bit 32 p AND 1)) AND 0x80 \<noteq> 0 \<longleftrightarrow> bit (f OR ucast (drop_bit 32 p AND 1)) 7"
      by (metis and_exp_eq_0_iff_not_bit)
    also have "\<dots> \<longleftrightarrow> bit f 7" by (simp add: bit_simps bit_1_iff)
    finally show ?thesis by (simp add: f_def)
  qed
  show ?thesis unfolding f_def [symmetric] using f7 dec33_be33 [OF assms f0]
    by (simp add: decode_duration_def be33_def)
qed

lemma decodeInsert_encode_cmd:
  assumes "encode_cmd s = Inr cmd" "si_DurationTicks s < 2 ^ 33" "\<forall>p. si_PTS s = Some p \<longrightarrow> p < 2 ^ 33"
  shows "decodeInsert cmd = Inr (canonical s)"
proof (cases "si_Cancel s")
  case True
  then show ?thesis using assms(1)
    by (auto simp: encode_cmd_def decodeInsert_def be32_def dec32_be32 canonical_def zero_insert_def)
next
  case False
  define ar :: byte where "ar = 0x7E OR (if si_AutoReturn s then 0x80 else 0)"
  define dur where "dur = (if si_DurationTicks s > 0 then be33 ar (si_DurationTicks s) else [])"
  define tail where "tail = be16 (si_UniqueProgramID s) @ [si_AvailNum s, si_AvailsExpected s]"
  define time where "time = (if si_Immediate s then [] else be33 0xFE (the (si_PTS s)))"
  have pts: "\<not> si_Immediate s \<Longrightarrow> \<exists>p. si_PTS s = Some p \<and> p < 2 ^ 33"
    using assms(1,3) False by (auto simp: encode_cmd_def split: option.splits)
  have cmd: "cmd = be32 (si_EventID s) @ [0x7F, insert_flags s] @ time @ dur @ tail"
    using assms(1) False by (auto simp: encode_cmd_def Let_def time_def dur_def ar_def tail_def split: option.splits if_splits)
  have dt: "decode_time (si_Immediate s) (time @ r) = Inr (if si_Immediate s then None else si_PTS s, r)" for r
  proof (cases "si_Immediate s")
    case True
    then show ?thesis by (simp add: time_def decode_time_def)
  next
    case False
    then show ?thesis using pts decode_time_be33 by (auto simp: time_def)
  qed
  have dd: "decode_duration (si_DurationTicks s > 0) (dur @ r) =
      Inr ((si_AutoReturn s \<and> si_DurationTicks s > 0, si_DurationTicks s), r)" for r
  proof (cases "si_DurationTicks s > 0")
    case True
    then show ?thesis using decode_duration_be33 [OF assms(2)] by (simp add: dur_def ar_def)
  next
    case False
    then show ?thesis by (simp add: dur_def decode_duration_def word_gt_0)
  qed
  show ?thesis
    unfolding cmd using False
    by (simp add: decodeInsert_def be32_def dec32_be32 insert_flags_bits dt dd tail_def be16_def dec16_be16
        canonical_def zero_insert_def Let_def)
qed

lemma low_nibble_clear: "\<forall>k < 4. \<not> bit (0x30 :: byte) k" "\<forall>k < 4. \<not> bit (0xF0 :: byte) k"
proof -
  have "k = 0 \<or> k = 1 \<or> k = 2 \<or> k = 3" if "k < 4" for k :: nat using that by arith
  then show "\<forall>k < 4. \<not> bit (0x30 :: byte) k" "\<forall>k < 4. \<not> bit (0xF0 :: byte) k" by fastforce+
qed

text \<open>The frame around a command: the section is accepted and the command is found again.\<close>

lemma Decode_section:
  assumes len: "length cmd < 4000" and ct: "typ = CmdSpliceInsert"
  shows "Decode (finish_section (section_body typ cmd)) =
    (case decodeInsert cmd of Inl e \<Rightarrow> Inl e
     | Inr i \<Rightarrow> Inr \<lparr>sec_PTSAdjustment = 0, sec_CommandType = typ, sec_Insert = Some i\<rparr>)"
proof -
  define n where "n = length cmd"
  define body where "body = section_body typ cmd"
  define hi :: byte where "hi = 0x30 OR ucast (drop_bit 8 (of_nat (n + 17) :: 64 word) AND 0x0F)"
  define lo :: byte where "lo = ucast (of_nat (n + 17) :: 64 word)"
  define chi :: byte where "chi = 0xF0 OR ucast (drop_bit 8 (of_nat n :: 64 word) AND 0x0F)"
  define clo :: byte where "clo = ucast (of_nat n :: 64 word)"
  define out where "out = [0xFC, hi, lo, 0, 0, 0, 0, 0, 0, 0xFF, 0xFF, chi, clo, typ] @ cmd @ [0, 0]"
  define b where "b = out @ be32 (crc32mpeg out)"
  have blen: "length body + 4 = n + 17" by (simp add: body_def section_body_def n_def)
  have b: "finish_section (section_body typ cmd) = b"
    unfolding b_def out_def body_def [symmetric] finish_section_def Let_def blen hi_def [symmetric] lo_def [symmetric]
    by (simp add: body_def section_body_def n_def [symmetric] chi_def [symmetric] clo_def [symmetric])
  have outlen: "length out = n + 16" by (simp add: out_def n_def)
  have tot: "length b = n + 20" by (simp add: b_def outlen)
  have l1: "len12 hi lo = n + 17" unfolding hi_def lo_def
    using len by (intro len12_be low_nibble_clear) (simp add: n_def)
  have l2: "len12 chi clo = n" unfolding chi_def clo_def
    using len by (intro len12_be low_nibble_clear) (simp add: n_def)
  have crc: "crc32mpeg (take (length b - 4) b) = dec32 (b ! (length b - 4)) (b ! (length b - 3)) (b ! (length b - 2)) (b ! (length b - 1))"
  proof -
    have "take (length b - 4) b = out" by (simp add: b_def)
    moreover have "b ! (length out + k) = be32 (crc32mpeg out) ! k" for k by (simp add: b_def nth_append)
    from this [of 0] this [of 1] this [of 2] this [of 3]
    have "b ! (16 + n) = be32 (crc32mpeg out) ! 0" "b ! (17 + n) = be32 (crc32mpeg out) ! 1"
      "b ! (18 + n) = be32 (crc32mpeg out) ! 2" "b ! (19 + n) = be32 (crc32mpeg out) ! 3"
      by (simp_all add: outlen add.commute)
    ultimately show ?thesis by (simp add: tot be32_def dec32_be32)
  qed
  have hd: "b ! 0 = 0xFC" "b ! 1 = hi" "b ! 2 = lo" "b ! 3 = 0" "b ! 4 = 0" "b ! 5 = 0" "b ! 6 = 0" "b ! 7 = 0"
    "b ! 8 = 0" "b ! 11 = chi" "b ! 12 = clo" "b ! 13 = typ"
    by (simp_all add: b_def out_def)
  have cmd: "take n (drop 14 b) = cmd" by (simp add: b_def out_def n_def)
  have z: "dec33 0 0 0 0 0 = 0" by (simp add: dec33_def)
  have nn: "n \<noteq> 0xFFF" "n < 4000" using len by (simp_all add: n_def)
  show ?thesis unfolding b Decode_def Let_def hd l1 l2 crc
    using nn ct by (simp add: tot cmd z split: sum.splits)
qed

lemma length_encode_cmd: "encode_cmd s = Inr cmd \<Longrightarrow> length cmd \<le> 20"
  by (auto simp: encode_cmd_def Let_def split: if_splits option.splits)

lemma Encode_InrD:
  assumes "Encode s = Inr b"
  obtains cmd where "encode_cmd s = Inr cmd" "b = finish_section (section_body CmdSpliceInsert cmd)"
    "si_DurationTicks s < 2 ^ 33" "\<forall>p. si_PTS s = Some p \<longrightarrow> p < 2 ^ 33"
  using assms unfolding Encode_def
  by (auto simp: not_le split: if_splits sum.splits option.splits)

text \<open>C30. Round trip: whatever \<^verbatim>\<open>Encode\<close> writes, \<^verbatim>\<open>Decode\<close> accepts (length, CRC, flags) and reads back as the same
  splice\_insert, up to the fields that the format does not carry for it (\<open>canonical\<close>).\<close>

theorem Decode_Encode:
  assumes "Encode s = Inr b"
  shows "Decode b = Inr \<lparr>sec_PTSAdjustment = 0, sec_CommandType = CmdSpliceInsert, sec_Insert = Some (canonical s)\<rparr>"
proof -
  obtain cmd where cmd: "encode_cmd s = Inr cmd" "b = finish_section (section_body CmdSpliceInsert cmd)"
    "si_DurationTicks s < 2 ^ 33" "\<forall>p. si_PTS s = Some p \<longrightarrow> p < 2 ^ 33"
    using assms by (rule Encode_InrD)
  have len: "length cmd < 4000" using length_encode_cmd [OF cmd(1)] by simp
  show ?thesis unfolding cmd(2) Decode_section [OF len refl] decodeInsert_encode_cmd [OF cmd(1,3,4)] by simp
qed

text \<open>\<^verbatim>\<open>Encode\<close> fails exactly when a value does not fit into 33 bits or a splice that is neither cancelled nor
  immediate has no time.\<close>

theorem Encode_error_iff:
  "(\<exists>e. Encode s = Inl e) \<longleftrightarrow>
     si_DurationTicks s \<ge> 2 ^ 33 \<or> (\<exists>p. si_PTS s = Some p \<and> p \<ge> 2 ^ 33) \<or>
     (\<not> si_Cancel s \<and> \<not> si_Immediate s \<and> si_PTS s = None)"
  unfolding Encode_def encode_cmd_def Let_def by (auto split: option.splits sum.splits if_splits)

lemma Decode_InrD:
  assumes "Decode b = Inr s"
  shows "18 \<le> length b"
    and "crc32mpeg (take (length b - 4) b) =
      dec32 (b ! (length b - 4)) (b ! (length b - 3)) (b ! (length b - 2)) (b ! (length b - 1))"
  using assms unfolding Decode_def Let_def by (auto split: if_splits)

text \<open>C31. The CRC protects every byte: a section that \<^verbatim>\<open>Decode\<close> accepts is refused as soon as any one of its bytes
  is replaced by another value, whatever the position and the value.\<close>

theorem Decode_detects_corruption:
  assumes "Decode b = Inr s" and "i < length b" and "x \<noteq> b ! i"
  shows "\<exists>e. Decode (b[i := x]) = Inl e"
proof (rule ccontr)
  assume "\<nexists>e. Decode (b[i := x]) = Inl e"
  then obtain s' where s': "Decode (b[i := x]) = Inr s'" by (metis sum.exhaust)
  let ?n = "length b"
  let ?want = "\<lambda>c. dec32 (c ! (?n - 4)) (c ! (?n - 3)) (c ! (?n - 2)) (c ! (?n - 1))"
  have n: "18 \<le> ?n" and c: "crc32mpeg (take (?n - 4) b) = ?want b" by (rule Decode_InrD [OF assms(1)])+
  have c': "crc32mpeg (take (?n - 4) (b[i := x])) = ?want (b[i := x])" using Decode_InrD(2) [OF s'] by simp
  show False
  proof (cases "i < ?n - 4")
    case True
    then have "?want (b[i := x]) = ?want b" by simp
    moreover have "take (?n - 4) (b[i := x]) = (take (?n - 4) b)[i := x]" by (simp add: take_update_swap)
    moreover have "crc32mpeg ((take (?n - 4) b)[i := x]) \<noteq> crc32mpeg (take (?n - 4) b)"
      using True assms(3) by (intro crc_changes) auto
    ultimately show False using c c' by simp
  next
    case False
    then have "take (?n - 4) (b[i := x]) = take (?n - 4) b" by simp
    then have eq: "?want (b[i := x]) = ?want b" using c c' by simp
    have "i = ?n - 4 \<or> i = ?n - 3 \<or> i = ?n - 2 \<or> i = ?n - 1" using False assms(2) n by linarith
    then show False using dec32_inj [OF eq] assms(2,3) n by (auto simp: nth_list_update)
  qed
qed

definition w_out :: SpliceInsert where
  "w_out = zero_insert\<lparr>si_EventID := 7, si_Out := True, si_Immediate := True, si_DurationTicks := 2700000, si_AutoReturn := True\<rparr>"

lemma w_out_encodes: "\<exists>b. Encode w_out = Inr b"
proof -
  have "\<not> (\<exists>e. Encode w_out = Inl e)"
    by (simp add: Encode_def encode_cmd_def Let_def w_out_def zero_insert_def)
  then show ?thesis by (metis sum.exhaust)
qed

lemma w_out_decodes:
  "\<exists>b. Encode w_out = Inr b \<and> b ! 0 = 0xFC \<and> 0 < length b \<and>
     Decode b = Inr \<lparr>sec_PTSAdjustment = 0, sec_CommandType = CmdSpliceInsert, sec_Insert = Some w_out\<rparr>"
proof -
  obtain b where b: "Encode w_out = Inr b" using w_out_encodes by blast
  obtain cmd where cmd: "encode_cmd w_out = Inr cmd" "b = finish_section (section_body CmdSpliceInsert cmd)"
    "si_DurationTicks w_out < 2 ^ 33" "\<forall>p. si_PTS w_out = Some p \<longrightarrow> p < 2 ^ 33"
    using b by (rule Encode_InrD)
  have len: "length cmd < 4000" using length_encode_cmd [OF cmd(1)] by simp
  have "canonical w_out = w_out" by (simp add: canonical_def w_out_def zero_insert_def)
  then have "Decode b = Inr \<lparr>sec_PTSAdjustment = 0, sec_CommandType = CmdSpliceInsert, sec_Insert = Some w_out\<rparr>"
    unfolding cmd(2) Decode_section [OF len refl] decodeInsert_encode_cmd [OF cmd(1,3,4)] by simp
  moreover have "b ! 0 = 0xFC" "0 < length b" by (auto simp: cmd(2) finish_section_def Let_def)
  ultimately show ?thesis using b by blast
qed

theorem Decode_Encode_witness:
  "\<exists>b. Encode w_out = Inr b \<and>
     Decode b = Inr \<lparr>sec_PTSAdjustment = 0, sec_CommandType = CmdSpliceInsert, sec_Insert = Some w_out\<rparr>"
proof -
  obtain b where b: "Encode w_out = Inr b" using w_out_encodes by blast
  have "canonical w_out = w_out" by (simp add: canonical_def w_out_def zero_insert_def)
  then show ?thesis using b Decode_Encode [OF b] by auto
qed

theorem Decode_detects_corruption_witness:
  "\<exists>b s e. Decode b = Inr s \<and> 0 < length b \<and> b ! 0 = 0xFC \<and> Decode (b[0 := 0xFD]) = Inl e"
proof -
  obtain b s where b: "Decode b = Inr s" "b ! 0 = 0xFC" "0 < length b" using w_out_decodes by blast
  then show ?thesis using Decode_detects_corruption [OF b(1), of 0 "0xFD"] by auto
qed

subsection \<open>Reading what was written\<close>

lemma byte_cases16: "v < 16 \<Longrightarrow> v \<in> {0, 1, 2, 3, 4, 5, 6, 7, 8, 9, 10, 11, 12, 13, 14, 15 :: byte}"
proof -
  assume "v < 16"
  then have "unat v < 16" by (simp add: word_less_nat_alt)
  then have "unat v \<in> {0, 1, 2, 3, 4, 5, 6, 7, 8, 9, 10, 11, 12, 13, 14, 15}" by (simp, arith)
  then have "of_nat (unat v) \<in> (of_nat :: nat \<Rightarrow> byte) ` {0, 1, 2, 3, 4, 5, 6, 7, 8, 9, 10, 11, 12, 13, 14, 15}" by (rule imageI)
  then show ?thesis by simp
qed

lemma hex_digit_props:
  assumes "v < 16"
  shows "hex_val (hex_digit v) = Some v \<and> \<not> is_space (hex_digit v) \<and> hex_digit v \<noteq> CHR ''X''"
  using byte_cases16 [OF assms] by (auto simp: hex_digit_def hex_val_def is_space_def)

lemma nibbles:
  fixes x :: byte
  shows "drop_bit 4 x < 16" "x AND 0x0F < 16" "push_bit 4 (drop_bit 4 x) OR (x AND 0x0F) = x"
proof -
  have m: "(0x0F :: byte) = mask 4" by (simp add: mask_eq_exp_minus_1)
  have "unat x < 2 ^ LENGTH(8)" by (rule unsigned_less)
  then show "drop_bit 4 x < 16" by (simp only: word_less_nat_alt unat_drop_bit_eq) (simp add: drop_bit_eq_div)
  have "x AND 0x0F \<le> 0x0F" by (rule word_and_le1)
  then show "x AND 0x0F < 16" by (simp add: word_le_nat_alt word_less_nat_alt)
  show "push_bit 4 (drop_bit 4 x) OR (x AND 0x0F) = x"
    unfolding m by (rule bit_word_eqI) (auto simp: bit_simps)
qed

lemma hex_round:
  "hex_DecodeString (concat (map (\<lambda>x. [hex_digit (drop_bit 4 x), hex_digit (x AND 0x0F)]) b)) = Some b"
  by (induction b) (simp_all add: hex_digit_props nibbles)

lemma ParseSection_Hex: "b \<noteq> [] \<Longrightarrow> ParseSection (Hex b) = Inr b"
proof -
  assume "b \<noteq> []"
  then obtain x xs where b: "b = x # xs" by (cases b) auto
  define h where "h = concat (map (\<lambda>x. [hex_digit (drop_bit 4 x), hex_digit (x AND 0x0F)]) b)"
  have h1: "h = hex_digit (drop_bit 4 x) # hex_digit (x AND 0x0F) # drop 2 h" by (simp add: h_def b)
  have "\<not> is_space (last h)"
  proof -
    obtain y where "last h = hex_digit (y AND 0x0F)" unfolding h_def using \<open>b \<noteq> []\<close>
      by (cases b rule: rev_cases) auto
    then show ?thesis using hex_digit_props nibbles by simp
  qed
  then have t: "TrimSpace (''0x'' @ h) = ''0x'' @ h"
    by (intro TrimSpace_id) (subst h1, auto simp: is_space_def)
  have "\<not> HasPrefix h ''0X''"
    using hex_digit_props [OF nibbles(2) [of x]] by (subst h1) (auto simp: HasPrefix_def)
  then have "TrimPrefix (TrimPrefix (''0x'' @ h) ''0x'') ''0X'' = h"
    by (simp only: TrimPrefix_append) (simp add: TrimPrefix_def)
  moreover have "hex_DecodeString h = Some (x # xs)" using hex_round [of b] by (simp only: h_def b)
  ultimately show ?thesis unfolding ParseSection_def Hex_def h_def [symmetric] t Let_def by (simp add: b)
qed

lemma b64_char_props:
  "b64_val (b64_char v) = Some (v AND 0x3F)" "b64_char v \<noteq> CHR ''=''" "of_char (b64_char v) \<notin> {10, 13 :: nat}"
  "\<not> is_space (b64_char v)"
proof -
  define n where "n = unat (v AND 0x3F)"
  have "n \<le> unat (0x3F :: byte)" unfolding n_def by (rule word_and_le1 [THEN word_le_nat_alt [THEN iffD1]])
  then have n: "n < 64" by simp
  have v: "v AND 0x3F = of_nat n" by (simp add: n_def)
  have c: "of_char (b64_char v) = (if n < 26 then 65 + n else if n < 52 then 71 + n else if n < 62 then n - 4 else if n = 62 then 43 else 47)"
    unfolding b64_char_def n_def [symmetric] Let_def using n by simp
  show "b64_val (b64_char v) = Some (v AND 0x3F)"
    unfolding b64_val_def c v Let_def using n by (cases "n = 63"; cases "n = 62") auto
  show "of_char (b64_char v) \<notin> {10, 13 :: nat}" unfolding c by auto
  show "b64_char v \<noteq> CHR ''=''"
  proof
    assume "b64_char v = CHR ''=''"
    then have "of_char (b64_char v) = (61 :: nat)" by simp
    then show False unfolding c by (auto split: if_splits)
  qed
  show "\<not> is_space (b64_char v)" unfolding is_space_def c by auto
qed

lemma word8_eqI:
  fixes a b :: byte
  assumes "bit a 0 = bit b 0" "bit a 1 = bit b 1" "bit a 2 = bit b 2" "bit a 3 = bit b 3"
    "bit a 4 = bit b 4" "bit a 5 = bit b 5" "bit a 6 = bit b 6" "bit a 7 = bit b 7"
  shows "a = b"
proof (rule bit_word_eqI)
  fix n assume "n < LENGTH(8)"
  then have "n \<in> {0, 1, 2, 3, 4, 5, 6, 7}" by (simp, arith)
  then show "bit a n = bit b n" using assms by auto
qed

lemma b64_bits:
  fixes a b c :: byte
  shows "b64_1 (drop_bit 2 a AND 0x3F) ((push_bit 4 (a AND 3) OR drop_bit 4 b) AND 0x3F) = a"
    and "b64_1 (drop_bit 2 a AND 0x3F) (push_bit 4 (a AND 3) AND 0x3F) = a"
    and "b64_2 ((push_bit 4 (a AND 3) OR drop_bit 4 b) AND 0x3F) ((push_bit 2 (b AND 0x0F) OR drop_bit 6 c) AND 0x3F) = b"
    and "b64_2 ((push_bit 4 (a AND 3) OR drop_bit 4 b) AND 0x3F) (push_bit 2 (b AND 0x0F) AND 0x3F) = b"
    and "b64_3 ((push_bit 2 (b AND 0x0F) OR drop_bit 6 c) AND 0x3F) (c AND 0x3F) = c"
  unfolding b64_1_def b64_2_def b64_3_def by (rule word8_eqI; simp add: bit_simps)+

lemma b64_round: "b64_groups True (Base64 b) = Some b"
proof (induction b rule: Base64.induct)
  case (2 a)
  show ?case by (simp only: Base64.simps b64_groups.simps b64_char_props b64_bits prod.case option.case simp_thms if_True)
next
  case (3 a b)
  show ?case by (simp only: Base64.simps b64_groups.simps b64_char_props b64_bits prod.case option.case simp_thms if_True if_False)
next
  case (4 a b c r)
  then show ?case
    by (simp only: Base64.simps b64_groups.simps b64_char_props b64_bits prod.case option.case simp_thms if_False option.map)
qed simp

lemma Base64_clean: "c \<in> set (Base64 b) \<Longrightarrow> of_char c \<notin> {10, 13 :: nat} \<and> \<not> is_space c"
  using b64_char_props by (induction b rule: Base64.induct) (auto simp: is_space_def)

text \<open>A section that starts with the table id is read back from both ways it is exchanged: the hex of
  \<^verbatim>\<open>EXT-X-DATERANGE\<close> and base64, although \<^verbatim>\<open>Parse\<close> tries hex first.\<close>

theorem ParseSection_round_trip:
  assumes "b \<noteq> []" and "hd b = 0xFC"
  shows "ParseSection (Hex b) = Inr b \<and> ParseSection (Base64 b) = Inr b"
proof -
  obtain xs where b: "b = 0xFC # xs" using assms by (cases b) auto
  have hd: "\<exists>r y. Base64 b = CHR ''/'' # y # r" unfolding b
    by (cases "0xFC # xs" rule: Base64.cases) (auto simp: b64_char_def)
  then obtain y r where y: "Base64 b = CHR ''/'' # y # r" by blast
  have t: "TrimSpace (Base64 b) = Base64 b"
  proof (rule TrimSpace_id)
    show "Base64 b \<noteq> []" "\<not> is_space (hd (Base64 b))" using y Base64_clean [of "CHR ''/''" b] by auto
    then show "\<not> is_space (last (Base64 b))" using Base64_clean [of _ b] last_in_set by blast
  qed
  have p: "TrimPrefix (TrimPrefix (Base64 b) ''0x'') ''0X'' = Base64 b" by (simp add: y TrimPrefix_def HasPrefix_def)
  have h: "hex_DecodeString (Base64 b) = None" by (simp add: y hex_val_def)
  have "filter (\<lambda>c. of_char c \<notin> {10, 13 :: nat}) (Base64 b) = Base64 b"
    using Base64_clean by (intro filter_True) blast
  then have d: "b64_DecodeString True (Base64 b) = Some b" by (simp only: b64_DecodeString_def b64_round)
  have "ParseSection (Base64 b) = Inr b" unfolding ParseSection_def t p Let_def h d by (simp add: b)
  then show ?thesis using ParseSection_Hex assms by simp
qed

theorem ParseSection_round_trip_witness:
  "ParseSection (Hex Null) = Inr Null \<and> ParseSection (Base64 Null) = Inr Null"
proof -
  have "Null \<noteq> []" "hd Null = 0xFC" by (simp_all add: Null_def finish_section_def Let_def)
  then show ?thesis by (rule ParseSection_round_trip)
qed

end
