(* ===== verification/Filler.thy ===== *)
theory Filler
  imports Models "HOL-Library.Sublist" "HOL-Library.List_Lexorder" "HOL-Library.Char_ord" "HOL-Library.Product_Lexorder"
begin

text \<open>
  \<^verbatim>\<open>services/engine/filler.go\<close>: how a break is filled from the registry of creatives. The tables of
  \<^verbatim>\<open>bestSubset\<close> are the arrays of the source (\<open>reach\<close> and one row of \<open>from\<close> per creative), updated in
  place in the order of its loops; the theorems compare the result with all sub-lists of the pool.
\<close>

record creative =
  cr_ID :: string
  cr_Type :: string
  cr_Category :: "string list"
  cr_Duration :: int
  cr_URI :: string
  cr_Active :: bool

subsection \<open>bestSubset\<close>

abbreviation none :: int where "none \<equiv> -1"

text \<open>The inner loop of one creative: \<open>s\<close> runs from \<open>limit\<close> down to its duration \<open>d\<close>.\<close>

fun pass_loop :: "nat \<Rightarrow> nat \<Rightarrow> int list \<times> int list \<Rightarrow> int list \<times> int list" where
  "pass_loop d s (reach, frm) =
     (if s < d then (reach, frm)
      else
        let st = (if reach ! (s - d) \<noteq> none \<and> (reach ! s = none \<or> reach ! (s - d) + 1 < reach ! s)
                  then (reach[s := reach ! (s - d) + 1], frm[s := 1]) else (reach, frm))
        in if s = 0 then st else pass_loop d (s - 1) st)"

declare pass_loop.simps [simp del]

fun run_passes :: "nat \<Rightarrow> creative list \<Rightarrow> int list \<Rightarrow> int list \<times> int list list" where
  "run_passes limit [] reach = (reach, [])"
| "run_passes limit (c # cs) reach =
     (case pass_loop (nat (cr_Duration c)) limit (reach, replicate (limit + 1) 0) of
        (reach', row) \<Rightarrow> (case run_passes limit cs reach' of (reach'', rows) \<Rightarrow> (reach'', row # rows)))"

fun best_reachable :: "int list \<Rightarrow> nat \<Rightarrow> nat" where
  "best_reachable reach 0 = 0"
| "best_reachable reach (Suc s) = (if reach ! Suc s \<noteq> none then Suc s else best_reachable reach s)"

fun walk_back :: "(creative \<times> int list) list \<Rightarrow> nat \<Rightarrow> creative list" where
  "walk_back [] s = []"
| "walk_back ((c, row) # r) s =
     (if s > 0 then (if row ! s = 1 then c # walk_back r (s - nat (cr_Duration c)) else walk_back r s) else [])"

definition bestSubset :: "creative list \<Rightarrow> int \<Rightarrow> creative list" where
  "bestSubset pool0 limit0 =
     (if pool0 = [] \<or> limit0 \<le> 0 then []
      else
        let pool = take 60 pool0; limit = nat limit0 in
        case run_passes limit pool ((replicate (limit + 1) none)[0 := 0]) of
          (reach, rows) \<Rightarrow>
            sort_key (\<lambda>c. - cr_Duration c) (walk_back (rev (zip pool rows)) (best_reachable reach limit)))"

subsection \<open>fillBreak\<close>

definition hasCategory :: "string list \<Rightarrow> string \<Rightarrow> bool" where
  "hasCategory cats want \<longleftrightarrow> list_ex (\<lambda>c. c = want \<or> c = ''any'') cats"

definition eligible :: "string \<Rightarrow> string \<Rightarrow> int \<Rightarrow> creative \<Rightarrow> bool" where
  "eligible category lst seg c \<longleftrightarrow>
     \<not> (\<not> cr_Active c \<or> cr_Duration c \<le> 0 \<or> go_mod (cr_Duration c) seg \<noteq> 0 \<or> cr_ID c = lst) \<and>
     \<not> (category \<noteq> '''' \<and> category \<noteq> ''any'' \<and> \<not> hasCategory (cr_Category c) category)"

definition byDuration :: "creative list \<Rightarrow> creative list" where
  "byDuration l = sort_key (\<lambda>c. (- cr_Duration c, cr_ID c)) l"

text \<open>The house creatives that still fit, each once.\<close>

fun house_loop :: "creative list \<Rightarrow> int \<Rightarrow> int \<Rightarrow> creative list" where
  "house_loop [] filled dur = []"
| "house_loop (c # cs) filled dur =
     (if filled + cr_Duration c \<le> dur then c # house_loop cs (filled + cr_Duration c) dur
      else house_loop cs filled dur)"

text \<open>The padding loop. The eligible creatives have a positive duration, so the inner guard always holds.\<close>

function pad_loop :: "creative \<Rightarrow> int \<Rightarrow> int \<Rightarrow> creative list" where
  "pad_loop c filled dur =
     (if filled < dur then (if cr_Duration c > 0 then c # pad_loop c (filled + cr_Duration c) dur else []) else [])"
  by pat_completeness auto
termination
  by (relation "measure (\<lambda>(c, filled, dur). nat (dur - filled))") auto

declare pad_loop.simps [simp del]

abbreviation total :: "creative list \<Rightarrow> int" where
  "total cs \<equiv> sum_list (map cr_Duration cs)"

definition chosen :: "creative list \<Rightarrow> int \<Rightarrow> string \<Rightarrow> string \<Rightarrow> int \<Rightarrow> creative list" where
  "chosen reg dur category lst seg =
     (if dur \<le> 0 \<or> seg \<le> 0 then []
      else
        let ok = filter (eligible category lst seg) reg;
            house = byDuration (filter (\<lambda>c. cr_Type c = ''house'') ok);
            partner = byDuration (filter (\<lambda>c. cr_Type c \<noteq> ''house'') ok);
            a = bestSubset partner dur;
            b = house_loop house (total a) dur;
            filled = total a + total b
        in a @ b @ (if filled < dur \<and> house \<noteq> [] then pad_loop (last house) filled dur else []))"

definition item_of :: "creative \<Rightarrow> AdItem" where
  "item_of c = \<lparr>ad_URI = cr_URI c, ad_DurationS = cr_Duration c, ad_CreativeID = cr_ID c, ad_Type = cr_Type c\<rparr>"

definition fillBreakExcluding :: "creative list \<Rightarrow> int \<Rightarrow> string \<Rightarrow> string \<Rightarrow> int \<Rightarrow> AdItem list" where
  "fillBreakExcluding reg dur category lst seg = map item_of (chosen reg dur category lst seg)"

definition fillBreak :: "creative list \<Rightarrow> int \<Rightarrow> string \<Rightarrow> string \<Rightarrow> int \<Rightarrow> AdItem list" where
  "fillBreak reg dur category lst seg =
     (let items = fillBreakExcluding reg dur category lst seg in
      if length items = 0 \<and> lst \<noteq> '''' then fillBreakExcluding reg dur category '''' seg else items)"

subsection \<open>One pass is one row of the dynamic programme\<close>

definition improves :: "nat \<Rightarrow> int list \<Rightarrow> nat \<Rightarrow> bool" where
  "improves d R s \<longleftrightarrow> d \<le> s \<and> R ! (s - d) \<noteq> none \<and> (R ! s = none \<or> R ! (s - d) + 1 < R ! s)"

definition dp_step :: "nat \<Rightarrow> int list \<Rightarrow> nat \<Rightarrow> int" where
  "dp_step d R s = (if improves d R s then R ! (s - d) + 1 else R ! s)"

lemma pass_loop_correct:
  assumes "0 < d" "s < length R" "length F = length R"
  shows "length (fst (pass_loop d s (R, F))) = length R \<and> length (snd (pass_loop d s (R, F))) = length R \<and>
    (\<forall>k < length R. fst (pass_loop d s (R, F)) ! k = (if k \<le> s then dp_step d R k else R ! k) \<and>
       snd (pass_loop d s (R, F)) ! k = (if k \<le> s \<and> improves d R k then 1 else F ! k))"
  using assms
proof (induction s arbitrary: R F rule: less_induct)
  case (less s)
  show ?case
  proof (cases "s < d")
    case True
    then have "\<forall>k \<le> s. \<not> improves d R k" by (simp add: improves_def)
    then show ?thesis using True less.prems by (simp add: pass_loop.simps [of d s] dp_step_def)
  next
    case False
    define R1 F1 where "R1 = (if improves d R s then R[s := R ! (s - d) + 1] else R)"
      and "F1 = (if improves d R s then F[s := 1] else F)"
    have eq: "pass_loop d s (R, F) = pass_loop d (s - 1) (R1, F1)"
      using False less.prems by (simp add: pass_loop.simps [of d s] R1_def F1_def improves_def Let_def)
    have len: "length R1 = length R" "length F1 = length R" using less.prems by (simp_all add: R1_def F1_def)
    have s: "s - 1 < s" using False less.prems by simp
    have IH: "length (fst (pass_loop d (s - 1) (R1, F1))) = length R1 \<and> length (snd (pass_loop d (s - 1) (R1, F1))) = length R1 \<and>
      (\<forall>k < length R1. fst (pass_loop d (s - 1) (R1, F1)) ! k = (if k \<le> s - 1 then dp_step d R1 k else R1 ! k) \<and>
         snd (pass_loop d (s - 1) (R1, F1)) ! k = (if k \<le> s - 1 \<and> improves d R1 k then 1 else F1 ! k))"
      using less.IH [OF s, of R1 F1] less.prems len by simp
    have old: "R1 ! k = R ! k" if "k \<noteq> s" for k using that by (simp add: R1_def)
    have imp: "improves d R1 k = improves d R k" "dp_step d R1 k = dp_step d R k" if "k < s" for k
      using that old by (auto simp: improves_def dp_step_def)
    have now: "R1 ! s = dp_step d R s" "F1 ! s = (if improves d R s then 1 else F ! s)"
      using less.prems by (simp_all add: R1_def F1_def dp_step_def)
    have F1: "F1 ! k = F ! k" if "k \<noteq> s" for k using that by (simp add: F1_def)
    show ?thesis unfolding eq using IH len s imp old now F1 False
      by (auto simp: le_less not_less Suc_le_eq)
  qed
qed

subsection \<open>The tables describe all sub-lists of the pool\<close>

text \<open>\<open>reaches pref R\<close>: \<open>R ! s\<close> is the least number of creatives of \<open>pref\<close>, in their order and each at most
  once, whose durations add up to \<open>s\<close>, or \<open>none\<close>.\<close>

definition reaches :: "nat \<Rightarrow> creative list \<Rightarrow> int list \<Rightarrow> bool" where
  "reaches limit pref R \<longleftrightarrow> length R = limit + 1 \<and>
     (\<forall>s \<le> limit.
        (\<forall>ys. subseq ys pref \<and> total ys = int s \<longrightarrow> R ! s \<noteq> none \<and> R ! s \<le> int (length ys)) \<and>
        (R ! s \<noteq> none \<longrightarrow> (\<exists>ys. subseq ys pref \<and> total ys = int s \<and> R ! s = int (length ys))))"

lemma subseq_snoc_iff: "subseq ys (xs @ [c]) \<longleftrightarrow> subseq ys xs \<or> (\<exists>zs. ys = zs @ [c] \<and> subseq zs xs)"
proof
  assume "subseq ys (xs @ [c])"
  then obtain a b where ab: "ys = a @ b" "subseq a xs" "subseq b [c]" by (rule subseq_appendE) blast
  have "b = [] \<or> b = [c]" using ab(3) by (cases b) (auto split: if_splits)
  then show "subseq ys xs \<or> (\<exists>zs. ys = zs @ [c] \<and> subseq zs xs)" using ab by auto
next
  assume "subseq ys xs \<or> (\<exists>zs. ys = zs @ [c] \<and> subseq zs xs)"
  then show "subseq ys (xs @ [c])" by (auto intro: list_emb_append_mono list_emb_append2)
qed

lemma reaches_init: "reaches limit [] ((replicate (limit + 1) none)[0 := 0])"
  unfolding reaches_def by (auto simp: nth_Cons' split: if_splits dest: list_emb_Nil2)

lemma reaches_zero:
  assumes "reaches limit pref R"
  shows "R ! 0 = 0"
proof -
  have R: "\<And>ys. subseq ys pref \<Longrightarrow> total ys = 0 \<Longrightarrow> R ! 0 \<noteq> none \<and> R ! 0 \<le> int (length ys)"
      "R ! 0 \<noteq> none \<Longrightarrow> \<exists>ys. R ! 0 = int (length ys)"
    using assms unfolding reaches_def by (auto dest!: spec [of _ "0 :: nat"])
  have z: "R ! 0 \<noteq> none" "R ! 0 \<le> 0" using R(1) [of "[]"] by simp_all
  show ?thesis using R(2) [OF z(1)] z(2) by auto
qed

lemma total_nonneg: "\<forall>c \<in> set cs. 0 < cr_Duration c \<Longrightarrow> 0 \<le> total cs"
  by (induction cs) auto

lemma subseq_set: "subseq ys xs \<Longrightarrow> set ys \<subseteq> set xs"
  by (induction rule: list_emb.induct) auto

lemma reaches_step:
  assumes R: "reaches limit pref R" and c: "0 < cr_Duration c" and pos: "\<forall>x \<in> set pref. 0 < cr_Duration x"
    and R': "length R' = limit + 1" "\<forall>k < length R'. R' ! k = dp_step (nat (cr_Duration c)) R k"
  shows "reaches limit (pref @ [c]) R'"
  unfolding reaches_def
proof (intro conjI allI impI)
  let ?d = "nat (cr_Duration c)"
  have len: "length R = limit + 1" using R by (simp add: reaches_def)
  have RD: "\<And>s ys. s \<le> limit \<Longrightarrow> subseq ys pref \<Longrightarrow> total ys = int s \<Longrightarrow> R ! s \<noteq> none \<and> R ! s \<le> int (length ys)"
    and RE: "\<And>s. s \<le> limit \<Longrightarrow> R ! s \<noteq> none \<Longrightarrow> \<exists>ys. subseq ys pref \<and> total ys = int s \<and> R ! s = int (length ys)"
    using R by (auto simp: reaches_def)
  show "length R' = limit + 1" by (rule R'(1))
  fix s assume s: "s \<le> limit"
  have r: "R' ! s = dp_step ?d R s" using R' s by simp
  have sd: "s - ?d \<le> limit" using s by simp
  have ge: "R ! k \<noteq> none \<Longrightarrow> k \<le> limit \<Longrightarrow> 0 \<le> R ! k" for k using RE by fastforce
  {
    fix ys assume ys: "subseq ys (pref @ [c]) \<and> total ys = int s"
    have "R' ! s \<noteq> none \<and> R' ! s \<le> int (length ys)"
    proof (cases "subseq ys pref")
      case True
      then show ?thesis using RD [OF s True] ys r ge [OF _ sd] by (auto simp: dp_step_def improves_def)
    next
      case False
      then obtain zs where zs: "ys = zs @ [c]" "subseq zs pref" using ys by (auto simp: subseq_snoc_iff)
      have "0 \<le> total zs" using pos subseq_set [OF zs(2)] by (intro total_nonneg) auto
      then have t: "?d \<le> s" "total zs = int (s - ?d)" using ys zs c by auto
      have "R ! (s - ?d) \<noteq> none" "R ! (s - ?d) \<le> int (length zs)" using RD [OF _ zs(2) t(2)] s by auto
      then show ?thesis using r t zs ge [OF _ sd] by (auto simp: dp_step_def improves_def)
    qed
  }
  then show "\<And>ys. subseq ys (pref @ [c]) \<and> total ys = int s \<Longrightarrow> R' ! s \<noteq> none"
    and "\<And>ys. subseq ys (pref @ [c]) \<and> total ys = int s \<Longrightarrow> R' ! s \<le> int (length ys)" by blast+
  assume n: "R' ! s \<noteq> none"
  show "\<exists>ys. subseq ys (pref @ [c]) \<and> total ys = int s \<and> R' ! s = int (length ys)"
  proof (cases "improves ?d R s")
    case True
    then have "R ! (s - ?d) \<noteq> none" by (simp add: improves_def)
    then obtain zs where zs: "subseq zs pref" "total zs = int (s - ?d)" "R ! (s - ?d) = int (length zs)"
      using RE [OF sd] by blast
    have "?d \<le> s" using True by (simp add: improves_def)
    then show ?thesis using zs c True r
      by (intro exI [of _ "zs @ [c]"]) (auto simp: subseq_snoc_iff dp_step_def)
  next
    case False
    then show ?thesis using RE [OF s] n r by (auto simp: dp_step_def subseq_snoc_iff)
  qed
qed

lemma run_passes_append:
  "run_passes limit (xs @ [c]) R =
     (case run_passes limit xs R of (R1, rows) \<Rightarrow>
        (case pass_loop (nat (cr_Duration c)) limit (R1, replicate (limit + 1) 0) of (R2, row) \<Rightarrow> (R2, rows @ [row])))"
  by (induction xs arbitrary: R) (auto split: prod.splits)

lemma length_rows: "length (snd (run_passes limit pool R)) = length pool"
proof (induction pool arbitrary: R)
  case (Cons c pool)
  obtain R1 row where 1: "pass_loop (nat (cr_Duration c)) limit (R, replicate (limit + 1) 0) = (R1, row)" by fastforce
  show ?case using Cons.IH [of R1] 1 by (cases "run_passes limit pool R1") simp
qed simp

text \<open>The passes compute the table, and walking back from a reachable sum gives a sub-list of that sum
  with the number of creatives that the table says.\<close>

lemma passes_correct:
  assumes "\<forall>c \<in> set pool. 0 < cr_Duration c"
    and "run_passes limit pool ((replicate (limit + 1) none)[0 := 0]) = (R, rows)"
  shows "reaches limit pool R \<and>
    (\<forall>s \<le> limit. R ! s \<noteq> none \<longrightarrow>
       (let w = walk_back (rev (zip pool rows)) s in
        subseq (rev w) pool \<and> total w = int s \<and> int (length w) = R ! s))"
  using assms
proof (induction pool arbitrary: R rows rule: rev_induct)
  case Nil
  then show ?case using reaches_init [of limit] by (auto simp: nth_Cons' split: if_splits)
next
  case (snoc c pool)
  let ?d = "nat (cr_Duration c)"
  obtain R1 rows1 where 1: "run_passes limit pool ((replicate (limit + 1) none)[0 := 0]) = (R1, rows1)" by fastforce
  obtain R2 row where 2: "pass_loop ?d limit (R1, replicate (limit + 1) 0) = (R2, row)" by fastforce
  have eq: "R = R2" "rows = rows1 @ [row]" using snoc.prems(2) unfolding run_passes_append 1 prod.case 2 by simp_all
  have IH: "reaches limit pool R1" "\<And>s. s \<le> limit \<Longrightarrow> R1 ! s \<noteq> none \<Longrightarrow>
      (let w = walk_back (rev (zip pool rows1)) s in subseq (rev w) pool \<and> total w = int s \<and> int (length w) = R1 ! s)"
    using snoc.IH [OF _ 1] snoc.prems(1) by auto
  have len: "length R1 = limit + 1" using IH(1) by (simp add: reaches_def)
  have c: "0 < cr_Duration c" using snoc.prems(1) by simp
  have P: "length R2 = limit + 1" "\<forall>k < limit + 1. R2 ! k = dp_step ?d R1 k \<and> row ! k = (if improves ?d R1 k then 1 else 0)"
    using pass_loop_correct [of ?d limit R1 "replicate (limit + 1) 0"] len c 2 by (auto simp: nth_Cons')
  have reach: "reaches limit (pool @ [c]) R2"
    using reaches_step [OF IH(1) c] snoc.prems(1) P by simp
  have zip: "rev (zip (pool @ [c]) rows) = (c, row) # rev (zip pool rows1)"
  proof -
    have "length rows1 = length pool"
      using length_rows [of limit pool "(replicate (limit + 1) none)[0 := 0]"] unfolding 1 by simp
    then show ?thesis by (simp add: eq)
  qed
  have "let w = walk_back (rev (zip (pool @ [c]) rows)) s in
      subseq (rev w) (pool @ [c]) \<and> total w = int s \<and> int (length w) = R2 ! s" if s: "s \<le> limit" "R2 ! s \<noteq> none" for s
  proof (cases "improves ?d R1 s")
    case True
    then have t: "?d \<le> s" "R1 ! (s - ?d) \<noteq> none" "s - ?d \<le> limit" "0 < s" "row ! s = 1" "R2 ! s = R1 ! (s - ?d) + 1"
      using P s c by (auto simp: improves_def dp_step_def)
    show ?thesis using IH(2) [OF t(3,2)] t c unfolding zip by (auto simp: Let_def subseq_snoc_iff)
  next
    case False
    then have r: "R1 ! s = R2 ! s" "row ! s \<noteq> 1" using P s by (auto simp: dp_step_def)
    have z': "R1 ! 0 = 0" by (rule reaches_zero [OF IH(1)])
    show ?thesis using IH(2) [OF s(1)] r s z' unfolding zip
      by (cases "s = 0") (auto simp: Let_def subseq_snoc_iff)
  qed
  then show ?case using reach eq by simp
qed

subsection \<open>bestSubset is optimal\<close>

lemma best_reachable_props:
  "best_reachable R n \<le> n \<and> (best_reachable R n = 0 \<or> R ! best_reachable R n \<noteq> none) \<and>
     (\<forall>s. best_reachable R n < s \<and> s \<le> n \<longrightarrow> R ! s = none)"
  by (induction n) (auto simp: le_Suc_eq)

lemma subseq_mset: "subseq ys xs \<Longrightarrow> mset ys \<subseteq># mset xs"
  by (induction rule: list_emb.induct) (auto simp: subseteq_mset_def le_SucI)

lemma bestSubset_walk:
  assumes "pool \<noteq> []" "0 < limit" "\<forall>c \<in> set pool. 0 < cr_Duration c"
  obtains w where "bestSubset pool limit = sort_key (\<lambda>c. - cr_Duration c) w"
    and "subseq (rev w) (take 60 pool)" and "total w \<le> limit"
    and "\<And>ys. subseq ys (take 60 pool) \<Longrightarrow> total ys \<le> limit \<Longrightarrow>
      total ys \<le> total w \<and> (total ys = total w \<longrightarrow> length w \<le> length ys)"
proof -
  let ?pool = "take 60 pool" and ?n = "nat limit"
  obtain R rows where run: "run_passes ?n ?pool ((replicate (?n + 1) none)[0 := 0]) = (R, rows)" by fastforce
  have pos: "\<forall>c \<in> set ?pool. 0 < cr_Duration c" using assms(3) by (auto dest: in_set_takeD)
  define best where "best = best_reachable R ?n"
  define w where "w = walk_back (rev (zip ?pool rows)) best"
  have R: "reaches ?n ?pool R" using passes_correct [OF pos run] by blast
  have R0: "R ! 0 \<noteq> none" using reaches_zero [OF R] by simp
  have b: "best \<le> ?n" "R ! best \<noteq> none" "\<And>s. best < s \<Longrightarrow> s \<le> ?n \<Longrightarrow> R ! s = none"
    using best_reachable_props [of R ?n] R0 unfolding best_def by (blast, metis, blast)
  have W: "subseq (rev w) ?pool" "total w = int best" "int (length w) = R ! best"
    using passes_correct [OF pos run] b(1,2) by (auto simp: w_def Let_def)
  show thesis
  proof (rule that [of w])
    show "bestSubset pool limit = sort_key (\<lambda>c. - cr_Duration c) w"
      using assms(1,2) run by (simp add: bestSubset_def Let_def w_def best_def)
    show "subseq (rev w) ?pool" by (rule W(1))
    show "total w \<le> limit" using W(2) b(1) assms(2) by linarith
    fix ys assume ys: "subseq ys ?pool" "total ys \<le> limit"
    have "0 \<le> total ys" using pos subseq_set [OF ys(1)] by (intro total_nonneg) auto
    then have s: "total ys = int (nat (total ys))" "nat (total ys) \<le> ?n" using ys(2) by simp_all
    define s where "s = nat (total ys)"
    note s = s [folded s_def]
    have "R ! s \<noteq> none" "R ! s \<le> int (length ys)" using R ys(1) s unfolding reaches_def by auto
    then show "total ys \<le> total w \<and> (total ys = total w \<longrightarrow> length w \<le> length ys)"
      using b(3) [of s] s W(2,3) by (cases "best < s") auto
  qed
qed

text \<open>C32. \<^verbatim>\<open>bestSubset\<close> solves its knapsack exactly: it uses creatives of the pool, each at most as often as it is
  there, within the limit; no other choice in the limit lasts longer, and none that lasts as long uses fewer.\<close>

theorem bestSubset_optimal:
  assumes "\<forall>c \<in> set pool. 0 < cr_Duration c" and "length pool \<le> 60" and "0 \<le> limit"
  shows "mset (bestSubset pool limit) \<subseteq># mset pool \<and> total (bestSubset pool limit) \<le> limit \<and>
    (\<forall>ys. subseq ys pool \<and> total ys \<le> limit \<longrightarrow>
      total ys < total (bestSubset pool limit) \<or>
      (total ys = total (bestSubset pool limit) \<and> length (bestSubset pool limit) \<le> length ys))"
proof (cases "pool = [] \<or> limit = 0")
  case True
  have "ys = []" if "subseq ys pool" "total ys \<le> limit" for ys
  proof -
    have "\<forall>c \<in> set ys. 0 < cr_Duration c" using assms(1) subseq_set [OF that(1)] by auto
    then have "0 < total ys" if "ys \<noteq> []" using that total_nonneg [of "tl ys"] by (cases ys) auto
    then show ?thesis using True that by (cases "ys = []") (auto dest: list_emb_Nil2)
  qed
  then show ?thesis using True assms(3) by (fastforce simp: bestSubset_def)
next
  case False
  then obtain w where w: "bestSubset pool limit = sort_key (\<lambda>c. - cr_Duration c) w"
    and sub: "subseq (rev w) (take 60 pool)" and tot: "total w \<le> limit"
    and opt: "\<And>ys. subseq ys (take 60 pool) \<Longrightarrow> total ys \<le> limit \<Longrightarrow>
      total ys \<le> total w \<and> (total ys = total w \<longrightarrow> length w \<le> length ys)"
    using bestSubset_walk [of pool limit] assms by (metis order_le_less)
  have t: "total (sort_key (\<lambda>c. - cr_Duration c) w) = total w"
    by (simp only: sum_mset_sum_list [symmetric] mset_map mset_sort)
  have "mset w \<subseteq># mset pool" using subseq_mset [OF sub] assms(2) by simp
  then show ?thesis using tot opt assms(2) by (fastforce simp: w t)
qed

subsection \<open>fillBreak\<close>

lemma house_loop_total: "filled \<le> dur \<Longrightarrow> filled + total (house_loop cs filled dur) \<le> dur"
proof (induction cs filled dur rule: house_loop.induct)
  case (2 c cs filled dur)
  then show ?case by (cases "filled + cr_Duration c \<le> dur") (auto simp: add.assoc [symmetric])
qed simp

lemma set_house_loop: "set (house_loop cs filled dur) \<subseteq> set cs"
  by (induction cs filled dur rule: house_loop.induct) auto

lemma set_pad_loop: "set (pad_loop c filled dur) \<subseteq> {c}"
  by (induction c filled dur rule: pad_loop.induct) (subst pad_loop.simps, auto)

lemma pad_loop_fills:
  "filled < dur \<Longrightarrow> 0 < cr_Duration c \<Longrightarrow>
     pad_loop c filled dur \<noteq> [] \<and> dur \<le> filled + total (pad_loop c filled dur) \<and>
     filled + total (butlast (pad_loop c filled dur)) < dur"
proof (induction c filled dur rule: pad_loop.induct)
  case (1 c filled dur)
  have eq: "pad_loop c filled dur = c # pad_loop c (filled + cr_Duration c) dur"
    using "1.prems" by (subst pad_loop.simps) simp
  show ?case
  proof (cases "filled + cr_Duration c < dur")
    case True
    then show ?thesis using "1.IH" [OF "1.prems" True "1.prems"(2)] unfolding eq by auto
  next
    case False
    then have "pad_loop c (filled + cr_Duration c) dur = []" by (subst pad_loop.simps) simp
    then show ?thesis using False "1.prems" unfolding eq by simp
  qed
qed

lemma eligible_pos: "eligible category lst seg c \<Longrightarrow> 0 < cr_Duration c"
  by (simp add: eligible_def)

lemma set_byDuration [simp]: "set (byDuration l) = set l"
  by (simp add: byDuration_def)

lemma set_bestSubset: "\<forall>c \<in> set pool. 0 < cr_Duration c \<Longrightarrow> set (bestSubset pool limit) \<subseteq> set pool"
proof (cases "pool \<noteq> [] \<and> 0 < limit")
  case True
  moreover assume "\<forall>c \<in> set pool. 0 < cr_Duration c"
  ultimately obtain w where "bestSubset pool limit = sort_key (\<lambda>c. - cr_Duration c) w" "subseq (rev w) (take 60 pool)"
    using bestSubset_walk [of pool limit] by metis
  then show ?thesis using subseq_set [of "rev w"] by (auto dest: in_set_takeD)
qed (auto simp: bestSubset_def)

lemma bestSubset_total: "\<forall>c \<in> set pool. 0 < cr_Duration c \<Longrightarrow> 0 < limit \<Longrightarrow> total (bestSubset pool limit) \<le> limit"
proof (cases "pool = []")
  case False
  assume "\<forall>c \<in> set pool. 0 < cr_Duration c" "0 < limit"
  then obtain w where w: "bestSubset pool limit = sort_key (\<lambda>c. - cr_Duration c) w" "total w \<le> limit"
    using bestSubset_walk [of pool limit] False by metis
  have "total (sort_key (\<lambda>c. - cr_Duration c) w) = total w"
    by (simp only: sum_mset_sum_list [symmetric] mset_map mset_sort)
  then show ?thesis using w by simp
qed (simp add: bestSubset_def)

lemma set_chosen: "set (chosen reg dur category lst seg) \<subseteq> {c \<in> set reg. eligible category lst seg c}"
proof -
  let ?ok = "filter (eligible category lst seg) reg"
  let ?house = "byDuration (filter (\<lambda>c. cr_Type c = ''house'') ?ok)"
    and ?partner = "byDuration (filter (\<lambda>c. cr_Type c \<noteq> ''house'') ?ok)"
  have b: "set (bestSubset ?partner dur) \<subseteq> set ?partner" by (rule set_bestSubset) (auto intro: eligible_pos)
  have l: "?house \<noteq> [] \<Longrightarrow> last ?house \<in> set ?house" by (rule last_in_set)
  have "set (chosen reg dur category lst seg) \<subseteq> set ?partner \<union> set ?house"
    using b l set_house_loop [of ?house "total (bestSubset ?partner dur)" dur] set_pad_loop [of "last ?house" _ dur]
    unfolding chosen_def Let_def by (auto split: if_splits)
  then show ?thesis by auto
qed

lemma chosen_fills:
  assumes "0 < dur" "0 < seg"
  shows "chosen reg dur category lst seg = [] \<or> total (butlast (chosen reg dur category lst seg)) < dur"
    and "\<exists>c \<in> set reg. eligible category lst seg c \<and> cr_Type c = ''house'' \<Longrightarrow>
      dur \<le> total (chosen reg dur category lst seg)"
proof -
  define ok where "ok = filter (eligible category lst seg) reg"
  define house partner where "house = byDuration (filter (\<lambda>c. cr_Type c = ''house'') ok)"
    and "partner = byDuration (filter (\<lambda>c. cr_Type c \<noteq> ''house'') ok)"
  define a where "a = bestSubset partner dur"
  define b where "b = house_loop house (total a) dur"
  define p where "p = (if total a + total b < dur \<and> house \<noteq> [] then pad_loop (last house) (total a + total b) dur else [])"
  have ch: "chosen reg dur category lst seg = a @ b @ p"
    using assms by (simp add: chosen_def Let_def ok_def house_def partner_def a_def b_def p_def)
  have "\<forall>c \<in> set partner. 0 < cr_Duration c" by (auto simp: partner_def ok_def intro: eligible_pos)
  then have ab: "total a + total b \<le> dur"
    using house_loop_total bestSubset_total assms(1) unfolding b_def a_def by blast
  have lp: "house \<noteq> [] \<Longrightarrow> 0 < cr_Duration (last house)"
    using last_in_set [of house] by (auto simp: house_def ok_def dest: eligible_pos)
  show "chosen reg dur category lst seg = [] \<or> total (butlast (chosen reg dur category lst seg)) < dur"
  proof (cases "total a + total b < dur \<and> house \<noteq> []")
    case True
    then have "p \<noteq> []" "total a + total b + total (butlast p) < dur" using pad_loop_fills lp by (auto simp: p_def)
    then show ?thesis unfolding ch by (simp add: butlast_append)
  next
    case False
    then have ch': "chosen reg dur category lst seg = a @ b" by (auto simp: ch p_def)
    show ?thesis
    proof (cases "a @ b" rule: rev_cases)
      case (snoc ys y)
      have "y \<in> set (chosen reg dur category lst seg)" using snoc ch' by simp
      then have "0 < cr_Duration y" using set_chosen [of reg dur category lst seg] eligible_pos by blast
      moreover have "total ys + cr_Duration y = total a + total b"
        using arg_cong [OF snoc, of total] by simp
      ultimately show ?thesis using ab snoc unfolding ch' by simp
    qed (simp add: ch')
  qed
  assume "\<exists>c \<in> set reg. eligible category lst seg c \<and> cr_Type c = ''house''"
  then have "set house \<noteq> {}" by (auto simp: house_def ok_def)
  then have h: "house \<noteq> []" by auto
  then show "dur \<le> total (chosen reg dur category lst seg)"
    using pad_loop_fills [of "total a + total b" dur "last house"] lp ab unfolding ch p_def by (cases "total a + total b < dur") auto
qed

text \<open>C33. A break is filled: when the registry has a house creative that may be played, the pod lasts at least as long
  as the break; and only its last item may run past the end of the break, where the planner cuts it.\<close>

theorem fillBreak_fills:
  assumes "0 < dur" and "0 < seg" and "c \<in> set reg" and "cr_Type c = ''house''" and "eligible category lst seg c"
  shows "dur \<le> sum_list (map ad_DurationS (fillBreak reg dur category lst seg))
    \<and> sum_list (map ad_DurationS (butlast (fillBreak reg dur category lst seg))) < dur"
proof -
  let ?cs = "chosen reg dur category lst seg"
  have full: "dur \<le> total ?cs" using chosen_fills(2) [OF assms(1,2)] assms(3-5) by blast
  then have ne: "?cs \<noteq> []" using assms(1) by auto
  have fb: "fillBreak reg dur category lst seg = map item_of ?cs"
    using ne by (simp add: fillBreak_def fillBreakExcluding_def Let_def)
  have "ad_DurationS \<circ> item_of = cr_Duration" by (rule ext) (simp add: item_of_def)
  then show ?thesis using full ne chosen_fills(1) [OF assms(1,2), of reg category lst]
    unfolding fb map_butlast [symmetric] by simp
qed

text \<open>Only what may be played is played: every item comes from an active creative of the registry that fits the
  category and is a whole number of segments; the creative that ended the previous break is used again only
  when nothing else could be played at all.\<close>

theorem fillBreak_sound:
  assumes "it \<in> set (fillBreak reg dur category lst seg)"
  shows "\<exists>c \<in> set reg. it = item_of c \<and> cr_Active c \<and> 0 < cr_Duration c \<and> go_mod (cr_Duration c) seg = 0 \<and>
    (category = '''' \<or> category = ''any'' \<or> category \<in> set (cr_Category c) \<or> ''any'' \<in> set (cr_Category c)) \<and>
    (cr_ID c = lst \<longrightarrow> lst = '''' \<or> fillBreakExcluding reg dur category lst seg = [])"
proof -
  have hc: "hasCategory cats want \<longleftrightarrow> want \<in> set cats \<or> ''any'' \<in> set cats" for cats want
    by (auto simp: hasCategory_def list_ex_iff)
  obtain l where l: "it \<in> set (map item_of (chosen reg dur category l seg))"
      "l = lst \<or> fillBreakExcluding reg dur category lst seg = []"
    using assms by (auto simp: fillBreak_def fillBreakExcluding_def Let_def split: if_splits)
  then obtain c where c: "it = item_of c" "c \<in> set reg" "eligible category l seg c"
    using set_chosen [of reg dur category l seg] by auto
  then show ?thesis using l(2) by (intro bexI [of _ c]) (auto simp: eligible_def hc)
qed

definition w_house :: creative where
  "w_house = \<lparr>cr_ID = ''h'', cr_Type = ''house'', cr_Category = [''any''], cr_Duration = 10, cr_URI = ''u'', cr_Active = True\<rparr>"

definition w_partner :: creative where
  "w_partner = \<lparr>cr_ID = ''p'', cr_Type = ''partner'', cr_Category = [''any''], cr_Duration = 15, cr_URI = ''v'', cr_Active = True\<rparr>"

theorem bestSubset_optimal_witness:
  "total (bestSubset [w_partner, w_house] 20) \<le> 20 \<and> 15 \<le> total (bestSubset [w_partner, w_house] 20)"
proof -
  have h: "\<forall>c \<in> set [w_partner, w_house]. 0 < cr_Duration c" "length [w_partner, w_house] \<le> 60" "(0::int) \<le> 20"
    by (simp_all add: w_partner_def w_house_def)
  have "subseq [w_partner] [w_partner, w_house] \<and> total [w_partner] \<le> 20" by (simp add: w_partner_def)
  then have "total [w_partner] < total (bestSubset [w_partner, w_house] 20) \<or>
      total [w_partner] = total (bestSubset [w_partner, w_house] 20)"
    using bestSubset_optimal [OF h] by blast
  then show ?thesis using bestSubset_optimal [OF h] by (auto simp: w_partner_def)
qed

theorem fillBreak_fills_witness:
  "30 \<le> sum_list (map ad_DurationS (fillBreak [w_partner, w_house] 30 ''midroll'' ''p'' 1))"
proof -
  have "w_house \<in> set [w_partner, w_house]" "cr_Type w_house = ''house''" "eligible ''midroll'' ''p'' 1 w_house"
    by (simp_all add: w_house_def eligible_def hasCategory_def)
  then show ?thesis using fillBreak_fills [of 30 1 w_house "[w_partner, w_house]" "''midroll''" "''p''"] by simp
qed

theorem fillBreak_sound_witness:
  "\<exists>c \<in> set [w_house]. fillBreak [w_house] 10 '''' ''h'' 1 = [item_of c] \<and> cr_Active c"
proof -
  have "sort_key (\<lambda>c. (- cr_Duration c, cr_ID c)) [w_house] = [w_house]" by simp
  then have f: "fillBreak [w_house] 10 '''' ''h'' 1 = [item_of w_house]"
    by (simp add: fillBreak_def fillBreakExcluding_def chosen_def eligible_def w_house_def byDuration_def bestSubset_def)
  then have "item_of w_house \<in> set (fillBreak [w_house] 10 '''' ''h'' 1)" by simp
  from fillBreak_sound [OF this] show ?thesis using f by auto
qed

end
