(* ===== verification/Pods.thy ===== *)
theory Pods
  imports Filler
begin

text \<open>
  Where ad pods come from (\<^verbatim>\<open>services/engine/ads.go\<close>, the second half of \<^verbatim>\<open>filler.go\<close>, and
  \<^verbatim>\<open>notifyingPods\<close> of \<^verbatim>\<open>events.go\<close>). The Go interface \<^verbatim>\<open>podSource\<close> is a record of its methods over a
  state; its contract is the locale \<open>pod_source\<close>, which is interpreted on the broker, on the registry
  filler, on \<^verbatim>\<open>noAds\<close>, and on each of them wrapped by \<^verbatim>\<open>notifyingPods\<close>.

  Entries and channels of the broker are allocated in a store, because a request in flight keeps a pointer to
  its entry (which may have been evicted meanwhile) and to the channel it closes. What the network does is an
  argument: the requests that end while a call waits, each with its delay and its result.
\<close>

datatype podState = podReady | podPending | podFailed

record ('s, 'e) podSource =
  ps_pod :: "TimelineEntry \<Rightarrow> bool \<Rightarrow> 'e \<Rightarrow> 's \<Rightarrow> (AdItem list \<times> podState) \<times> 's"
  ps_giveUp :: "gtime \<Rightarrow> 's \<Rightarrow> 's"
  ps_evict :: "gtime \<Rightarrow> 's \<Rightarrow> 's"

definition adRetryEvery :: duration where "adRetryEvery = 1 * second"
definition dueWait :: duration where "dueWait = 300 * millisecond"
definition hour :: duration where "hour = 3600 * second"

subsection \<open>The broker\<close>

record podEntry =
  pe_items :: "AdItem list"
  pe_state :: podState
  pe_done :: nat
  pe_failedAt :: gtime

text \<open>A request in flight: the goroutine that \<^verbatim>\<open>fetch\<close> starts, with the entry and the channel it captured.\<close>

record flight =
  fl_entry :: nat
  fl_done :: nat

record adBroker =
  bk_pods :: "gtime \<Rightarrow> nat option"
  bk_entries :: "podEntry list"
  bk_closed :: "bool list"
  bk_flights :: "flight list"

definition newAdBroker :: adBroker where
  "newAdBroker = \<lparr>bk_pods = (\<lambda>_. None), bk_entries = [], bk_closed = [], bk_flights = []\<rparr>"

text \<open>\<^verbatim>\<open>make(chan struct{})\<close> (closed at once when \<open>c\<close>) and a new entry that is put under the break.\<close>

definition new_chan :: "bool \<Rightarrow> adBroker \<Rightarrow> nat \<times> adBroker" where
  "new_chan c b = (length (bk_closed b), b\<lparr>bk_closed := bk_closed b @ [c]\<rparr>)"

definition new_entry :: "gtime \<Rightarrow> podEntry \<Rightarrow> adBroker \<Rightarrow> nat \<times> adBroker" where
  "new_entry start en b =
     (length (bk_entries b), b\<lparr>bk_entries := bk_entries b @ [en], bk_pods := (bk_pods b)(start := Some (length (bk_entries b)))\<rparr>)"

definition set_entry :: "nat \<Rightarrow> podEntry \<Rightarrow> adBroker \<Rightarrow> adBroker" where
  "set_entry a en b = b\<lparr>bk_entries := (bk_entries b)[a := en]\<rparr>"

definition seed :: "gtime \<Rightarrow> AdItem list \<Rightarrow> adBroker \<Rightarrow> adBroker" where
  "seed start items b =
     (case new_chan True b of (c, b) \<Rightarrow>
        snd (new_entry start \<lparr>pe_items = items, pe_state = podReady, pe_done = c, pe_failedAt = zero_time\<rparr> b))"

text \<open>\<^verbatim>\<open>fetch\<close> starts a request; \<open>fetch_end\<close> is what its goroutine does with the answer (\<open>None\<close>: an error) at \<open>now\<close>.\<close>

definition fetch :: "nat \<Rightarrow> adBroker \<Rightarrow> adBroker" where
  "fetch a b = b\<lparr>bk_flights := bk_flights b @ [\<lparr>fl_entry = a, fl_done = pe_done (bk_entries b ! a)\<rparr>]\<rparr>"

definition fetch_end :: "nat \<Rightarrow> AdItem list option \<Rightarrow> gtime \<Rightarrow> adBroker \<Rightarrow> adBroker" where
  "fetch_end i resp now b =
     (if i < length (bk_flights b) then
        let f = bk_flights b ! i; a = fl_entry f; en = bk_entries b ! a;
            en' = (if pe_state en = podPending then
                     (case resp of None \<Rightarrow> en\<lparr>pe_state := podFailed, pe_failedAt := now\<rparr>
                      | Some items \<Rightarrow> en\<lparr>pe_items := items, pe_state := podReady\<rparr>)
                   else en);
            b' = set_entry a en' b
        in b'\<lparr>bk_closed := (bk_closed b)[fl_done f := True], bk_flights := take i (bk_flights b) @ drop (Suc i) (bk_flights b)\<rparr>
      else b)"

text \<open>What the call of \<open>pod\<close> meets: the clock, and the requests that end afterwards (delay, flight, answer), in order.\<close>

record podEnv =
  pv_now :: gtime
  pv_arrivals :: "(duration \<times> nat \<times> AdItem list option) list"

text \<open>The \<^verbatim>\<open>select\<close>: until the channel is closed or \<open>dueWait\<close> has passed.\<close>

fun wait_done :: "nat \<Rightarrow> gtime \<Rightarrow> (duration \<times> nat \<times> AdItem list option) list \<Rightarrow> adBroker \<Rightarrow> adBroker" where
  "wait_done c now [] b = b"
| "wait_done c now ((d, i, resp) # rest) b =
     (if bk_closed b ! c \<or> dueWait \<le> d then b else wait_done c now rest (fetch_end i resp (now + d) b))"

definition pod_start :: "TimelineEntry \<Rightarrow> gtime \<Rightarrow> adBroker \<Rightarrow> nat \<times> adBroker" where
  "pod_start e now b =
     (case bk_pods b (te_Start e) of
        None \<Rightarrow>
          (case new_chan False b of (c, b) \<Rightarrow>
           case new_entry (te_Start e) \<lparr>pe_items = [], pe_state = podPending, pe_done = c, pe_failedAt = zero_time\<rparr> b of
             (a, b) \<Rightarrow> (a, fetch a b))
      | Some a \<Rightarrow>
          (let en = bk_entries b ! a in
           if pe_state en = podFailed \<and> adRetryEvery \<le> Sub now (pe_failedAt en) then
             (case new_chan False b of (c, b) \<Rightarrow> (a, fetch a (set_entry a (en\<lparr>pe_state := podPending, pe_done := c\<rparr>) b)))
           else (a, b)))"

definition broker_pod :: "TimelineEntry \<Rightarrow> bool \<Rightarrow> podEnv \<Rightarrow> adBroker \<Rightarrow> (AdItem list \<times> podState) \<times> adBroker" where
  "broker_pod e due v b =
     (case pod_start e (pv_now v) b of (a, b) \<Rightarrow>
        let b = (if due then wait_done (pe_done (bk_entries b ! a)) (pv_now v) (pv_arrivals v) b else b);
            en = bk_entries b ! a
        in ((pe_items en, pe_state en), b))"

definition broker_giveUp :: "gtime \<Rightarrow> adBroker \<Rightarrow> adBroker" where
  "broker_giveUp start b =
     (case (case bk_pods b start of
              None \<Rightarrow> (case new_chan True b of (c, b) \<Rightarrow>
                new_entry start \<lparr>pe_items = [], pe_state = podReady, pe_done = c, pe_failedAt = zero_time\<rparr> b)
            | Some a \<Rightarrow> (a, b)) of
        (a, b) \<Rightarrow> set_entry a ((bk_entries b ! a)\<lparr>pe_items := [], pe_state := podReady\<rparr>) b)"

definition broker_evict :: "gtime \<Rightarrow> adBroker \<Rightarrow> adBroker" where
  "broker_evict now b = b\<lparr>bk_pods := (\<lambda>k. if k < now + - hour then None else bk_pods b k)\<rparr>"

definition broker_source :: "(adBroker, podEnv) podSource" where
  "broker_source = \<lparr>ps_pod = broker_pod, ps_giveUp = broker_giveUp, ps_evict = broker_evict\<rparr>"

subsection \<open>The registry filler\<close>

record staticFiller =
  sf_seg :: int
  sf_reg :: "creative list"
  sf_mtime :: gtime
  sf_last :: string
  sf_pods :: "gtime \<Rightarrow> AdItem list option"

definition newStaticFiller :: "Config \<Rightarrow> staticFiller" where
  "newStaticFiller cfg = \<lparr>sf_seg = cfg_SegmentSec cfg, sf_reg = [], sf_mtime = zero_time, sf_last = '''', sf_pods = (\<lambda>_. None)\<rparr>"

text \<open>The registry file at the moment of a call: absent, or its modification time and its creatives (\<open>None\<close>: unreadable).\<close>

type_synonym registry_env = "(gtime \<times> creative list option) option"

definition reload :: "registry_env \<Rightarrow> staticFiller \<Rightarrow> staticFiller" where
  "reload v f =
     (case v of
        None \<Rightarrow> f\<lparr>sf_reg := [], sf_mtime := zero_time\<rparr>
      | Some (mt, content) \<Rightarrow>
          if mt = sf_mtime f then f
          else (case content of None \<Rightarrow> f | Some cs \<Rightarrow> f\<lparr>sf_reg := cs, sf_mtime := mt\<rparr>))"

definition static_pod :: "TimelineEntry \<Rightarrow> bool \<Rightarrow> registry_env \<Rightarrow> staticFiller \<Rightarrow> (AdItem list \<times> podState) \<times> staticFiller" where
  "static_pod e due v f =
     (case sf_pods f (te_Start e) of
        Some items \<Rightarrow> ((items, podReady), f)
      | None \<Rightarrow>
          (let f = reload v f;
               items = fillBreak (sf_reg f) (te_DurationS e) (te_Category e) (sf_last f) (sf_seg f);
               f = (if length items > 0 then f\<lparr>sf_last := ad_CreativeID (last items)\<rparr> else f)
           in ((items, podReady), f\<lparr>sf_pods := (sf_pods f)(te_Start e := Some items)\<rparr>)))"

definition static_giveUp :: "gtime \<Rightarrow> staticFiller \<Rightarrow> staticFiller" where
  "static_giveUp t f = f"

definition static_evict :: "gtime \<Rightarrow> staticFiller \<Rightarrow> staticFiller" where
  "static_evict now f = f\<lparr>sf_pods := (\<lambda>k. if k < now + - hour then None else sf_pods f k)\<rparr>"

definition static_source :: "(staticFiller, registry_env) podSource" where
  "static_source = \<lparr>ps_pod = static_pod, ps_giveUp = static_giveUp, ps_evict = static_evict\<rparr>"

subsection \<open>No ads, and the wrapper of the engine\<close>

definition noAds :: "(unit, unit) podSource" where
  "noAds = \<lparr>ps_pod = (\<lambda>_ _ _ s. (([], podReady), s)), ps_giveUp = (\<lambda>_ s. s), ps_evict = (\<lambda>_ s. s)\<rparr>"

definition notifyingPods :: "('s, 'e) podSource \<Rightarrow> (gtime \<Rightarrow> 'h \<Rightarrow> 'h) \<Rightarrow> ('s \<times> 'h, 'e) podSource" where
  "notifyingPods ps onGiveUp =
     \<lparr>ps_pod = (\<lambda>e due v sh. case ps_pod ps e due v (fst sh) of (r, s) \<Rightarrow> (r, (s, snd sh))),
      ps_giveUp = (\<lambda>t sh. (ps_giveUp ps t (fst sh), onGiveUp t (snd sh))),
      ps_evict = (\<lambda>t sh. (ps_evict ps t (fst sh), snd sh))\<rparr>"

text \<open>
  The sources that \<^verbatim>\<open>newPods\<close> of \<^verbatim>\<open>engine.go\<close> chooses from, as one interface value: a call goes to the source that is
  there, with its part of the environment.
\<close>

datatype pods = Broker adBroker | Static staticFiller | NoAds

record any_env =
  ae_broker :: podEnv
  ae_registry :: registry_env

definition newPods :: "Config \<Rightarrow> pods" where
  "newPods cfg =
     (if cfg_AdsURL cfg \<noteq> '''' then Broker newAdBroker
      else if cfg_AdsRegistryFile cfg \<noteq> '''' then Static (newStaticFiller cfg)
      else NoAds)"

fun any_pod :: "TimelineEntry \<Rightarrow> bool \<Rightarrow> any_env \<Rightarrow> pods \<Rightarrow> (AdItem list \<times> podState) \<times> pods" where
  "any_pod e due v (Broker b) = apsnd Broker (ps_pod broker_source e due (ae_broker v) b)"
| "any_pod e due v (Static f) = apsnd Static (ps_pod static_source e due (ae_registry v) f)"
| "any_pod e due v NoAds = apsnd (\<lambda>_. NoAds) (ps_pod noAds e due () ())"

fun any_giveUp :: "gtime \<Rightarrow> pods \<Rightarrow> pods" where
  "any_giveUp t (Broker b) = Broker (ps_giveUp broker_source t b)"
| "any_giveUp t (Static f) = Static (ps_giveUp static_source t f)"
| "any_giveUp t NoAds = NoAds"

fun any_evict :: "gtime \<Rightarrow> pods \<Rightarrow> pods" where
  "any_evict t (Broker b) = Broker (ps_evict broker_source t b)"
| "any_evict t (Static f) = Static (ps_evict static_source t f)"
| "any_evict t NoAds = NoAds"

definition any_source :: "(pods, any_env) podSource" where
  "any_source = \<lparr>ps_pod = any_pod, ps_giveUp = any_giveUp, ps_evict = any_evict\<rparr>"

subsection \<open>The contract of a pod source\<close>

text \<open>
  \<open>decided s t\<close> is the pod that the source has settled for the break that starts at \<open>t\<close>. A ready answer settles it,
  a settled pod is given again and again, and nothing that happens between two calls (other calls, requests that
  end, the eviction of breaks that are over for an hour) changes it. A break whose pod is not ready can be given up.
\<close>

locale pod_source =
  fixes ps :: "('s, 'e) podSource"
    and bg :: "'b \<Rightarrow> 's \<Rightarrow> 's"
    and inv :: "'s \<Rightarrow> bool"
    and decided :: "'s \<Rightarrow> gtime \<Rightarrow> AdItem list option"
  assumes pod_inv: "inv s \<Longrightarrow> inv (snd (ps_pod ps e due v s))"
    and giveUp_inv: "inv s \<Longrightarrow> inv (ps_giveUp ps t s)"
    and evict_inv: "inv s \<Longrightarrow> inv (ps_evict ps t s)"
    and bg_inv: "inv s \<Longrightarrow> inv (bg w s)"
    and pod_decides: "inv s \<Longrightarrow> ps_pod ps e due v s = ((items, podReady), s') \<Longrightarrow> decided s' (te_Start e) = Some items"
    and pod_known: "inv s \<Longrightarrow> decided s (te_Start e) = Some items \<Longrightarrow> fst (ps_pod ps e due v s) = (items, podReady)"
    and pod_keeps: "inv s \<Longrightarrow> decided s t = Some items \<Longrightarrow> decided (snd (ps_pod ps e due v s)) t = Some items"
    and giveUp_decides: "inv s \<Longrightarrow> ps_pod ps e due v s = ((items, st), s') \<Longrightarrow> st \<noteq> podReady
      \<Longrightarrow> decided (ps_giveUp ps (te_Start e) s') (te_Start e) = Some []"
    and giveUp_keeps: "inv s \<Longrightarrow> t \<noteq> u \<Longrightarrow> decided s t = Some items \<Longrightarrow> decided (ps_giveUp ps u s) t = Some items"
    and evict_keeps: "inv s \<Longrightarrow> now \<le> t + hour \<Longrightarrow> decided s t = Some items \<Longrightarrow> decided (ps_evict ps now s) t = Some items"
    and bg_keeps: "inv s \<Longrightarrow> decided s t = Some items \<Longrightarrow> decided (bg w s) t = Some items"

text \<open>
  One planner and the network work on a source until the break at \<open>t\<close> is over for an hour: calls for any break,
  giving up a break whose pod is not ready, evictions, and requests that end in between.
\<close>

inductive pods_run :: "('s, 'e) podSource \<Rightarrow> ('b \<Rightarrow> 's \<Rightarrow> 's) \<Rightarrow> gtime \<Rightarrow> 's \<Rightarrow> 's \<Rightarrow> bool"
  for ps :: "('s, 'e) podSource" and bg :: "'b \<Rightarrow> 's \<Rightarrow> 's" and t :: gtime where
  run_refl: "pods_run ps bg t s s"
| run_pod: "pods_run ps bg t s s' \<Longrightarrow> ps_pod ps e due v s' = (r, s'') \<Longrightarrow> pods_run ps bg t s s''"
| run_giveUp: "pods_run ps bg t s s' \<Longrightarrow> ps_pod ps e due v s' = ((items, st), s'') \<Longrightarrow> st \<noteq> podReady
    \<Longrightarrow> pods_run ps bg t s (ps_giveUp ps (te_Start e) s'')"
| run_evict: "pods_run ps bg t s s' \<Longrightarrow> now \<le> t + hour \<Longrightarrow> pods_run ps bg t s (ps_evict ps now s')"
| run_bg: "pods_run ps bg t s s' \<Longrightarrow> pods_run ps bg t s (bg w s')"

context pod_source
begin

lemma giveUp_of_other:
  assumes "inv s" "ps_pod ps e due v s = ((items', st), s')" "st \<noteq> podReady" "decided s t = Some items"
  shows "decided (ps_giveUp ps (te_Start e) s') t = Some items"
proof (cases "t = te_Start e")
  case True
  then have "fst (ps_pod ps e due v s) = (items, podReady)" using pod_known assms(1,4) by auto
  then show ?thesis using assms(2,3) by simp
next
  case False
  have "inv s'" "decided s' t = Some items"
    using pod_inv [OF assms(1)] pod_keeps [OF assms(1,4)] assms(2) by (metis snd_conv)+
  then show ?thesis using giveUp_keeps False by blast
qed

lemma run_inv: "pods_run ps bg t s s' \<Longrightarrow> inv s \<Longrightarrow> inv s'"
proof (induction rule: pods_run.induct)
  case (run_pod s s' e due v r s'')
  then show ?case using pod_inv [of s' e due v] by simp
next
  case (run_giveUp s s' e due v items st s'')
  then show ?case using pod_inv [of s' e due v] giveUp_inv by simp
qed (auto intro: evict_inv bg_inv)

lemma run_keeps:
  assumes "pods_run ps bg t s s'" "inv s" "decided s t = Some items"
  shows "decided s' t = Some items"
  using assms
proof (induction rule: pods_run.induct)
  case (run_pod s s' e due v r s'')
  then show ?case using run_inv [of t s s'] pod_keeps [of s' t items e due v] by simp
next
  case (run_giveUp s s' e due v items' st s'')
  then show ?case using run_inv [of t s s'] giveUp_of_other by blast
qed (auto intro: evict_keeps bg_keeps run_inv)

lemma settled_pod_is_stable:
  assumes "inv s" "ps_pod ps e due v s = ((items, podReady), s1)" "pods_run ps bg (te_Start e) s1 s2" "te_Start e' = te_Start e"
  shows "fst (ps_pod ps e' due' v' s2) = (items, podReady)"
proof -
  have "inv s1" using pod_inv [OF assms(1), of e due v] assms(2) by simp
  then have "inv s2" "decided s2 (te_Start e) = Some items"
    using run_keeps [OF assms(3)] run_inv [OF assms(3)] pod_decides [OF assms(1,2)] by blast+
  then show ?thesis using pod_known assms(4) by metis
qed

lemma given_up_is_stable:
  assumes "inv s" "ps_pod ps e due v s = ((items, st), s1)" "st \<noteq> podReady"
    and "pods_run ps bg (te_Start e) (ps_giveUp ps (te_Start e) s1) s2" "te_Start e' = te_Start e"
  shows "fst (ps_pod ps e' due' v' s2) = ([], podReady)"
proof -
  have "inv s1" using pod_inv [OF assms(1), of e due v] assms(2) by simp
  then have "inv s2" "decided s2 (te_Start e) = Some []"
    using run_keeps [OF assms(4)] run_inv [OF assms(4)] giveUp_decides [OF assms(1,2,3)] giveUp_inv by blast+
  then show ?thesis using pod_known assms(5) by metis
qed

text \<open>The wrapper of the engine keeps the contract: it only adds the notification.\<close>

lemma notifying:
  fixes f :: "gtime \<Rightarrow> 'h \<Rightarrow> 'h"
  shows "pod_source (notifyingPods ps f) (\<lambda>w sh. (bg w (fst sh), snd sh)) (\<lambda>sh. inv (fst sh)) (\<lambda>sh. decided (fst sh))"
proof unfold_locales
  fix s :: "'s \<times> 'h" and e due v items st s'
  assume "inv (fst s)" "ps_pod (notifyingPods ps f) e due v s = ((items, st), s')" "st \<noteq> podReady"
  then show "decided (fst (ps_giveUp (notifyingPods ps f) (te_Start e) s')) (te_Start e) = Some []"
    using giveUp_decides [of "fst s" e due v items st] by (auto simp: notifyingPods_def split: prod.splits)
qed (auto simp: notifyingPods_def split: prod.splits
      intro: giveUp_inv evict_inv bg_inv giveUp_keeps evict_keeps bg_keeps pod_decides,
     (metis pod_inv pod_known pod_keeps fst_conv snd_conv)+)

end

subsection \<open>The broker keeps the contract\<close>

text \<open>
  Distinct breaks have distinct entries, requests in flight point to entries, and a pending entry has a request on
  its way: a break is never left waiting for nothing.
\<close>

definition broker_inv :: "adBroker \<Rightarrow> bool" where
  "broker_inv b \<longleftrightarrow>
     (\<forall>t a. bk_pods b t = Some a \<longrightarrow> a < length (bk_entries b)) \<and>
     (\<forall>t u a. bk_pods b t = Some a \<and> bk_pods b u = Some a \<longrightarrow> t = u) \<and>
     (\<forall>f \<in> set (bk_flights b). fl_entry f < length (bk_entries b)) \<and>
     (\<forall>a < length (bk_entries b). pe_state (bk_entries b ! a) = podPending \<longrightarrow> (\<exists>f \<in> set (bk_flights b). fl_entry f = a))"

definition broker_decided :: "adBroker \<Rightarrow> gtime \<Rightarrow> AdItem list option" where
  "broker_decided b t =
     (case bk_pods b t of None \<Rightarrow> None
      | Some a \<Rightarrow> if pe_state (bk_entries b ! a) = podReady then Some (pe_items (bk_entries b ! a)) else None)"

lemmas broker_ops = new_chan_def new_entry_def set_entry_def fetch_def

lemma broker_invD:
  assumes "broker_inv b"
  shows "bk_pods b t = Some a \<Longrightarrow> a < length (bk_entries b)"
    and "bk_pods b t = Some a \<Longrightarrow> bk_pods b u = Some a \<Longrightarrow> t = u"
    and "i < length (bk_flights b) \<Longrightarrow> fl_entry (bk_flights b ! i) < length (bk_entries b)"
  using assms by (auto simp: broker_inv_def)

lemma broker_decided_Some:
  "broker_decided b t = Some items \<longleftrightarrow>
     (\<exists>a. bk_pods b t = Some a \<and> pe_state (bk_entries b ! a) = podReady \<and> pe_items (bk_entries b ! a) = items)"
  by (auto simp: broker_decided_def split: option.splits)

lemma broker_inv_new [simp]: "broker_inv newAdBroker"
  by (simp add: broker_inv_def newAdBroker_def)

lemma in_set_remove_nth: "x \<in> set xs \<Longrightarrow> x \<noteq> xs ! i \<Longrightarrow> x \<in> set (take i xs @ drop (Suc i) xs)"
proof (cases "i < length xs")
  case True
  assume "x \<in> set xs" "x \<noteq> xs ! i"
  then show ?thesis using id_take_nth_drop [OF True] by (metis Un_iff set_ConsD set_append)
qed simp

lemma fetch_end_pods [simp]: "bk_pods (fetch_end i resp now b) = bk_pods b"
  and fetch_end_length [simp]: "length (bk_entries (fetch_end i resp now b)) = length (bk_entries b)"
  by (simp_all add: fetch_end_def set_entry_def Let_def)

text \<open>A request that ends changes only an entry that is pending.\<close>

lemma fetch_end_entry:
  assumes "pe_state (bk_entries b ! a) \<noteq> podPending"
  shows "bk_entries (fetch_end i resp now b) ! a = bk_entries b ! a"
  using assms by (cases "a = fl_entry (bk_flights b ! i)") (auto simp: fetch_end_def set_entry_def Let_def)

lemma fetch_end_pending:
  assumes "broker_inv b" "a < length (bk_entries b)" "pe_state (bk_entries (fetch_end i resp now b) ! a) = podPending"
  shows "\<exists>f \<in> set (bk_flights (fetch_end i resp now b)). fl_entry f = a"
proof (cases "i < length (bk_flights b)")
  case True
  let ?a = "fl_entry (bk_flights b ! i)"
  have ne: "a \<noteq> ?a"
    using assms(2,3) True by (auto simp: fetch_end_def set_entry_def Let_def split: if_splits option.splits)
  then have "pe_state (bk_entries b ! a) = podPending"
    using assms(3) True by (simp add: fetch_end_def set_entry_def Let_def)
  then obtain f where f: "f \<in> set (bk_flights b)" "fl_entry f = a" using assms(1,2) by (auto simp: broker_inv_def)
  then have "f \<in> set (take i (bk_flights b) @ drop (Suc i) (bk_flights b))" using in_set_remove_nth ne by metis
  then show ?thesis using f True by (auto simp: fetch_end_def set_entry_def Let_def)
next
  case False
  then show ?thesis using assms by (auto simp: fetch_end_def broker_inv_def)
qed

lemma fetch_end_inv [step_inv]: "broker_inv b \<Longrightarrow> broker_inv (fetch_end i resp now b)"
proof -
  assume inv: "broker_inv b"
  have "\<forall>f \<in> set (bk_flights (fetch_end i resp now b)). fl_entry f < length (bk_entries b)"
    using inv by (auto simp: fetch_end_def set_entry_def Let_def broker_inv_def dest: in_set_takeD in_set_dropD)
  then show ?thesis using inv fetch_end_pending [OF inv] unfolding broker_inv_def by simp
qed

lemma fetch_end_keeps: "broker_decided b t = Some items \<Longrightarrow> broker_decided (fetch_end i resp now b) t = Some items"
  by (auto simp: broker_decided_Some fetch_end_entry)

lemma wait_done_inv [step_inv]: "broker_inv b \<Longrightarrow> broker_inv (wait_done c now rest b)"
  by (induction c now rest b rule: wait_done.induct) (auto intro: fetch_end_inv)

lemma wait_done_pods [simp]: "bk_pods (wait_done c now rest b) = bk_pods b"
  by (induction c now rest b rule: wait_done.induct) auto

lemma wait_done_entry:
  "pe_state (bk_entries b ! a) \<noteq> podPending \<Longrightarrow> bk_entries (wait_done c now rest b) ! a = bk_entries b ! a"
  by (induction c now rest b rule: wait_done.induct) (simp_all add: fetch_end_entry)

lemma wait_done_keeps: "broker_decided b t = Some items \<Longrightarrow> broker_decided (wait_done c now rest b) t = Some items"
  by (auto simp: broker_decided_Some wait_done_entry)

lemma pod_start_pods: "pod_start e now b = (a, b') \<Longrightarrow> bk_pods b' (te_Start e) = Some a"
  by (auto simp: pod_start_def broker_ops Let_def split: option.splits if_splits)

lemma pod_start_inv [step_inv]: "broker_inv b \<Longrightarrow> pod_start e now b = (a, b') \<Longrightarrow> broker_inv b'"
proof (cases "bk_pods b (te_Start e)")
  case None
  assume "broker_inv b" "pod_start e now b = (a, b')"
  then show ?thesis using None unfolding pod_start_def broker_inv_def
    by (auto simp: broker_ops nth_append less_Suc_eq split: if_splits) (metis less_irrefl)+
next
  case (Some x)
  assume "broker_inv b" "pod_start e now b = (a, b')"
  then show ?thesis using Some broker_invD(1) [of b "te_Start e" x] unfolding pod_start_def
    by (auto simp: broker_ops Let_def broker_inv_def nth_list_update split: if_splits)
qed

lemma pod_start_keeps:
  assumes "broker_inv b" "pod_start e now b = (a, b')" "broker_decided b t = Some items"
  shows "broker_decided b' t = Some items"
proof -
  obtain x where x: "bk_pods b t = Some x" "pe_state (bk_entries b ! x) = podReady" "pe_items (bk_entries b ! x) = items" "x < length (bk_entries b)"
    using assms(1,3) broker_invD(1) by (auto simp: broker_decided_Some)
  have "pe_state (bk_entries b ! y) = podFailed \<Longrightarrow> y \<noteq> x" for y using x by auto
  then have "bk_pods b' t = Some x \<and> bk_entries b' ! x = bk_entries b ! x"
    using assms(2) x by (auto simp: pod_start_def broker_ops Let_def nth_append split: option.splits if_splits)
  then show ?thesis using x by (auto simp: broker_decided_Some)
qed


lemma broker_pod_result:
  assumes "broker_pod e due v b = ((items, st), b')"
  shows "\<exists>a. bk_pods b' (te_Start e) = Some a \<and> items = pe_items (bk_entries b' ! a) \<and> st = pe_state (bk_entries b' ! a)"
proof -
  obtain a b1 where a: "pod_start e (pv_now v) b = (a, b1)" by fastforce
  then show ?thesis using assms pod_start_pods [OF a] by (auto simp: broker_pod_def Let_def)
qed

lemma broker_pod_inv [step_inv]: "broker_inv b \<Longrightarrow> broker_inv (snd (broker_pod e due v b))"
  by (auto simp: broker_pod_def Let_def split: prod.splits intro: pod_start_inv wait_done_inv)

lemma broker_pod_keeps:
  "broker_inv b \<Longrightarrow> broker_decided b t = Some items \<Longrightarrow> broker_decided (snd (broker_pod e due v b)) t = Some items"
  by (auto simp: broker_pod_def Let_def split: prod.splits intro: pod_start_keeps wait_done_keeps)

lemma broker_giveUp_inv [step_inv]: "broker_inv b \<Longrightarrow> broker_inv (broker_giveUp t b)"
proof (cases "bk_pods b t")
  case None
  assume "broker_inv b"
  then show ?thesis using None unfolding broker_giveUp_def broker_inv_def
    by (auto simp: broker_ops nth_append less_Suc_eq nth_list_update split: if_splits)
next
  case (Some a)
  assume "broker_inv b"
  then show ?thesis using Some broker_invD(1) [of b t a] unfolding broker_giveUp_def broker_inv_def
    by (auto simp: broker_ops nth_list_update)
qed

lemma broker_giveUp_keeps:
  assumes "broker_inv b" "t \<noteq> u" "broker_decided b t = Some items"
  shows "broker_decided (broker_giveUp u b) t = Some items"
proof -
  obtain x where x: "bk_pods b t = Some x" "pe_state (bk_entries b ! x) = podReady" "pe_items (bk_entries b ! x) = items" "x < length (bk_entries b)"
    using assms(1,3) broker_invD(1) by (auto simp: broker_decided_Some)
  have "bk_pods b u = Some y \<Longrightarrow> y \<noteq> x" for y using broker_invD(2) [OF assms(1)] x assms(2) by blast
  then have "bk_pods (broker_giveUp u b) t = Some x \<and> bk_entries (broker_giveUp u b) ! x = bk_entries b ! x"
    using x assms(2) by (auto simp: broker_giveUp_def broker_ops nth_append nth_list_update split: option.splits)
  then show ?thesis using x by (auto simp: broker_decided_Some)
qed

lemma broker_giveUp_decides: "broker_inv b \<Longrightarrow> broker_decided (broker_giveUp t b) t = Some []"
  using broker_invD(1) [of b t] by (auto simp: broker_decided_Some broker_giveUp_def broker_ops nth_append split: option.splits)

lemma broker_evict_inv [step_inv]: "broker_inv b \<Longrightarrow> broker_inv (broker_evict now b)"
  unfolding broker_inv_def broker_evict_def by simp

lemma broker_evict_keeps:
  "now \<le> t + hour \<Longrightarrow> broker_decided b t = Some items \<Longrightarrow> broker_decided (broker_evict now b) t = Some items"
  by (auto simp: broker_decided_Some broker_evict_def)

lemma broker_pod_known:
  assumes "broker_inv b" "broker_decided b (te_Start e) = Some items"
  shows "fst (broker_pod e due v b) = (items, podReady)"
proof -
  obtain i st b' where eq: "broker_pod e due v b = ((i, st), b')" by (metis surj_pair)
  then obtain a where "i = pe_items (bk_entries b' ! a)" "st = pe_state (bk_entries b' ! a)" "bk_pods b' (te_Start e) = Some a"
    using broker_pod_result by metis
  then show ?thesis using broker_pod_keeps [OF assms, of e due v] eq by (simp add: broker_decided_Some)
qed

interpretation broker: pod_source broker_source "\<lambda>(i, resp, now). fetch_end i resp now" broker_inv broker_decided
proof unfold_locales
  fix s e due v items s'
  assume "broker_inv s" "ps_pod broker_source e due v s = ((items, podReady), s')"
  then show "broker_decided s' (te_Start e) = Some items"
    using broker_pod_result [of e due v s items podReady s'] by (auto simp: broker_source_def broker_decided_Some)
next
  fix s e due v items st s'
  assume "broker_inv s" "ps_pod broker_source e due v s = ((items, st), s')"
  then have "broker_inv s'" using broker_pod_inv [of s e due v] by (simp add: broker_source_def)
  then show "broker_decided (ps_giveUp broker_source (te_Start e) s') (te_Start e) = Some []"
    by (simp add: broker_source_def broker_giveUp_decides)
qed (auto simp: broker_source_def broker_pod_known broker_pod_keeps broker_giveUp_keeps fetch_end_keeps
      broker_evict_keeps intro: step_inv)

subsection \<open>The registry filler and noAds keep it too\<close>

interpretation static: pod_source static_source "\<lambda>_ s. s" "\<lambda>_. True" sf_pods
  by unfold_locales (auto simp: static_source_def static_pod_def static_giveUp_def static_evict_def Let_def reload_def
      split: option.splits if_splits prod.splits)

interpretation no_ads: pod_source noAds "\<lambda>_ s. s" "\<lambda>_. True" "\<lambda>_ _. Some []"
  by unfold_locales (auto simp: noAds_def)

text \<open>The interface value keeps the contract of whichever source it holds.\<close>

fun any_bg :: "nat \<times> AdItem list option \<times> gtime \<Rightarrow> pods \<Rightarrow> pods" where
  "any_bg (i, resp, now) (Broker b) = Broker (fetch_end i resp now b)"
| "any_bg _ p = p"

fun any_inv :: "pods \<Rightarrow> bool" where
  "any_inv (Broker b) = broker_inv b"
| "any_inv _ = True"

fun any_decided :: "pods \<Rightarrow> gtime \<Rightarrow> AdItem list option" where
  "any_decided (Broker b) t = broker_decided b t"
| "any_decided (Static f) t = sf_pods f t"
| "any_decided NoAds t = Some []"

interpretation any: pod_source any_source any_bg any_inv any_decided
proof unfold_locales
  fix s e due v
  assume inv: "any_inv s"
  show "any_inv (snd (ps_pod any_source e due v s))"
    using inv by (cases s) (auto simp: any_source_def broker.pod_inv)
  {
    fix items s' assume "ps_pod any_source e due v s = ((items, podReady), s')"
    then show "any_decided s' (te_Start e) = Some items"
      using inv by (cases s) (auto simp: any_source_def apsnd_def map_prod_def noAds_def split: prod.splits
        intro: broker.pod_decides static.pod_decides)
  next
    fix items assume "any_decided s (te_Start e) = Some items"
    then show "fst (ps_pod any_source e due v s) = (items, podReady)"
      using inv by (cases s) (auto simp: any_source_def broker.pod_known static.pod_known noAds_def)
  next
    fix t items assume "any_decided s t = Some items"
    then show "any_decided (snd (ps_pod any_source e due v s)) t = Some items"
      using inv by (cases s) (auto simp: any_source_def broker.pod_keeps static.pod_keeps)
  next
    fix items st s' assume "ps_pod any_source e due v s = ((items, st), s')" "st \<noteq> podReady"
    then show "any_decided (ps_giveUp any_source (te_Start e) s') (te_Start e) = Some []"
      using inv by (cases s) (auto simp: any_source_def apsnd_def map_prod_def noAds_def split: prod.splits
        intro: broker.giveUp_decides static.giveUp_decides)
  }
next
  fix s t
  assume inv: "any_inv s"
  show "any_inv (ps_giveUp any_source t s)" "any_inv (ps_evict any_source t s)"
    using inv by (cases s; auto simp: any_source_def broker.giveUp_inv broker.evict_inv)+
  fix u items assume "any_decided s t = Some items"
  then show "t \<noteq> u \<Longrightarrow> any_decided (ps_giveUp any_source u s) t = Some items"
      "u \<le> t + hour \<Longrightarrow> any_decided (ps_evict any_source u s) t = Some items"
    using inv by (cases s; auto simp: any_source_def broker.giveUp_keeps static.giveUp_keeps broker.evict_keeps static.evict_keeps)+
next
  fix s w
  assume inv: "any_inv s"
  show "any_inv (any_bg w s)" using inv by (cases w; cases s) (auto intro: fetch_end_inv)
  fix t items assume "any_decided s t = Some items"
  then show "any_decided (any_bg w s) t = Some items"
    using inv by (cases w; cases s) (auto intro: fetch_end_keeps)
qed

interpretation engine_pods: pod_source "notifyingPods any_source f" "\<lambda>w sh. (any_bg w (fst sh), snd sh)"
    "\<lambda>sh. any_inv (fst sh)" "\<lambda>sh. any_decided (fst sh)" for f
  by (rule any.notifying)

lemma newPods_inv [simp]: "any_inv (newPods cfg)"
  by (simp add: newPods_def)

subsection \<open>What the planner may rely on\<close>

definition w_env :: podEnv where
  "w_env = \<lparr>pv_now = 0, pv_arrivals = [(100 * millisecond, 0, Some [\<lparr>ad_URI = ''u'', ad_DurationS = 30, ad_CreativeID = ''c'', ad_Type = ''partner''\<rparr>])]\<rparr>"

definition w_break :: TimelineEntry where
  "w_break = zero_entry\<lparr>te_Type := ''ad_break'', te_Start := 5 * second, te_DurationS := 30\<rparr>"

text \<open>C4. The pod of a break does not change while the break is in the plan: once the broker answered ready, it gives the
  same items for that break after any run of further calls, give-ups of other breaks, answers of the ads service and
  evictions up to one hour after the start of the break.\<close>

theorem broker_pod_stable:
  assumes "broker_inv b" and "broker_pod e due v b = ((items, podReady), b1)"
    and "pods_run broker_source (\<lambda>(i, resp, now). fetch_end i resp now) (te_Start e) b1 b2"
    and "te_Start e' = te_Start e"
  shows "fst (broker_pod e' due' v' b2) = (items, podReady)"
  using broker.settled_pod_is_stable [OF assms(1) _ assms(3,4), of due v items] assms(2) by (simp add: broker_source_def)

text \<open>A break that was given up stays slate: whatever the ads service answers later, and however often the planner
  asks, the pod of that break is empty and ready.\<close>

theorem broker_giveUp_final:
  assumes "broker_inv b" and "broker_pod e due v b = ((items, st), b1)" and "st \<noteq> podReady"
    and "pods_run broker_source (\<lambda>(i, resp, now). fetch_end i resp now) (te_Start e) (broker_giveUp (te_Start e) b1) b2"
    and "te_Start e' = te_Start e"
  shows "fst (broker_pod e' due' v' b2) = ([], podReady)"
  using broker.given_up_is_stable [OF assms(1) _ assms(3) _ assms(5), of due v items b1 b2] assms(2,4)
  by (simp add: broker_source_def)

text \<open>C5. The broker is never stuck: in every state that its calls and the answers of the network can reach, a break
  that is pending has a request in flight, and a break whose request failed is asked again as soon as a second has
  passed.\<close>

theorem broker_never_stuck:
  assumes "pods_run broker_source (\<lambda>(i, resp, now). fetch_end i resp now) t newAdBroker b"
    and "bk_pods b (te_Start e) = Some a"
  shows "(pe_state (bk_entries b ! a) = podPending \<longrightarrow> (\<exists>f \<in> set (bk_flights b). fl_entry f = a)) \<and>
    (pe_state (bk_entries b ! a) = podFailed \<and> adRetryEvery \<le> Sub (pv_now v) (pe_failedAt (bk_entries b ! a)) \<longrightarrow>
       (\<exists>f. bk_flights (snd (broker_pod e False v b)) = bk_flights b @ [f] \<and> fl_entry f = a))"
proof -
  have "broker_inv b" by (rule broker.run_inv [OF assms(1) broker_inv_new])
  then show ?thesis using assms(2) broker_invD(1) [of b "te_Start e" a]
    by (auto simp: broker_inv_def broker_pod_def pod_start_def broker_ops Let_def)
qed

text \<open>The registry filler answers every call at once, and a break keeps its pod while it is in the plan, also when
  the registry file changes meanwhile.\<close>

theorem static_pod_stable:
  assumes "static_pod e due v f = ((items, st), f1)"
    and "pods_run static_source (\<lambda>(_::unit) s. s) (te_Start e) f1 f2" and "te_Start e' = te_Start e"
  shows "st = podReady \<and> fst (static_pod e' due' v' f2) = (items, podReady)"
proof -
  have st: "st = podReady" using assms(1) by (auto simp: static_pod_def Let_def split: option.splits)
  then show ?thesis using static.settled_pod_is_stable [OF _ _ assms(2,3), where s = f and due = due and v = v] assms(1)
    by (simp add: static_source_def)
qed

theorem broker_pod_stable_witness:
  "fst (broker_pod w_break False w_env (fetch_end 0 None 7 (snd (broker_pod w_break True w_env newAdBroker))))
     = (fst (fst (broker_pod w_break True w_env newAdBroker)), podReady)"
proof -
  obtain items b1 where r: "broker_pod w_break True w_env newAdBroker = ((items, podReady), b1)"
    by (auto simp: broker_pod_def pod_start_def newAdBroker_def broker_ops fetch_end_def Let_def w_env_def dueWait_def)
  have "pods_run broker_source (\<lambda>(i, resp, now). fetch_end i resp now) (te_Start w_break) b1
      ((\<lambda>(i, resp, now). fetch_end i resp now) (0, None, 7) b1)"
    by (intro run_bg run_refl)
  then show ?thesis using broker_pod_stable [OF broker_inv_new r _ refl, of "fetch_end 0 None 7 b1" False w_env] r by simp
qed

theorem broker_giveUp_final_witness:
  "fst (broker_pod w_break True w_env (fetch_end 0 (Some [\<lparr>ad_URI = ''u'', ad_DurationS = 30, ad_CreativeID = ''c'', ad_Type = ''partner''\<rparr>]) 7
      (broker_giveUp (te_Start w_break) (snd (broker_pod w_break False w_env newAdBroker))))) = ([], podReady)"
proof -
  obtain items b1 where r: "broker_pod w_break False w_env newAdBroker = ((items, podPending), b1)"
    by (auto simp: broker_pod_def pod_start_def newAdBroker_def broker_ops Let_def)
  let ?resp = "Some [\<lparr>ad_URI = ''u'', ad_DurationS = 30, ad_CreativeID = ''c'', ad_Type = ''partner''\<rparr>]"
  have "pods_run broker_source (\<lambda>(i, resp, now). fetch_end i resp now) (te_Start w_break) (broker_giveUp (te_Start w_break) b1)
      ((\<lambda>(i, resp, now). fetch_end i resp now) (0, ?resp, 7) (broker_giveUp (te_Start w_break) b1))"
    by (intro run_bg run_refl)
  then show ?thesis using broker_giveUp_final [OF broker_inv_new r _ _ refl, of "fetch_end 0 ?resp 7 (broker_giveUp (te_Start w_break) b1)" True w_env] r
    by simp
qed

theorem broker_never_stuck_witness:
  "\<exists>f \<in> set (bk_flights (snd (broker_pod w_break False w_env newAdBroker))). fl_entry f = 0"
proof -
  let ?b = "snd (broker_pod w_break False w_env newAdBroker)"
  have "pods_run broker_source (\<lambda>(i, resp, now). fetch_end i resp now) 0 newAdBroker ?b"
    using run_pod [OF run_refl, of broker_source w_break False w_env newAdBroker "fst (broker_pod w_break False w_env newAdBroker)" ?b
      "\<lambda>(i, resp, now). fetch_end i resp now" 0] by (simp add: broker_source_def)
  moreover have "bk_pods ?b (te_Start w_break) = Some 0" "pe_state (bk_entries ?b ! 0) = podPending"
    by (auto simp: broker_pod_def pod_start_def newAdBroker_def broker_ops Let_def)
  ultimately show ?thesis using broker_never_stuck [of 0 ?b w_break 0 w_env] by blast
qed

theorem static_pod_stable_witness:
  "fst (static_pod w_break True None (snd (static_pod w_break False (Some (1, Some [w_house])) (newStaticFiller default_config))))
     = (fst (fst (static_pod w_break False (Some (1, Some [w_house])) (newStaticFiller default_config))), podReady)"
  using static_pod_stable [OF _ run_refl refl, of w_break False "Some (1, Some [w_house])" "newStaticFiller default_config"]
  by (metis prod.collapse)

end
