(* ===== verification/Plan.thy ===== *)
theory Plan
  imports Pods
begin

text \<open>
  \<^verbatim>\<open>services/engine/plan.go\<close>: the planner. \<open>plan_loop\<close> is the loop of \<^verbatim>\<open>buildPlan\<close>, which threads the state of the pod
  source and the type of the previous clip; the early return on a pod that is not ready is the empty rest. The theorems
  compare it with a reference plan that is a plain function of the schedule and of the pods.
\<close>

definition quantSeq :: "gtime \<Rightarrow> int \<Rightarrow> int" where
  "quantSeq ts segSec = go_div (Unix ts) segSec"

definition normalizeURI :: "string \<Rightarrow> string" where
  "normalizeURI u =
     (if HasPrefix u ''s3://'' \<or> HasPrefix u ''http://'' \<or> HasPrefix u ''https://'' then u
      else ''s3://'' @ TrimPrefix u ''/'')"

text \<open>\<^verbatim>\<open>callAds\<close>: what the engine makes of the answer of the ads service (status and decoded items; \<open>None\<close>: no answer).\<close>

definition callAds :: "(int \<times> AdItem list option) option \<Rightarrow> AdItem list option" where
  "callAds resp =
     (case resp of
        None \<Rightarrow> None
      | Some (status, body) \<Rightarrow>
          if status = 204 then Some []
          else if status \<noteq> 200 then None
          else (case body of None \<Rightarrow> None | Some items \<Rightarrow> Some (map (\<lambda>it. it\<lparr>ad_URI := normalizeURI (ad_URI it)\<rparr>) items)))"

subsection \<open>The quanta of a break\<close>

definition ad_quanta :: "Config \<Rightarrow> AdItem \<Rightarrow> ClipItem list" where
  "ad_quanta cfg it =
     map (\<lambda>i. zero_clip\<lparr>ci_URI := ad_URI it, ci_DurationS := cfg_SegmentSec cfg, ci_OffsetS := int i * cfg_SegmentSec cfg,
            ci_Type := ''ad'', ci_Title := ad_CreativeID it\<rparr>)
         [0..<nat (go_div (ad_DurationS it) (cfg_SegmentSec cfg))]"

definition slate_quantum :: "Config \<Rightarrow> ClipItem" where
  "slate_quantum cfg = zero_clip\<lparr>ci_URI := cfg_SlateURI cfg, ci_DurationS := cfg_SegmentSec cfg, ci_Type := ''slate''\<rparr>"

definition mark_first :: "ClipItem list \<Rightarrow> ClipItem list" where
  "mark_first out = (case out of [] \<Rightarrow> [] | c # cs \<Rightarrow> c\<lparr>ci_Discontinuity := True\<rparr> # cs)"

definition buildAdBreakQuanta :: "TimelineEntry \<Rightarrow> AdItem list \<Rightarrow> Config \<Rightarrow> ClipItem list" where
  "buildAdBreakQuanta br items cfg =
     (let quantaTotal = nat (go_div (te_DurationS br) (cfg_SegmentSec cfg));
          out = concat (map (ad_quanta cfg) items);
          out = out @ replicate (quantaTotal - length out) (slate_quantum cfg);
          out = (if length out > quantaTotal then take quantaTotal out else out)
      in mark_first out)"

subsection \<open>One clip\<close>

definition findEntry :: "TimelineEntry list \<Rightarrow> gtime \<Rightarrow> TimelineEntry option" where
  "findEntry entries ts = List.find (\<lambda>e. covers e ts) entries"

definition base_clip :: "Config \<Rightarrow> gtime \<Rightarrow> ClipItem" where
  "base_clip cfg ts = zero_clip\<lparr>ci_Seq := quantSeq ts (cfg_SegmentSec cfg), ci_StartAt := ts, ci_DurationS := cfg_SegmentSec cfg\<rparr>"

definition to_slate :: "Config \<Rightarrow> ClipItem \<Rightarrow> ClipItem" where
  "to_slate cfg it = it\<lparr>ci_Type := ''slate'', ci_URI := cfg_SlateURI cfg\<rparr>"

definition program_clip :: "gtime \<Rightarrow> TimelineEntry \<Rightarrow> ClipItem \<Rightarrow> ClipItem" where
  "program_clip ts e it =
     it\<lparr>ci_Type := te_Type e, ci_URI := te_URI e,
        ci_Title := (if te_AssetID e = '''' then te_URI e else te_AssetID e), ci_EntryStart := te_Start e,
        ci_OffsetS := go_div (Sub ts (te_Start e)) second + te_OffsetS e\<rparr>"

definition break_clip :: "Config \<Rightarrow> gtime \<Rightarrow> TimelineEntry \<Rightarrow> AdItem list \<Rightarrow> ClipItem \<Rightarrow> ClipItem" where
  "break_clip cfg ts e pod it =
     (let breakItems = buildAdBreakQuanta e pod cfg;
          idx = go_div (Sub ts (te_Start e)) (seconds (cfg_SegmentSec cfg))
      in if 0 \<le> idx \<and> idx < int (length breakItems)
         then (breakItems ! nat idx)\<lparr>ci_Seq := ci_Seq it, ci_StartAt := ts, ci_DurationS := cfg_SegmentSec cfg,
                ci_EntryStart := te_Start e, ci_BreakStart := te_Start e, ci_BreakDurS := te_DurationS e,
                ci_SCTE35 := te_SCTE35 e\<rparr>
         else to_slate cfg it)"

definition is_break :: "TimelineEntry option \<Rightarrow> bool" where
  "is_break eo = (case eo of None \<Rightarrow> False | Some e \<Rightarrow> te_Type e = ''ad_break'')"

text \<open>The clip of the quantum \<open>ts\<close>, for the entry found and the pod of its break; a slate loops, so its offset just grows.\<close>

definition entry_clip :: "Config \<Rightarrow> gtime \<Rightarrow> TimelineEntry option \<Rightarrow> AdItem list \<Rightarrow> ClipItem" where
  "entry_clip cfg ts eo pod =
     (let it = base_clip cfg ts;
          item = (case eo of
              None \<Rightarrow> to_slate cfg it
            | Some e \<Rightarrow>
                if te_Type e = ''content'' \<or> te_Type e = ''bumper'' then program_clip ts e it
                else if te_Type e = ''slate'' then to_slate cfg it
                else if te_Type e = ''ad_break'' then break_clip cfg ts e pod it
                else to_slate cfg it)
      in if ci_Type item = ''slate'' then item\<lparr>ci_OffsetS := Unix ts, ci_Title := ''slate''\<rparr> else item)"

definition mark_boundary :: "string \<Rightarrow> ClipItem \<Rightarrow> ClipItem" where
  "mark_boundary prevType item =
     (if (ci_Type item = ''ad'' \<and> prevType \<noteq> ''ad'') \<or> (ci_Type item \<noteq> ''ad'' \<and> prevType = ''ad'')
      then item\<lparr>ci_Discontinuity := True\<rparr> else item)"

text \<open>The pod for a clip of a break: \<open>None\<close> when the plan has to stop here, otherwise the items (given up: none).\<close>

definition ask_pod :: "Config \<Rightarrow> ('s, 'e) podSource \<Rightarrow> gtime \<Rightarrow> 'e \<Rightarrow> gtime \<Rightarrow> TimelineEntry option \<Rightarrow> 's \<Rightarrow> AdItem list option \<times> 's" where
  "ask_pod cfg ps now v ts eo s =
     (case eo of
        None \<Rightarrow> (Some [], s)
      | Some e \<Rightarrow>
          if te_Type e = ''ad_break'' then
            let due = (\<not> ts > now + seconds (cfg_LiveLeadS cfg)) in
            case ps_pod ps e due v s of ((pod, state), s) \<Rightarrow>
              if state \<noteq> podReady
              then (if \<not> due then (None, s) else (Some [], ps_giveUp ps (te_Start e) s))
              else (Some pod, s)
          else (Some [], s))"

subsection \<open>buildPlan\<close>

text \<open>
  \<open>stop\<close> is \<^verbatim>\<open>end.Add(-seg)\<close>. \<^verbatim>\<open>SegmentSec\<close> is the constant 1 of the system; for a length that is not positive the Go
  loop would not end (or divide by zero), so the model of the loop asks for a positive one.
\<close>

function plan_loop :: "Config \<Rightarrow> TimelineEntry list \<Rightarrow> ('s, 'e) podSource \<Rightarrow> (gtime \<Rightarrow> 'e) \<Rightarrow> gtime \<Rightarrow> gtime \<Rightarrow> gtime \<Rightarrow> string \<Rightarrow> 's
    \<Rightarrow> ClipItem list \<times> 's" where
  "plan_loop cfg entries ps env now stop ts prevType s =
     (if \<not> ts > stop \<and> 0 < seconds (cfg_SegmentSec cfg) then
        let eo = findEntry entries ts in
        case ask_pod cfg ps now (env ts) ts eo s of
          (None, s) \<Rightarrow> ([], s)
        | (Some pod, s) \<Rightarrow>
            let item = mark_boundary prevType (entry_clip cfg ts eo pod) in
            case plan_loop cfg entries ps env now stop (ts + seconds (cfg_SegmentSec cfg)) (ci_Type item) s of
              (out, s) \<Rightarrow> (item # out, s)
      else ([], s))"
  by pat_completeness auto
termination
  by (relation "measure (\<lambda>(cfg, entries, ps, env, now, stop, ts, prevType, s). nat (stop - ts + 1))") auto

declare plan_loop.simps [simp del]

definition ahead_of :: "Config \<Rightarrow> int" where
  "ahead_of cfg = (if cfg_PublishAheadS cfg \<le> 0 then cfg_PreloadWindowS cfg else cfg_PublishAheadS cfg)"

definition buildPlan :: "gtime \<Rightarrow> Config \<Rightarrow> TimelineEntry list \<Rightarrow> ('s, 'e) podSource \<Rightarrow> (gtime \<Rightarrow> 'e) \<Rightarrow> 's \<Rightarrow> ClipItem list \<times> 's" where
  "buildPlan now cfg entries ps env s =
     plan_loop cfg entries ps env now (now + seconds (ahead_of cfg) + - seconds (cfg_SegmentSec cfg)) now '''' s"

subsection \<open>The reference plan\<close>

text \<open>The plan as a function of the schedule and of the pods: the clip of every quantum, and the marks at the ad boundaries.\<close>

definition pod_for :: "(gtime \<Rightarrow> AdItem list) \<Rightarrow> TimelineEntry option \<Rightarrow> AdItem list" where
  "pod_for pod_of eo = (case eo of None \<Rightarrow> [] | Some e \<Rightarrow> if te_Type e = ''ad_break'' then pod_of (te_Start e) else [])"

definition ref_clip :: "Config \<Rightarrow> TimelineEntry list \<Rightarrow> (gtime \<Rightarrow> AdItem list) \<Rightarrow> gtime \<Rightarrow> ClipItem" where
  "ref_clip cfg entries pod_of ts = entry_clip cfg ts (findEntry entries ts) (pod_for pod_of (findEntry entries ts))"

fun mark_all :: "string \<Rightarrow> ClipItem list \<Rightarrow> ClipItem list" where
  "mark_all p [] = []"
| "mark_all p (c # cs) = mark_boundary p c # mark_all (ci_Type c) cs"

definition quanta :: "Config \<Rightarrow> gtime \<Rightarrow> nat \<Rightarrow> gtime list" where
  "quanta cfg ts n = map (\<lambda>i. ts + int i * seconds (cfg_SegmentSec cfg)) [0..<n]"

definition ref_plan :: "Config \<Rightarrow> TimelineEntry list \<Rightarrow> (gtime \<Rightarrow> AdItem list) \<Rightarrow> gtime \<Rightarrow> string \<Rightarrow> nat \<Rightarrow> ClipItem list" where
  "ref_plan cfg entries pod_of ts p n = mark_all p (map (ref_clip cfg entries pod_of) (quanta cfg ts n))"

lemma length_mark_all [simp]: "length (mark_all p cs) = length cs"
  by (induction p cs rule: mark_all.induct) simp_all

lemma mark_boundary_fields [simp]:
  "ci_Type (mark_boundary p c) = ci_Type c" "ci_StartAt (mark_boundary p c) = ci_StartAt c" "ci_Seq (mark_boundary p c) = ci_Seq c"
  "ci_DurationS (mark_boundary p c) = ci_DurationS c" "ci_BreakStart (mark_boundary p c) = ci_BreakStart c"
  by (simp_all add: mark_boundary_def)

lemma mark_all_nth: "i < length cs \<Longrightarrow> mark_all p cs ! i = mark_boundary (if i = 0 then p else ci_Type (cs ! (i - 1))) (cs ! i)"
proof (induction p cs arbitrary: i rule: mark_all.induct)
  case (2 p c cs)
  then show ?case by (cases i) (auto simp: nth_Cons')
qed simp

lemma length_quanta [simp]: "length (quanta cfg ts n) = n"
  by (simp add: quanta_def)

lemma length_ref_plan [simp]: "length (ref_plan cfg entries pod_of ts p n) = n"
  by (simp add: ref_plan_def)

lemma quanta_Suc: "quanta cfg ts (Suc n) = ts # quanta cfg (ts + seconds (cfg_SegmentSec cfg)) n"
  unfolding quanta_def by (simp add: upt_conv_Cons map_Suc_upt [symmetric] o_def algebra_simps del: upt_Suc)

lemma ref_plan_Suc:
  "ref_plan cfg entries pod_of ts p (Suc n) =
     mark_boundary p (ref_clip cfg entries pod_of ts)
       # ref_plan cfg entries pod_of (ts + seconds (cfg_SegmentSec cfg)) (ci_Type (ref_clip cfg entries pod_of ts)) n"
  by (simp add: ref_plan_def quanta_Suc)

lemma ref_plan_nth:
  assumes "i < n"
  shows "ref_plan cfg entries pod_of ts p n ! i =
    mark_boundary (if i = 0 then p else ci_Type (ref_clip cfg entries pod_of (ts + (int i - 1) * seconds (cfg_SegmentSec cfg))))
      (ref_clip cfg entries pod_of (ts + int i * seconds (cfg_SegmentSec cfg)))"
  using assms by (simp add: ref_plan_def mark_all_nth quanta_def)

text \<open>One round of the loop: it is over, it is held back by a pod, or it makes a clip and goes on.\<close>

lemma plan_loop_elim:
  assumes "plan_loop cfg entries ps env now stop ts p s = (out, s')"
  obtains (over) "out = []" "s' = s" "stop < ts \<or> seconds (cfg_SegmentSec cfg) \<le> 0"
  | (held) "out = []" "ts \<le> stop" "ask_pod cfg ps now (env ts) ts (findEntry entries ts) s = (None, s')"
  | (clip) pod s1 out' where "ts \<le> stop" "ask_pod cfg ps now (env ts) ts (findEntry entries ts) s = (Some pod, s1)"
      "out = mark_boundary p (entry_clip cfg ts (findEntry entries ts) pod) # out'"
      "plan_loop cfg entries ps env now stop (ts + seconds (cfg_SegmentSec cfg)) (ci_Type (entry_clip cfg ts (findEntry entries ts) pod)) s1 = (out', s')"
  using assms by (auto simp: plan_loop.simps [of cfg entries ps env now stop ts] Let_def split: if_splits prod.splits option.splits)

lemma ask_pod_due: "ask_pod cfg ps now v ts eo s = (None, s') \<Longrightarrow> now + seconds (cfg_LiveLeadS cfg) < ts"
  by (auto simp: ask_pod_def Let_def split: option.splits if_splits prod.splits)

lemma ask_pod_other: "ask_pod cfg ps now v ts eo s = (Some pod, s') \<Longrightarrow> \<not> is_break eo \<Longrightarrow> pod = []"
  by (auto simp: ask_pod_def is_break_def split: option.splits if_splits)

subsection \<open>The planner against any pod source that keeps the contract\<close>

context pod_source
begin

lemma ask_pod_inv: "inv s \<Longrightarrow> ask_pod cfg ps now v ts eo s = (r, s') \<Longrightarrow> inv s'"
  using pod_inv giveUp_inv by (auto simp: ask_pod_def Let_def split: option.splits if_splits prod.splits) (metis snd_conv)+

lemma ask_pod_keeps:
  "inv s \<Longrightarrow> ask_pod cfg ps now v ts eo s = (r, s') \<Longrightarrow> decided s t = Some items \<Longrightarrow> decided s' t = Some items"
  using pod_keeps giveUp_of_other
  by (auto simp: ask_pod_def Let_def split: option.splits if_splits prod.splits) (metis snd_conv)+

lemma ask_pod_decides:
  "inv s \<Longrightarrow> ask_pod cfg ps now v ts (Some e) s = (Some pod, s') \<Longrightarrow> te_Type e = ''ad_break'' \<Longrightarrow> decided s' (te_Start e) = Some pod"
  using pod_decides giveUp_decides by (auto simp: ask_pod_def Let_def split: if_splits prod.splits)

lemma plan_loop_inv: "inv s \<Longrightarrow> plan_loop cfg entries ps env now stop ts p s = (out, s') \<Longrightarrow> inv s'"
proof (induction out arbitrary: ts p s)
  case (Cons c out)
  from Cons.prems(2) show ?case
  proof (cases rule: plan_loop_elim)
    case (clip pod s1 out')
    then show ?thesis using Cons.IH ask_pod_inv [OF Cons.prems(1)] by blast
  qed simp_all
qed (auto elim!: plan_loop_elim intro: ask_pod_inv)

lemma plan_loop_keeps:
  "inv s \<Longrightarrow> plan_loop cfg entries ps env now stop ts p s = (out, s') \<Longrightarrow> decided s t = Some items \<Longrightarrow> decided s' t = Some items"
proof (induction out arbitrary: ts p s)
  case (Cons c out)
  from Cons.prems(2) show ?case
  proof (cases rule: plan_loop_elim)
    case (clip pod s1 out')
    then show ?thesis using Cons.IH Cons.prems(3) ask_pod_inv [OF Cons.prems(1)] ask_pod_keeps [OF Cons.prems(1)] by blast
  qed simp_all
qed (auto elim!: plan_loop_elim intro: ask_pod_keeps)

lemma head_pod:
  assumes "inv s" "ask_pod cfg ps now v ts eo s = (Some pod, s1)" "plan_loop cfg entries ps env now stop ts' p s1 = (out, s')"
  shows "pod = pod_for (\<lambda>t. the (decided s' t)) eo"
    and "eo = Some e \<Longrightarrow> te_Type e = ''ad_break'' \<Longrightarrow> decided s' (te_Start e) = Some pod"
proof -
  show dec: "decided s' (te_Start e) = Some pod" if "eo = Some e" "te_Type e = ''ad_break''" for e
    using that assms ask_pod_decides ask_pod_inv plan_loop_keeps by metis
  show "pod = pod_for (\<lambda>t. the (decided s' t)) eo"
  proof (cases "is_break eo")
    case True
    then show ?thesis using dec by (auto simp: is_break_def pod_for_def split: option.splits)
  next
    case False
    then show ?thesis using ask_pod_other [OF assms(2)] by (auto simp: is_break_def pod_for_def split: option.splits)
  qed
qed

lemma plan_loop_ref:
  "inv s \<Longrightarrow> plan_loop cfg entries ps env now stop ts p s = (out, s')
    \<Longrightarrow> out = ref_plan cfg entries (\<lambda>t. the (decided s' t)) ts p (length out)"
proof (induction out arbitrary: ts p s)
  case Nil
  then show ?case by (simp add: ref_plan_def quanta_def)
next
  case (Cons c out)
  from Cons.prems(2) show ?case
  proof (cases rule: plan_loop_elim)
    case (clip pod s1 out')
    have "entry_clip cfg ts (findEntry entries ts) pod = ref_clip cfg entries (\<lambda>t. the (decided s' t)) ts"
      using head_pod(1) [OF Cons.prems(1) clip(2,4)] by (simp add: ref_clip_def)
    moreover have "inv s1" using ask_pod_inv [OF Cons.prems(1) clip(2)] .
    ultimately show ?thesis using Cons.IH [of s1] clip(3,4) by (simp add: ref_plan_Suc)
  qed simp_all
qed

lemma plan_loop_decided:
  "inv s \<Longrightarrow> plan_loop cfg entries ps env now stop ts p s = (out, s') \<Longrightarrow> i < length out
    \<Longrightarrow> findEntry entries (ts + int i * seconds (cfg_SegmentSec cfg)) = Some e \<Longrightarrow> te_Type e = ''ad_break''
    \<Longrightarrow> decided s' (te_Start e) \<noteq> None"
proof (induction out arbitrary: ts p s i)
  case (Cons c out)
  from Cons.prems(2) show ?case
  proof (cases rule: plan_loop_elim)
    case (clip pod s1 out')
    have inv: "inv s1" using ask_pod_inv [OF Cons.prems(1) clip(2)] .
    show ?thesis
    proof (cases i)
      case 0
      then show ?thesis using head_pod(2) [OF Cons.prems(1) clip(2,4)] Cons.prems(4,5) by simp
    next
      case (Suc j)
      then show ?thesis using Cons.IH [OF inv, of _ _ j] Cons.prems(3-5) clip(3,4) by (simp add: algebra_simps)
    qed
  qed simp_all
qed simp

lemma break_clips_agree:
  assumes "inv s" and "buildPlan now1 cfg entries1 ps env1 s = (out1, s1)" and "pods_run ps bg (te_Start e) s1 s2"
    and "buildPlan now2 cfg entries2 ps env2 s2 = (out2, s3)"
    and "i < length out1" "j < length out2" "now1 + int i * seconds (cfg_SegmentSec cfg) = ts" "now2 + int j * seconds (cfg_SegmentSec cfg) = ts"
    and "findEntry entries1 ts = Some e" "findEntry entries2 ts = Some e" "te_Type e = ''ad_break''"
  shows "\<exists>c. out1 ! i \<in> {c, c\<lparr>ci_Discontinuity := True\<rparr>} \<and> out2 ! j \<in> {c, c\<lparr>ci_Discontinuity := True\<rparr>}"
proof -
  note l1 = assms(2) [unfolded buildPlan_def] and l2 = assms(4) [unfolded buildPlan_def]
  have "decided s1 (te_Start e) \<noteq> None" using plan_loop_decided [OF assms(1) l1 assms(5)] assms(7,9,11) by blast
  then obtain items where d1: "decided s1 (te_Start e) = Some items" by blast
  have i1: "inv s1" and i2: "inv s2" using plan_loop_inv [OF assms(1) l1] run_inv [OF assms(3)] by blast+
  have d3: "decided s3 (te_Start e) = Some items" using plan_loop_keeps [OF i2 l2 run_keeps [OF assms(3) i1 d1]] .
  let ?c = "entry_clip cfg ts (Some e) items"
  have "ref_clip cfg entries1 (\<lambda>t. the (decided s1 t)) ts = ?c" "ref_clip cfg entries2 (\<lambda>t. the (decided s3 t)) ts = ?c"
    using assms(9-11) d1 d3 by (simp_all add: ref_clip_def pod_for_def)
  then have "\<exists>q. out1 ! i = mark_boundary q ?c" "\<exists>q. out2 ! j = mark_boundary q ?c"
    using ref_plan_nth [OF assms(5), of cfg entries1 "\<lambda>t. the (decided s1 t)" now1 "''''"] plan_loop_ref [OF assms(1) l1]
      ref_plan_nth [OF assms(6), of cfg entries2 "\<lambda>t. the (decided s3 t)" now2 "''''"] plan_loop_ref [OF i2 l2] assms(7,8) by metis+
  then show ?thesis unfolding mark_boundary_def by (metis insertCI)
qed

end

text \<open>How far a plan reaches: never past its end, and at least over every quantum that is due.\<close>

lemma plan_loop_length:
  assumes "plan_loop cfg entries ps env now stop ts p s = (out, s')" "0 < seconds (cfg_SegmentSec cfg)"
  shows "i < length out \<Longrightarrow> ts + int i * seconds (cfg_SegmentSec cfg) \<le> stop"
    and "ts + int i * seconds (cfg_SegmentSec cfg) \<le> stop \<Longrightarrow>
      ts + int i * seconds (cfg_SegmentSec cfg) \<le> now + seconds (cfg_LiveLeadS cfg) \<Longrightarrow> i < length out"
  using assms(1)
proof (induction out arbitrary: ts p s i)
  case Nil
  {
    case 1
    then show ?case by simp
  next
    case 2
    have "0 \<le> int i * seconds (cfg_SegmentSec cfg)" using assms(2) by simp
    then have ts: "ts \<le> stop" "ts \<le> now + seconds (cfg_LiveLeadS cfg)" using 2(1,2) by linarith+
    from 2(3) show ?case
    proof (cases rule: plan_loop_elim)
      case over
      then show ?thesis using ts assms(2) by simp
    next
      case held
      then show ?thesis using ts ask_pod_due [OF held(3)] by simp
    qed simp
  }
next
  case (Cons c out)
  {
    case 1
    from 1(2) show ?case
    proof (cases rule: plan_loop_elim)
      case (clip pod s1 out')
      then have "i - 1 < length out \<Longrightarrow> ts + seconds (cfg_SegmentSec cfg) + int (i - 1) * seconds (cfg_SegmentSec cfg) \<le> stop"
        using Cons.IH(1) by blast
      then show ?thesis using clip(1) 1(1) by (cases i) (auto simp: algebra_simps)
    qed simp_all
  next
    case 2
    from 2(3) show ?case
    proof (cases rule: plan_loop_elim)
      case (clip pod s1 out')
      have "ts + seconds (cfg_SegmentSec cfg) + int (i - 1) * seconds (cfg_SegmentSec cfg) \<le> min stop (now + seconds (cfg_LiveLeadS cfg))
          \<Longrightarrow> i - 1 < length out"
        using Cons.IH(2) clip(3,4) by (simp add: min_def split: if_splits)
      then show ?thesis using 2(1,2) by (cases i) (auto simp: algebra_simps)
    qed simp_all
  }
qed

subsection \<open>What a clip is\<close>

lemma length_mark_first [simp]: "length (mark_first out) = length out"
  by (simp add: mark_first_def split: list.splits)

lemma length_buildAdBreakQuanta [simp]:
  "length (buildAdBreakQuanta br items cfg) = nat (go_div (te_DurationS br) (cfg_SegmentSec cfg))"
  by (simp add: buildAdBreakQuanta_def Let_def)

lemma mark_first_nth: "j < length out \<Longrightarrow> mark_first out ! j = (if j = 0 then (out ! j)\<lparr>ci_Discontinuity := True\<rparr> else out ! j)"
  by (cases out) (auto simp: mark_first_def nth_Cons')

lemma mark_pad_trim_nth:
  assumes "j < q"
  shows "mark_first (if length (xs @ replicate (q - length xs) c) > q then take q (xs @ replicate (q - length xs) c) else xs @ replicate (q - length xs) c) ! j
    = (let d = (if j < length xs then xs ! j else c) in if j = 0 then d\<lparr>ci_Discontinuity := True\<rparr> else d)"
  using assms by (subst mark_first_nth) (auto simp: nth_append)

lemma buildAdBreakQuanta_nth:
  assumes "j < nat (go_div (te_DurationS br) (cfg_SegmentSec cfg))"
  shows "buildAdBreakQuanta br items cfg ! j =
    (let out = concat (map (ad_quanta cfg) items); c = (if j < length out then out ! j else slate_quantum cfg)
     in if j = 0 then c\<lparr>ci_Discontinuity := True\<rparr> else c)"
  unfolding buildAdBreakQuanta_def Let_def
  using mark_pad_trim_nth [OF assms, of "concat (map (ad_quanta cfg) items)" "slate_quantum cfg"] by (simp only: Let_def)

lemma entry_clip_base [simp]:
  "ci_StartAt (entry_clip cfg ts eo pod) = ts"
  "ci_Seq (entry_clip cfg ts eo pod) = quantSeq ts (cfg_SegmentSec cfg)"
  "ci_DurationS (entry_clip cfg ts eo pod) = cfg_SegmentSec cfg"
  by (auto simp: entry_clip_def base_clip_def to_slate_def program_clip_def break_clip_def Let_def zero_clip_def split: option.splits)

lemma plan_loop_clip:
  "plan_loop cfg entries ps env now stop ts p s = (out, s') \<Longrightarrow> i < length out \<Longrightarrow>
    ci_StartAt (out ! i) = ts + int i * seconds (cfg_SegmentSec cfg) \<and>
    ci_Seq (out ! i) = quantSeq (ts + int i * seconds (cfg_SegmentSec cfg)) (cfg_SegmentSec cfg) \<and>
    ci_DurationS (out ! i) = cfg_SegmentSec cfg"
proof (induction out arbitrary: ts p s i)
  case (Cons c out)
  from Cons.prems(1) show ?case
  proof (cases rule: plan_loop_elim)
    case (clip pod s1 out')
    show ?thesis
    proof (cases i)
      case 0
      then show ?thesis using clip(3) by simp
    next
      case (Suc k)
      then show ?thesis using Cons.IH [of _ _ _ k] Cons.prems(2) clip(3,4) by (simp add: algebra_simps)
    qed
  qed simp_all
qed simp

lemma go_div_1 [simp]: "go_div a 1 = a"
  by (simp add: go_div_def sgn_mult_abs)

lemma Unix_add [simp]: "Unix (t + int i * second) = Unix t + int i"
  by (simp add: Unix_def)

text \<open>The pieces of a concatenation, by prefix sums.\<close>

lemma concat_nth_at:
  assumes "length (concat xs) \<le> j" "j < length (concat xs) + length y"
  shows "j < length (concat (xs @ y # ys)) \<and> concat (xs @ y # ys) ! j = y ! (j - length (concat xs))"
  using assms by (auto simp: nth_append)

lemma length_ad_quanta_1: "cfg_SegmentSec cfg = 1 \<Longrightarrow> length (ad_quanta cfg it) = nat (ad_DurationS it)"
  by (simp add: ad_quanta_def)

lemma length_quanta_of_items:
  "cfg_SegmentSec cfg = 1 \<Longrightarrow> \<forall>it \<in> set items. 0 \<le> ad_DurationS it
    \<Longrightarrow> int (length (concat (map (ad_quanta cfg) items))) = sum_list (map ad_DurationS items)"
  by (induction items) (auto simp: length_ad_quanta_1)

lemma break_quantum_ad:
  assumes "cfg_SegmentSec cfg = 1" "\<forall>it \<in> set pre. 0 \<le> ad_DurationS it"
    and "sum_list (map ad_DurationS pre) \<le> int j" "int j < sum_list (map ad_DurationS pre) + ad_DurationS it"
  shows "j < length (concat (map (ad_quanta cfg) (pre @ it # post)))"
    and "concat (map (ad_quanta cfg) (pre @ it # post)) ! j =
      zero_clip\<lparr>ci_URI := ad_URI it, ci_DurationS := 1, ci_OffsetS := int j - sum_list (map ad_DurationS pre), ci_Type := ''ad'', ci_Title := ad_CreativeID it\<rparr>"
proof -
  let ?n = "length (concat (map (ad_quanta cfg) pre))"
  have n: "int ?n = sum_list (map ad_DurationS pre)" using length_quanta_of_items assms(1,2) .
  have *: "?n \<le> j" "j < ?n + length (ad_quanta cfg it)"
    using assms(3,4) n length_ad_quanta_1 [OF assms(1), of it] by linarith+
  note at = concat_nth_at [OF *, of "map (ad_quanta cfg) post"]
  from at show "j < length (concat (map (ad_quanta cfg) (pre @ it # post)))" by simp
  have "ad_quanta cfg it ! (j - ?n) = zero_clip\<lparr>ci_URI := ad_URI it, ci_DurationS := 1, ci_OffsetS := int j - sum_list (map ad_DurationS pre),
      ci_Type := ''ad'', ci_Title := ad_CreativeID it\<rparr>"
    using * assms(1) length_ad_quanta_1 [OF assms(1), of it] by (simp add: ad_quanta_def n [symmetric] of_nat_diff)
  then show "concat (map (ad_quanta cfg) (pre @ it # post)) ! j =
      zero_clip\<lparr>ci_URI := ad_URI it, ci_DurationS := 1, ci_OffsetS := int j - sum_list (map ad_DurationS pre), ci_Type := ''ad'', ci_Title := ad_CreativeID it\<rparr>"
    using at by simp
qed

lemma entry_clip_break:
  fixes pod :: "AdItem list"
  assumes "cfg_SegmentSec cfg = 1" "dur_ok (te_DurationS e)" "te_Type e = ''ad_break''" "ts = te_Start e + int j * second" "int j < te_DurationS e"
  defines "q \<equiv> (if j < length (concat (map (ad_quanta cfg) pod)) then concat (map (ad_quanta cfg) pod) ! j else slate_quantum cfg)"
  shows "ci_Type (entry_clip cfg ts (Some e) pod) = ci_Type q" "ci_URI (entry_clip cfg ts (Some e) pod) = ci_URI q"
    and "ci_BreakStart (entry_clip cfg ts (Some e) pod) = te_Start e" "ci_BreakDurS (entry_clip cfg ts (Some e) pod) = te_DurationS e"
    and "ci_Type q \<noteq> ''slate'' \<Longrightarrow> ci_OffsetS (entry_clip cfg ts (Some e) pod) = ci_OffsetS q"
    and "ci_Type q \<noteq> ''slate'' \<Longrightarrow> ci_Title (entry_clip cfg ts (Some e) pod) = ci_Title q"
proof -
  have j: "int j * second < 2 ^ 63" using assms(2,5) by (simp add: dur_ok_def)
  have idx: "go_div (Sub ts (te_Start e)) (seconds (cfg_SegmentSec cfg)) = int j"
    using j assms(1,4) by simp
  have jl: "j < nat (go_div (te_DurationS e) (cfg_SegmentSec cfg))" using assms(1,5) by simp
  have quantum: "buildAdBreakQuanta e pod cfg ! j = (if j = 0 then q\<lparr>ci_Discontinuity := True\<rparr> else q)"
    using buildAdBreakQuanta_nth [OF jl, of pod] by (simp add: q_def Let_def)
  have "break_clip cfg ts e pod (base_clip cfg ts) =
      (if j = 0 then q\<lparr>ci_Discontinuity := True\<rparr> else q)\<lparr>ci_Seq := quantSeq ts (cfg_SegmentSec cfg), ci_StartAt := ts, ci_DurationS := cfg_SegmentSec cfg,
        ci_EntryStart := te_Start e, ci_BreakStart := te_Start e, ci_BreakDurS := te_DurationS e, ci_SCTE35 := te_SCTE35 e\<rparr>"
    unfolding break_clip_def idx Let_def using jl quantum by (simp add: base_clip_def)
  then show "ci_Type (entry_clip cfg ts (Some e) pod) = ci_Type q" "ci_URI (entry_clip cfg ts (Some e) pod) = ci_URI q"
    "ci_BreakStart (entry_clip cfg ts (Some e) pod) = te_Start e" "ci_BreakDurS (entry_clip cfg ts (Some e) pod) = te_DurationS e"
    "ci_Type q \<noteq> ''slate'' \<Longrightarrow> ci_OffsetS (entry_clip cfg ts (Some e) pod) = ci_OffsetS q"
    "ci_Type q \<noteq> ''slate'' \<Longrightarrow> ci_Title (entry_clip cfg ts (Some e) pod) = ci_Title q"
    by (auto simp: entry_clip_def Let_def assms(3))
qed

subsection \<open>Properties of the planner\<close>

text \<open>C1. The plan of the engine, whatever the ads service does, is a prefix of the reference plan: the clip of every
  quantum is the one that the schedule and the settled pods give, and every break in the plan has a settled pod.\<close>

theorem buildPlan_reference:
  assumes "any_inv (fst s)" and "buildPlan now cfg entries (notifyingPods any_source f) env s = (out, s')"
  shows "out = ref_plan cfg entries (\<lambda>t. the (any_decided (fst s') t)) now '''' (length out) \<and>
    (\<forall>i < length out. \<forall>e. findEntry entries (now + int i * seconds (cfg_SegmentSec cfg)) = Some e \<and> te_Type e = ''ad_break''
       \<longrightarrow> any_decided (fst s') (te_Start e) \<noteq> None)"
  using engine_pods.plan_loop_ref [OF assms(1) assms(2) [unfolded buildPlan_def]]
    engine_pods.plan_loop_decided [OF assms(1) assms(2) [unfolded buildPlan_def]] by blast

lemma buildPlan_clips:
  assumes "buildPlan now cfg entries ps env s = (out, s')" "cfg_SegmentSec cfg = SegmentSec" "i < length out"
  shows "ci_StartAt (out ! i) = now + int i * second \<and> ci_Seq (out ! i) = Unix now + int i \<and> ci_DurationS (out ! i) = 1"
proof -
  have "seconds (cfg_SegmentSec cfg) = second" using assms(2) by (simp add: SegmentSec_def)
  then show ?thesis using plan_loop_clip [OF assms(1) [unfolded buildPlan_def] assms(3)] assms(2) by (auto simp: SegmentSec_def quantSeq_def)
qed

lemma buildPlan_lead:
  assumes "buildPlan now cfg entries ps env s = (out, s')" "cfg_SegmentSec cfg = SegmentSec"
    and "0 \<le> cfg_LiveLeadS cfg" "cfg_LiveLeadS cfg < ahead_of cfg" "ahead_of cfg \<le> max_seconds"
  shows "cfg_LiveLeadS cfg < int (length out) \<and> int (length out) \<le> ahead_of cfg"
proof -
  note l = assms(1) [unfolded buildPlan_def]
  have seg: "seconds (cfg_SegmentSec cfg) = second" using assms(2) by (simp add: SegmentSec_def)
  have sec: "seconds (ahead_of cfg) = ahead_of cfg * second" "seconds (cfg_LiveLeadS cfg) = cfg_LiveLeadS cfg * second"
    using assms(3-5) by simp_all
  have "int (nat (cfg_LiveLeadS cfg)) < int (length out)"
    using plan_loop_length(2) [OF l, of "nat (cfg_LiveLeadS cfg)"] assms(3,4) by (simp add: seg sec)
  moreover have "int (length out) \<le> ahead_of cfg"
    using plan_loop_length(1) [OF l, of "length out - 1"] assms(3,4) by (cases "length out") (auto simp: seg sec)
  ultimately show ?thesis using assms(3) by simp
qed

text \<open>A slate clip plays the slate at the second of the day it is on.\<close>

lemma ad_quanta_type: "c \<in> set (concat (map (ad_quanta cfg) items)) \<Longrightarrow> ci_Type c = ''ad''"
  by (auto simp: ad_quanta_def)

lemma entry_clip_slate:
  assumes "ci_Type (entry_clip cfg ts eo pod) = ''slate''"
  shows "ci_URI (entry_clip cfg ts eo pod) = cfg_SlateURI cfg \<and> ci_OffsetS (entry_clip cfg ts eo pod) = Unix ts"
proof -
  have br: "ci_URI (break_clip cfg ts e pod it) = cfg_SlateURI cfg" if "ci_Type (break_clip cfg ts e pod it) = ''slate''" for e it
  proof -
    let ?idx = "go_div (Sub ts (te_Start e)) (seconds (cfg_SegmentSec cfg))" and ?out = "concat (map (ad_quanta cfg) pod)"
    show ?thesis
    proof (cases "0 \<le> ?idx \<and> ?idx < int (length (buildAdBreakQuanta e pod cfg))")
      case True
      then have j: "nat ?idx < nat (go_div (te_DurationS e) (cfg_SegmentSec cfg))" by (auto simp: nat_less_iff split: if_splits)
      show ?thesis
        using that True ad_quanta_type [OF nth_mem, of "nat ?idx" cfg pod]
        by (auto simp: break_clip_def Let_def buildAdBreakQuanta_nth [OF j] slate_quantum_def split: if_splits)
    qed (use that in \<open>auto simp: break_clip_def Let_def to_slate_def\<close>)
  qed
  show ?thesis using assms br
    by (auto simp: entry_clip_def program_clip_def to_slate_def Let_def split: option.splits if_splits)
qed

lemma plan_loop_slate:
  "plan_loop cfg entries ps env now stop ts p s = (out, s') \<Longrightarrow> c \<in> set out \<Longrightarrow> ci_Type c = ''slate''
    \<Longrightarrow> ci_URI c = cfg_SlateURI cfg \<and> ci_OffsetS c = Unix (ci_StartAt c)"
proof (induction out arbitrary: ts p s)
  case (Cons d out)
  from Cons.prems(1) show ?case
  proof (cases rule: plan_loop_elim)
    case (clip pod s1 out')
    show ?thesis
    proof (cases "c = d")
      case True
      have "ci_Type (entry_clip cfg ts (findEntry entries ts) pod) = ''slate''" using clip(3) True Cons.prems(3) by (simp add: mark_boundary_def split: if_splits)
      from entry_clip_slate [OF this] show ?thesis using clip(3) True by (simp add: mark_boundary_def)
    next
      case False
      then show ?thesis using Cons.IH clip(3,4) Cons.prems(2,3) by auto
    qed
  qed simp_all
qed simp

text \<open>C2. The planner never holds back a clip that is due: the plan has every quantum up to the live lead (within the
  planned time), one clip per second, without holes, with consecutive sequence numbers, and it never passes its end.\<close>

theorem buildPlan_covers_due:
  assumes "buildPlan now cfg entries ps env s = (out, s')" and "cfg_SegmentSec cfg = SegmentSec"
    and "0 \<le> cfg_LiveLeadS cfg" and "cfg_LiveLeadS cfg < ahead_of cfg" and "ahead_of cfg \<le> max_seconds"
  shows "cfg_LiveLeadS cfg < int (length out) \<and> int (length out) \<le> ahead_of cfg \<and>
    (\<forall>i < length out. ci_StartAt (out ! i) = now + int i * second \<and> ci_Seq (out ! i) = Unix now + int i \<and> ci_DurationS (out ! i) = 1)"
  using buildPlan_lead [OF assms] buildPlan_clips [OF assms(1,2)] by blast

text \<open>A break plays its pod in order: the clip of second \<open>j\<close> of a break is an ad exactly when the pod reaches that
  far, and then it is the item whose turn it is, at the second of that item; past the pod it is the slate. Every clip
  belongs to the break, and the break has one quantum per second of the schedule entry.\<close>

theorem break_plays_pod:
  assumes "cfg_SegmentSec cfg = SegmentSec" and "dur_ok (te_DurationS e)" and "te_Type e = ''ad_break''"
    and "\<forall>it \<in> set pod. 0 \<le> ad_DurationS it" and "int j < te_DurationS e"
  defines "c \<equiv> entry_clip cfg (te_Start e + int j * second) (Some e) pod"
  shows "length (buildAdBreakQuanta e pod cfg) = nat (te_DurationS e) \<and>
    ci_BreakStart c = te_Start e \<and> ci_BreakDurS c = te_DurationS e \<and>
    (pod = pre @ it # post \<and> sum_list (map ad_DurationS pre) \<le> int j \<and> int j < sum_list (map ad_DurationS pre) + ad_DurationS it \<longrightarrow>
       ci_Type c = ''ad'' \<and> ci_URI c = ad_URI it \<and> ci_Title c = ad_CreativeID it \<and> ci_OffsetS c = int j - sum_list (map ad_DurationS pre)) \<and>
    (sum_list (map ad_DurationS pod) \<le> int j \<longrightarrow> ci_Type c = ''slate'' \<and> ci_URI c = cfg_SlateURI cfg)"
proof -
  have seg: "cfg_SegmentSec cfg = 1" using assms(1) by (simp add: SegmentSec_def)
  note clip = entry_clip_break [OF seg assms(2,3) refl assms(5), of pod]
  show ?thesis
  proof (intro conjI impI)
    assume a: "pod = pre @ it # post \<and> sum_list (map ad_DurationS pre) \<le> int j \<and> int j < sum_list (map ad_DurationS pre) + ad_DurationS it"
    then have pre: "\<forall>it \<in> set pre. 0 \<le> ad_DurationS it" using assms(4) by auto
    note q = break_quantum_ad [OF seg pre, of j it post]
    have at: "j < length (concat (map (ad_quanta cfg) pod))"
      "concat (map (ad_quanta cfg) pod) ! j = zero_clip\<lparr>ci_URI := ad_URI it, ci_DurationS := 1,
        ci_OffsetS := int j - sum_list (map ad_DurationS pre), ci_Type := ''ad'', ci_Title := ad_CreativeID it\<rparr>"
      using q a by blast+
    show "ci_Type c = ''ad''" "ci_URI c = ad_URI it" "ci_Title c = ad_CreativeID it" "ci_OffsetS c = int j - sum_list (map ad_DurationS pre)"
      using clip at by (simp_all add: c_def)
  next
    assume "sum_list (map ad_DurationS pod) \<le> int j"
    then have "\<not> j < length (concat (map (ad_quanta cfg) pod))" using length_quanta_of_items [OF seg assms(4)] by linarith
    then show "ci_Type c = ''slate''" "ci_URI c = cfg_SlateURI cfg" using clip by (simp_all add: c_def slate_quantum_def)
  qed (use clip seg in \<open>simp_all add: c_def\<close>)
qed

text \<open>The plan follows the schedule: at a second that a program covers it plays the source of the program from the
  second that the schedule says (its offset plus the time since its start); at a second that no entry covers, and in a
  scheduled slate, it plays the slate.\<close>

theorem clip_follows_schedule:
  fixes cfg :: Config and pod_of :: "gtime \<Rightarrow> AdItem list" and ts :: gtime
  assumes "\<forall>e \<in> set entries. dur_ok (te_DurationS e)"
  defines "c \<equiv> ref_clip cfg entries pod_of ts"
  shows "(findEntry entries ts = Some e \<and> te_Type e \<in> {''content'', ''bumper''} \<longrightarrow>
       covers e ts \<and> ci_Type c = te_Type e \<and> ci_URI c = te_URI e \<and> ci_EntryStart c = te_Start e \<and>
       ci_OffsetS c = te_OffsetS e + (ts - te_Start e) div second \<and> \<not> ci_Discontinuity c) \<and>
    ((\<forall>e \<in> set entries. covers e ts \<longrightarrow> te_Type e = ''slate'') \<longrightarrow>
       ci_Type c = ''slate'' \<and> ci_URI c = cfg_SlateURI cfg \<and> ci_OffsetS c = Unix ts \<and> ci_BreakStart c = zero_time)"
proof (intro conjI impI)
  assume a: "findEntry entries ts = Some e \<and> te_Type e \<in> {''content'', ''bumper''}"
  then have e: "e \<in> set entries" and cov: "covers e ts" by (auto simp: findEntry_def find_Some_iff)
  have "0 \<le> ts - te_Start e" "ts - te_Start e < 2 ^ 63" using cov endOf_ok [of e] assms(1) e by (auto simp: covers_def dur_ok_def)
  then have "go_div (Sub ts (te_Start e)) second = (ts - te_Start e) div second" by simp
  then show "covers e ts" "ci_Type c = te_Type e" "ci_URI c = te_URI e" "ci_EntryStart c = te_Start e"
    "ci_OffsetS c = te_OffsetS e + (ts - te_Start e) div second" "\<not> ci_Discontinuity c"
    using a cov by (auto simp: c_def ref_clip_def entry_clip_def program_clip_def base_clip_def zero_clip_def Let_def)
next
  assume a: "\<forall>e \<in> set entries. covers e ts \<longrightarrow> te_Type e = ''slate''"
  have "findEntry entries ts = None \<or> (\<exists>e. findEntry entries ts = Some e \<and> te_Type e = ''slate'')"
    using a by (cases "findEntry entries ts") (auto simp: findEntry_def find_Some_iff)
  then show "ci_Type c = ''slate''" "ci_URI c = cfg_SlateURI cfg" "ci_OffsetS c = Unix ts" "ci_BreakStart c = zero_time"
    by (auto simp: c_def ref_clip_def entry_clip_def to_slate_def base_clip_def zero_clip_def Let_def)
qed

text \<open>C3. A break is one pod across ticks: two plans of the same break, however long apart within an hour of its start and
  whatever the ads service answered in between, agree on every second of it (up to the discontinuity mark, which depends on
  where a plan starts).\<close>

theorem plans_agree_on_break:
  assumes "any_inv (fst s)" and "buildPlan now1 cfg entries1 (notifyingPods any_source f) env1 s = (out1, s1)"
    and "pods_run (notifyingPods any_source f) (\<lambda>w sh. (any_bg w (fst sh), snd sh)) (te_Start e) s1 s2"
    and "buildPlan now2 cfg entries2 (notifyingPods any_source f) env2 s2 = (out2, s3)"
    and "i < length out1" "j < length out2" "now1 + int i * seconds (cfg_SegmentSec cfg) = ts" "now2 + int j * seconds (cfg_SegmentSec cfg) = ts"
    and "findEntry entries1 ts = Some e" "findEntry entries2 ts = Some e" "te_Type e = ''ad_break''"
  shows "\<exists>c. out1 ! i \<in> {c, c\<lparr>ci_Discontinuity := True\<rparr>} \<and> out2 ! j \<in> {c, c\<lparr>ci_Discontinuity := True\<rparr>}"
  by (rule engine_pods.break_clips_agree [OF assms])

subsection \<open>Witnesses\<close>

definition w_sched :: "TimelineEntry list" where
  "w_sched = [zero_entry\<lparr>te_Type := ''content'', te_URI := ''s3://m/film.m3u8'', te_Start := 0, te_DurationS := 2, te_OffsetS := 40\<rparr>,
     zero_entry\<lparr>te_Type := ''ad_break'', te_Start := 2 * second, te_DurationS := 3\<rparr>]"

definition w_cfg :: Config where
  "w_cfg = default_config\<lparr>cfg_PublishAheadS := 4, cfg_LiveLeadS := 1\<rparr>"

definition w_item :: AdItem where
  "w_item = \<lparr>ad_URI = ''s3://a/1.m3u8'', ad_DurationS = 2, ad_CreativeID = ''a1'', ad_Type = ''partner''\<rparr>"

abbreviation w_source :: "(pods \<times> gtime list, any_env) podSource" where
  "w_source \<equiv> notifyingPods any_source (\<lambda>t l. l @ [t])"

text \<open>The ads service answers while the second plan waits for it.\<close>

definition w_any_env :: "gtime \<Rightarrow> any_env" where
  "w_any_env ts = \<lparr>ae_broker = \<lparr>pv_now = ts, pv_arrivals = [(20 * millisecond, 0, Some [w_item])]\<rparr>, ae_registry = None\<rparr>"

lemmas plan_eval = buildPlan_def plan_loop.simps ahead_of_def w_cfg_def default_config_def SegmentSec_def findEntry_def w_sched_def
  covers_def endOf_def zero_entry_def ask_pod_def is_break_def entry_clip_def base_clip_def program_clip_def break_clip_def to_slate_def
  buildAdBreakQuanta_def ad_quanta_def slate_quantum_def mark_first_def mark_boundary_def zero_clip_def quantSeq_def Unix_def zero_time_def
  notifyingPods_def any_source_def broker_source_def broker_pod_def pod_start_def broker_ops fetch_end_def dueWait_def
  newAdBroker_def broker_giveUp_def w_any_env_def w_item_def

lemma w_plan1: "length (fst (buildPlan 0 w_cfg w_sched w_source w_any_env (Broker newAdBroker, []))) = 2"
  by (simp add: plan_eval Let_def)

lemma w_plan2: "length (fst (buildPlan (2 * second) w_cfg w_sched w_source w_any_env (Broker newAdBroker, []))) = 4"
  by (simp add: plan_eval Let_def)

lemma w_plan3: "length (fst (buildPlan (3 * second) w_cfg w_sched w_source w_any_env
    (snd (buildPlan (2 * second) w_cfg w_sched w_source w_any_env (Broker newAdBroker, []))))) = 4"
  by (simp add: plan_eval Let_def)

theorem buildPlan_reference_witness:
  "\<exists>s'. buildPlan (2 * second) w_cfg w_sched w_source w_any_env (Broker newAdBroker, [])
     = (ref_plan w_cfg w_sched (\<lambda>t. the (any_decided (fst s') t)) (2 * second) '''' 4, s')"
proof -
  obtain out s' where b: "buildPlan (2 * second) w_cfg w_sched w_source w_any_env (Broker newAdBroker, []) = (out, s')" by (metis surj_pair)
  have n: "length out = 4" using w_plan2 b by simp
  have "any_inv (fst (Broker newAdBroker, []))" by simp
  from buildPlan_reference [OF this b] have "out = ref_plan w_cfg w_sched (\<lambda>t. the (any_decided (fst s') t)) (2 * second) '''' 4"
    unfolding n by blast
  then show ?thesis using b by blast
qed

theorem buildPlan_covers_due_witness:
  "map ci_StartAt (take 2 (fst (buildPlan 0 w_cfg w_sched w_source w_any_env (Broker newAdBroker, [])))) = [0, second]"
proof -
  obtain out s' where b: "buildPlan 0 w_cfg w_sched w_source w_any_env (Broker newAdBroker, []) = (out, s')" by (metis surj_pair)
  have "1 < int (length out) \<and> (\<forall>i < length out. ci_StartAt (out ! i) = int i * second)"
    using buildPlan_covers_due [OF b] by (simp add: w_cfg_def default_config_def ahead_of_def)
  then have l: "1 < length out" and "\<forall>i < length out. ci_StartAt (out ! i) = int i * second" by simp_all
  then have at: "ci_StartAt (out ! i) = int i * second" if "i < length out" for i using that by blast
  have at01: "ci_StartAt (out ! 0) = 0" "ci_StartAt (out ! 1) = second" using at [OF order.strict_trans [OF zero_less_one l]] at [OF l] by simp_all
  obtain x y r where "out = x # y # r" using l by (cases out; cases "tl out") auto
  then show ?thesis using at01 b by simp
qed

theorem break_plays_pod_witness:
  "ci_URI (entry_clip w_cfg (3 * second) (Some (w_sched ! 1)) [w_item]) = ''s3://a/1.m3u8'' \<and>
   ci_OffsetS (entry_clip w_cfg (3 * second) (Some (w_sched ! 1)) [w_item]) = 1"
proof -
  have "\<forall>it \<in> set [w_item]. 0 \<le> ad_DurationS it" "dur_ok (te_DurationS (w_sched ! 1))" "te_Type (w_sched ! 1) = ''ad_break''"
    "cfg_SegmentSec w_cfg = SegmentSec" "int 1 < te_DurationS (w_sched ! 1)"
    by (simp_all add: w_item_def w_sched_def dur_ok_def w_cfg_def default_config_def)
  from break_plays_pod [OF this(4) this(2,3,1) this(5), of "[]" w_item "[]"]
  show ?thesis by (simp add: w_item_def w_sched_def)
qed

theorem clip_follows_schedule_witness:
  "ci_OffsetS (ref_clip w_cfg w_sched (\<lambda>_. []) second) = 41 \<and> ci_Type (ref_clip w_cfg w_sched (\<lambda>_. []) (9 * second)) = ''slate''"
proof -
  have ok: "\<forall>e \<in> set w_sched. dur_ok (te_DurationS e)" by (simp add: w_sched_def dur_ok_def)
  have f: "findEntry w_sched second = Some (w_sched ! 0)" by (simp add: w_sched_def findEntry_def covers_def endOf_def zero_entry_def)
  have g: "\<forall>e \<in> set w_sched. covers e (9 * second) \<longrightarrow> te_Type e = ''slate''" by (simp add: w_sched_def covers_def endOf_def zero_entry_def)
  have "te_Type (w_sched ! 0) \<in> {''content'', ''bumper''}" by (simp add: w_sched_def)
  then have "ci_OffsetS (ref_clip w_cfg w_sched (\<lambda>_. []) second) = te_OffsetS (w_sched ! 0) + (second - te_Start (w_sched ! 0)) div second"
    using clip_follows_schedule [OF ok, of second "w_sched ! 0" w_cfg "\<lambda>_. []"] f by blast
  moreover have "ci_Type (ref_clip w_cfg w_sched (\<lambda>_. []) (9 * second)) = ''slate''"
    using clip_follows_schedule [OF ok, of "9 * second" "w_sched ! 0" w_cfg "\<lambda>_. []"] g by blast
  ultimately show ?thesis by (simp add: w_sched_def)
qed

theorem plans_agree_on_break_witness:
  "\<exists>c. fst (buildPlan (2 * second) w_cfg w_sched w_source w_any_env (Broker newAdBroker, [])) ! 1 \<in> {c, c\<lparr>ci_Discontinuity := True\<rparr>} \<and>
     fst (buildPlan (3 * second) w_cfg w_sched w_source w_any_env
       (snd (buildPlan (2 * second) w_cfg w_sched w_source w_any_env (Broker newAdBroker, [])))) ! 0 \<in> {c, c\<lparr>ci_Discontinuity := True\<rparr>}"
proof -
  obtain out1 s1 where b1: "buildPlan (2 * second) w_cfg w_sched w_source w_any_env (Broker newAdBroker, []) = (out1, s1)" by (metis surj_pair)
  obtain out2 s2 where b2: "buildPlan (3 * second) w_cfg w_sched w_source w_any_env s1 = (out2, s2)" by (metis surj_pair)
  have l: "1 < length out1" "0 < length out2" using w_plan2 w_plan3 b1 b2 by simp_all
  have f: "findEntry w_sched (3 * second) = Some (w_sched ! 1)" "te_Type (w_sched ! 1) = ''ad_break''"
    by (simp_all add: w_sched_def findEntry_def covers_def endOf_def zero_entry_def)
  show ?thesis
    using plans_agree_on_break [OF _ b1 run_refl b2 l, of "3 * second" "w_sched ! 1"] f b1 b2
    by (simp add: w_cfg_def default_config_def SegmentSec_def)
qed

end
