(* ===== verification/Fmp4.thy ===== *)
theory Fmp4
  imports Complex_Main Bytes "HOL-Library.AList"
begin

unbundle bit_operations_syntax

text \<open>
  \<^verbatim>\<open>pkg/fmp4/fmp4.go\<close>: the MP4 boxes of an init section and of a media segment, and \<^verbatim>\<open>Retime\<close>, which moves a segment onto the
  timeline of the stream. Offsets are natural numbers into a list of bytes, decode times are 64-bit words with the
  wrap-around of \<^verbatim>\<open>int64\<close>. The tolerance is a fraction: the comparison of the source is on floats that are exact for
  the tolerance it is called with (0.25) and for tick counts below \<open>2 ^ 53\<close>, and monotone above.
\<close>

datatype mp4_error = TruncatedHeader nat | TruncatedLargeHeader nat | BoxTooLarge string | BadSize string nat nat | ShortBox
  | NoBox string | NoTracks | ShortTrex | ZeroTimescale | UnknownTrack "32 word" | ShortTfdt | NoFragments | ErrNoDuration
  | ShortTrun | ErrTfdtVersion | ErrOffGrid | BeforeStart

record Track =
  tk_ID :: "32 word"
  tk_Kind :: string
  tk_Timescale :: "32 word"
  tk_DefaultSampleDuration :: "32 word"

record Init =
  in_Tracks :: "(32 word \<times> Track) list"

record Fragment =
  fg_Track :: Track
  fg_Tfdt :: "64 word"
  fg_Duration :: "64 word"

record box =
  bx_typ :: string
  bx_start :: nat
  bx_hdr :: nat
  bx_size :: nat

definition bodyStart :: "box \<Rightarrow> nat" where "bodyStart x = bx_start x + bx_hdr x"
definition box_end :: "box \<Rightarrow> nat" where "box_end x = bx_start x + bx_size x"

text \<open>\<^verbatim>\<open>string(b[p:p+4])\<close>.\<close>

definition str4 :: "byte list \<Rightarrow> nat \<Rightarrow> string" where
  "str4 b p = map (\<lambda>x. char_of (unat x)) (take 4 (drop p b))"

text \<open>One round of the loop of \<^verbatim>\<open>children\<close>: the header at \<open>p\<close>.\<close>

definition box_header :: "byte list \<Rightarrow> nat \<Rightarrow> nat \<Rightarrow> mp4_error + box" where
  "box_header b p en =
     (if en - p < 8 then Inl (TruncatedHeader p)
      else
        let size = unat (Uint32 b p); typ = str4 b (p + 4) in
        if size = 1 \<and> en - p < 16 then Inl (TruncatedLargeHeader p)
        else if size = 1 \<and> unat (Uint64 b (p + 8)) > 2 ^ 31 - 1 then Inl (BoxTooLarge typ)
        else
          let hdr = (if size = 1 then 16 else 8);
              size = (if size = 1 then unat (Uint64 b (p + 8)) else if size = 0 then en - p else size)
          in if size < hdr \<or> p + size > en then Inl (BadSize typ p size)
             else Inr \<lparr>bx_typ = typ, bx_start = p, bx_hdr = hdr, bx_size = size\<rparr>)"

lemma box_header_InrD:
  "box_header b p en = Inr x \<Longrightarrow> bx_start x = p \<and> 8 \<le> bx_hdr x \<and> bx_hdr x \<le> bx_size x \<and> p + bx_size x \<le> en"
  by (auto simp: box_header_def Let_def split: if_splits)

function children :: "byte list \<Rightarrow> nat \<Rightarrow> nat \<Rightarrow> mp4_error + box list" where
  "children b p en =
     (if p < en then
        (case box_header b p en of
           Inl err \<Rightarrow> Inl err
         | Inr x \<Rightarrow> bindE (children b (p + bx_size x) en) (\<lambda>out. Inr (x # out)))
      else Inr [])"
  by pat_completeness auto
termination
  by (relation "measure (\<lambda>(b, p, en). en - p)") (auto dest!: box_header_InrD)

declare children.simps [simp del]

definition find_box :: "box list \<Rightarrow> string \<Rightarrow> box option" where
  "find_box bs typ = List.find (\<lambda>x. bx_typ x = typ) bs"

definition need_box :: "box list \<Rightarrow> string \<Rightarrow> mp4_error + box" where
  "need_box bs typ = (case find_box bs typ of None \<Rightarrow> Inl (NoBox typ) | Some x \<Rightarrow> Inr x)"

definition u8 :: "byte list \<Rightarrow> nat \<Rightarrow> mp4_error + byte" where
  "u8 b p = (if p \<ge> length b then Inl ShortBox else Inr (b ! p))"

definition u32 :: "byte list \<Rightarrow> nat \<Rightarrow> mp4_error + 32 word" where
  "u32 b p = (if p + 4 > length b then Inl ShortBox else Inr (Uint32 b p))"

subsection \<open>The init section\<close>

definition parseTrak :: "byte list \<Rightarrow> box \<Rightarrow> mp4_error + Track" where
  "parseTrak b trak =
     bindE (children b (bodyStart trak) (box_end trak)) (\<lambda>kids.
     bindE (need_box kids ''tkhd'') (\<lambda>tkhd.
     bindE (u8 b (bodyStart tkhd)) (\<lambda>ver.
     bindE (u32 b (bodyStart tkhd + (if ver = 1 then 20 else 12))) (\<lambda>tid.
     bindE (need_box kids ''mdia'') (\<lambda>mdia.
     bindE (children b (bodyStart mdia) (box_end mdia)) (\<lambda>mk.
     bindE (need_box mk ''mdhd'') (\<lambda>mdhd.
     bindE (u8 b (bodyStart mdhd)) (\<lambda>ver.
     bindE (u32 b (bodyStart mdhd + (if ver = 1 then 20 else 12))) (\<lambda>scale.
       if scale = 0 then Inl ZeroTimescale
       else
         let kind = (case find_box mk ''hdlr'' of
               None \<Rightarrow> ''''
             | Some hdlr \<Rightarrow> if bodyStart hdlr + 8 + 4 \<le> box_end hdlr then str4 b (bodyStart hdlr + 8) else '''')
         in Inr \<lparr>tk_ID = tid, tk_Kind = kind, tk_Timescale = scale, tk_DefaultSampleDuration = 0\<rparr>)))))))))"

fun trak_loop :: "byte list \<Rightarrow> box list \<Rightarrow> (32 word \<times> Track) list \<Rightarrow> mp4_error + (32 word \<times> Track) list" where
  "trak_loop b [] tracks = Inr tracks"
| "trak_loop b (k # kids) tracks =
     (if bx_typ k \<noteq> ''trak'' then trak_loop b kids tracks
      else bindE (parseTrak b k) (\<lambda>t. trak_loop b kids (AList.update (tk_ID t) t tracks)))"

fun trex_loop :: "byte list \<Rightarrow> box list \<Rightarrow> (32 word \<times> Track) list \<Rightarrow> mp4_error + (32 word \<times> Track) list" where
  "trex_loop b [] tracks = Inr tracks"
| "trex_loop b (x # xs) tracks =
     (if bx_typ x \<noteq> ''trex'' then trex_loop b xs tracks
      else
        (case (u32 b (bodyStart x + 4), u32 b (bodyStart x + 12)) of
           (Inr tid, Inr dur) \<Rightarrow>
             trex_loop b xs (case map_of tracks tid of None \<Rightarrow> tracks
               | Some t \<Rightarrow> AList.update tid (t\<lparr>tk_DefaultSampleDuration := dur\<rparr>) tracks)
         | _ \<Rightarrow> Inl ShortTrex))"

definition ParseInit :: "byte list \<Rightarrow> mp4_error + Init" where
  "ParseInit b =
     bindE (children b 0 (length b)) (\<lambda>top.
     bindE (need_box top ''moov'') (\<lambda>moov.
     bindE (children b (bodyStart moov) (box_end moov)) (\<lambda>kids.
     bindE (trak_loop b kids []) (\<lambda>tracks.
       if length tracks = 0 then Inl NoTracks
       else
         (case find_box kids ''mvex'' of
            None \<Rightarrow> Inr \<lparr>in_Tracks = tracks\<rparr>
          | Some mvex \<Rightarrow>
              bindE (children b (bodyStart mvex) (box_end mvex)) (\<lambda>trexes.
              bindE (trex_loop b trexes tracks) (\<lambda>tracks. Inr \<lparr>in_Tracks = tracks\<rparr>)))))))"

subsection \<open>Track fragments\<close>

record traf =
  tf_track :: Track
  tf_tfdt :: box
  tf_tfdtBase :: nat
  tf_version :: byte
  tf_duration :: "64 word"

definition trunDuration :: "byte list \<Rightarrow> box \<Rightarrow> 32 word \<Rightarrow> mp4_error + 64 word" where
  "trunDuration b k defDur =
     bindE (u32 b (bodyStart k)) (\<lambda>flags.
     bindE (u32 b (bodyStart k + 4)) (\<lambda>count.
       let flags = flags AND 0xffffff in
       if flags AND 0x100 = 0 then (if defDur = 0 then Inl ErrNoDuration else Inr (ucast count * ucast defDur))
       else
         let p = bodyStart k + 8 + (if flags AND 0x1 \<noteq> 0 then 4 else 0) + (if flags AND 0x4 \<noteq> 0 then 4 else 0);
             per = 4 + sum_list (map (\<lambda>f. if flags AND f \<noteq> 0 then 4 else 0) [0x200, 0x400, 0x800])
         in if p + unat count * per > box_end k then Inl ShortTrun
            else Inr (sum_list (map (\<lambda>i. case u32 b (p + i * per) of Inl _ \<Rightarrow> 0 | Inr d \<Rightarrow> ucast d) [0..<unat count]))))"

definition finish_traf :: "byte list \<Rightarrow> box list \<Rightarrow> Track \<Rightarrow> 32 word \<Rightarrow> mp4_error + traf" where
  "finish_traf b kids track defDur =
     bindE (need_box kids ''tfdt'') (\<lambda>tfdt.
       if bodyStart tfdt \<ge> length b then Inl ShortTfdt
       else
         bindE (mapE (\<lambda>k. trunDuration b k defDur) (filter (\<lambda>k. bx_typ k = ''trun'') kids)) (\<lambda>ds.
           Inr \<lparr>tf_track = track, tf_tfdt = tfdt, tf_tfdtBase = bodyStart tfdt, tf_version = b ! bodyStart tfdt,
                tf_duration = sum_list ds\<rparr>))"

definition parseTraf :: "byte list \<Rightarrow> box \<Rightarrow> Init \<Rightarrow> mp4_error + traf" where
  "parseTraf b t ini =
     bindE (children b (bodyStart t) (box_end t)) (\<lambda>kids.
     bindE (need_box kids ''tfhd'') (\<lambda>tfhd.
     bindE (u32 b (bodyStart tfhd)) (\<lambda>flags.
     bindE (u32 b (bodyStart tfhd + 4)) (\<lambda>tid.
     (case map_of (in_Tracks ini) tid of
        None \<Rightarrow> Inl (UnknownTrack tid)
      | Some track \<Rightarrow>
          let flags = flags AND 0xffffff;
              p = bodyStart tfhd + 8 + (if flags AND 0x1 \<noteq> 0 then 8 else 0) + (if flags AND 0x2 \<noteq> 0 then 4 else 0)
          in
          bindE (if flags AND 0x8 \<noteq> 0 then u32 b p else Inr (tk_DefaultSampleDuration track)) (finish_traf b kids track))))))"

definition moof_trafs :: "byte list \<Rightarrow> Init \<Rightarrow> box \<Rightarrow> mp4_error + traf list" where
  "moof_trafs seg ini m =
     bindE (children seg (bodyStart m) (box_end m)) (\<lambda>mk.
       mapE (\<lambda>t. parseTraf seg t ini) (filter (\<lambda>t. bx_typ t = ''traf'') mk))"

definition walk :: "byte list \<Rightarrow> Init \<Rightarrow> mp4_error + traf list" where
  "walk seg ini =
     bindE (children seg 0 (length seg)) (\<lambda>top.
     bindE (mapE (moof_trafs seg ini) (filter (\<lambda>m. bx_typ m = ''moof'') top)) (\<lambda>tss.
       let out = concat tss in if length out = 0 then Inl NoFragments else Inr out))"

definition fragment_of :: "byte list \<Rightarrow> traf \<Rightarrow> mp4_error + Fragment" where
  "fragment_of seg tf =
     (if tf_version tf = 1 then
        (if tf_tfdtBase tf + 12 > length seg then Inl ShortTfdt
         else Inr \<lparr>fg_Track = tf_track tf, fg_Tfdt = Uint64 seg (tf_tfdtBase tf + 4), fg_Duration = tf_duration tf\<rparr>)
      else
        (if tf_tfdtBase tf + 8 > length seg then Inl ShortTfdt
         else Inr \<lparr>fg_Track = tf_track tf, fg_Tfdt = ucast (Uint32 seg (tf_tfdtBase tf + 4)), fg_Duration = tf_duration tf\<rparr>))"

definition Fragments :: "byte list \<Rightarrow> Init \<Rightarrow> mp4_error + Fragment list" where
  "Fragments seg ini = bindE (walk seg ini) (mapE (fragment_of seg))"

subsection \<open>Retime\<close>

definition new_time :: "traf \<Rightarrow> 64 word \<Rightarrow> 64 word \<Rightarrow> rat \<Rightarrow> 64 word \<Rightarrow> mp4_error + 64 word" where
  "new_time tf anchorS nominalS tolS old =
     (let scale = ucast (tk_Timescale (tf_track tf));
          diff = old - nominalS * scale
      in if \<bar>of_int (sint diff)\<bar> > tolS * of_nat (unat (tk_Timescale (tf_track tf))) then Inl ErrOffGrid
         else let v = anchorS * scale + diff in if sint v < 0 then Inl BeforeStart else Inr v)"

fun retime_loop :: "traf list \<Rightarrow> 64 word \<Rightarrow> 64 word \<Rightarrow> rat \<Rightarrow> byte list \<Rightarrow> mp4_error + byte list" where
  "retime_loop [] anchorS nominalS tolS out = Inr out"
| "retime_loop (tf # tfs) anchorS nominalS tolS out =
     (if tf_version tf \<noteq> 1 then Inl ErrTfdtVersion
      else if tf_tfdtBase tf + 12 > length out then Inl ShortTfdt
      else bindE (new_time tf anchorS nominalS tolS (Uint64 out (tf_tfdtBase tf + 4)))
             (\<lambda>v. retime_loop tfs anchorS nominalS tolS (PutUint64 out (tf_tfdtBase tf + 4) v)))"

definition Retime :: "byte list \<Rightarrow> Init \<Rightarrow> 64 word \<Rightarrow> 64 word \<Rightarrow> rat \<Rightarrow> mp4_error + byte list" where
  "Retime seg ini anchorS nominalS tolS = bindE (walk seg ini) (\<lambda>tfs. retime_loop tfs anchorS nominalS tolS seg)"

definition MediaData :: "byte list \<Rightarrow> mp4_error + byte list" where
  "MediaData seg =
     bindE (children seg 0 (length seg)) (\<lambda>top.
       Inr (concat (map (\<lambda>x. take (box_end x - bodyStart x) (drop (bodyStart x) seg)) (filter (\<lambda>x. bx_typ x = ''mdat'') top))))"

subsection \<open>Boxes tile the range they are read from\<close>

fun tiles :: "nat \<Rightarrow> nat \<Rightarrow> box list \<Rightarrow> bool" where
  "tiles p en [] \<longleftrightarrow> en \<le> p"
| "tiles p en (x # xs) \<longleftrightarrow>
     p < en \<and> bx_start x = p \<and> 8 \<le> bx_hdr x \<and> bx_hdr x \<le> bx_size x \<and> p + bx_size x \<le> en \<and> tiles (p + bx_size x) en xs"

lemma children_tiles: "children b p en = Inr xs \<Longrightarrow> tiles p en xs"
proof (induction b p en arbitrary: xs rule: children.induct)
  case (1 b p en)
  show ?case
  proof (cases "p < en")
    case True
    then obtain x ys where x: "box_header b p en = Inr x" "children b (p + bx_size x) en = Inr ys" "xs = x # ys"
      using "1.prems" by (auto simp: children.simps [of b p en] bindE_Inr_iff split: sum.splits)
    then show ?thesis using "1.IH" [OF True x(1,2)] box_header_InrD [OF x(1)] True by simp
  next
    case False
    then show ?thesis using "1.prems" by (simp add: children.simps [of b p en])
  qed
qed

definition inside :: "nat \<Rightarrow> nat \<Rightarrow> box \<Rightarrow> bool" where
  "inside p en x \<longleftrightarrow> p \<le> bx_start x \<and> bx_start x < bodyStart x \<and> bodyStart x \<le> box_end x \<and> box_end x \<le> en"

lemma tiles_inside: "tiles p en xs \<Longrightarrow> x \<in> set xs \<Longrightarrow> inside p en x"
  by (induction p en xs rule: tiles.induct) (auto simp: inside_def bodyStart_def box_end_def)

lemma tiles_sorted: "tiles p en xs \<Longrightarrow> sorted_wrt (\<lambda>x y. box_end x \<le> bx_start y) xs"
proof (induction p en xs rule: tiles.induct)
  case (2 p en x xs)
  then have "\<forall>y \<in> set xs. p + bx_size x \<le> bx_start y" using tiles_inside by (fastforce simp: inside_def)
  then show ?case using 2 by (auto simp: box_end_def)
qed simp

lemma children_inside: "children b p en = Inr xs \<Longrightarrow> x \<in> set xs \<Longrightarrow> inside p en x"
  by (rule tiles_inside [OF children_tiles])

lemma children_sorted: "children b p en = Inr xs \<Longrightarrow> sorted_wrt (\<lambda>x y. box_end x \<le> bx_start y) xs"
  by (rule tiles_sorted [OF children_tiles])

text \<open>A header is made of the bytes before its body, so bytes elsewhere do not matter.\<close>

lemma str4_cong: "length b = length c \<Longrightarrow> (\<And>i. i < 4 \<Longrightarrow> b ! (p + i) = c ! (p + i)) \<Longrightarrow> str4 b p = str4 c p"
  unfolding str4_def by (cases "p \<le> length b"; intro arg_cong [of _ _ "map _"] nth_equalityI) simp_all

lemma box_header_cong:
  assumes "box_header b p en = Inr x" "length c = length b" "\<And>i. p \<le> i \<Longrightarrow> i < bodyStart x \<Longrightarrow> c ! i = b ! i"
  shows "box_header c p en = Inr x"
proof -
  have hdr: "bodyStart x = p + bx_hdr x" "8 \<le> bx_hdr x" using box_header_InrD [OF assms(1)] by (auto simp: bodyStart_def)
  have u: "Uint32 c p = Uint32 b p" by (rule Uint32_cong) (use assms(3) hdr in simp)
  have s: "str4 c (p + 4) = str4 b (p + 4)" by (rule str4_cong) (use assms(2,3) hdr in simp_all)
  show ?thesis
  proof (cases "unat (Uint32 b p) = 1")
    case True
    then have "bx_hdr x = 16" using assms(1) by (auto simp: box_header_def Let_def split: if_splits)
    then have v: "Uint64 c (p + 8) = Uint64 b (p + 8)" using assms(3) hdr by (intro Uint64_cong) simp
    have "box_header c p en = box_header b p en" unfolding box_header_def u s v ..
    then show ?thesis using assms(1) by simp
  next
    case False
    then have "box_header c p en = box_header b p en" unfolding box_header_def u s Let_def by simp
    then show ?thesis using assms(1) by simp
  qed
qed

lemma children_cong:
  assumes "children b p en = Inr xs" "length c = length b"
    and "\<And>x i. x \<in> set xs \<Longrightarrow> bx_start x \<le> i \<Longrightarrow> i < bodyStart x \<Longrightarrow> c ! i = b ! i"
  shows "children c p en = Inr xs"
  using assms(1,3)
proof (induction xs arbitrary: p)
  case Nil
  then show ?case by (auto simp: children.simps [of _ p en] bindE_Inr_iff split: sum.splits if_splits)
next
  case (Cons x xs)
  have x: "p < en" "box_header b p en = Inr x" "children b (p + bx_size x) en = Inr xs"
    using Cons.prems(1) by (auto simp: children.simps [of b p en] bindE_Inr_iff split: sum.splits if_splits)
  have "bx_start x = p" using box_header_InrD [OF x(2)] by simp
  then have "box_header c p en = Inr x" using box_header_cong [OF x(2) assms(2)] Cons.prems(2) [of x] by simp
  moreover have "children c (p + bx_size x) en = Inr xs"
  proof (rule Cons.IH [OF x(3)])
    fix y i assume "y \<in> set xs" "bx_start y \<le> i" "i < bodyStart y"
    then show "c ! i = b ! i" using Cons.prems(2) [of y i] by simp
  qed
  ultimately show ?case using x(1) by (simp add: children.simps [of c p en])
qed

subsection \<open>Where the decode times are\<close>

definition tfdt_fits :: "traf \<Rightarrow> bool" where
  "tfdt_fits tf \<longleftrightarrow> tf_tfdtBase tf + 12 \<le> box_end (tf_tfdt tf)"

definition field :: "traf \<Rightarrow> nat set" where
  "field tf = {tf_tfdtBase tf + 4 ..< tf_tfdtBase tf + 12}"

lemma need_box_in: "need_box bs typ = Inr x \<Longrightarrow> x \<in> set bs"
  by (auto simp: need_box_def find_box_def find_Some_iff split: option.splits)

lemma inside_trans: "inside p en x \<Longrightarrow> inside (bodyStart x) (box_end x) y \<Longrightarrow> inside p en y"
  by (simp add: inside_def)

lemma parseTraf_InrD:
  assumes "parseTraf b t ini = Inr tf"
  shows "inside (bodyStart t) (box_end t) (tf_tfdt tf)" and "tf_tfdtBase tf = bodyStart (tf_tfdt tf)"
proof -
  obtain kids track defDur where k: "children b (bodyStart t) (box_end t) = Inr kids" and f: "finish_traf b kids track defDur = Inr tf"
    using assms unfolding parseTraf_def Let_def bindE_Inr_iff
    by (elim exE conjE) (simp only: bindE_Inr_iff sum.distinct split: option.split_asm, blast)
  then have "need_box kids ''tfdt'' = Inr (tf_tfdt tf)" "tf_tfdtBase tf = bodyStart (tf_tfdt tf)"
    by (auto simp: finish_traf_def bindE_Inr_iff split: if_splits)
  then have "\<exists>kids. children b (bodyStart t) (box_end t) = Inr kids \<and> need_box kids ''tfdt'' = Inr (tf_tfdt tf) \<and> tf_tfdtBase tf = bodyStart (tf_tfdt tf)"
    using k by simp
  then show "inside (bodyStart t) (box_end t) (tf_tfdt tf)" "tf_tfdtBase tf = bodyStart (tf_tfdt tf)"
    using children_inside need_box_in by blast+
qed

lemma sorted_wrt_filterI: "sorted_wrt P xs \<Longrightarrow> sorted_wrt P (filter Q xs)"
  by (induction xs) auto

text \<open>Elements that lie inside of ordered boxes are ordered.\<close>

lemma sorted_wrt_inside:
  assumes "list_all2 R xs ys" "sorted_wrt (\<lambda>x y. box_end x \<le> bx_start y) xs"
    and "\<And>x y. x \<in> set xs \<Longrightarrow> R x y \<Longrightarrow> inside (bodyStart x) (box_end x) (g y) \<and> bx_start x \<le> bodyStart x"
  shows "sorted_wrt (\<lambda>a b. box_end (g a) \<le> bx_start (g b)) ys"
  using assms
proof (induction rule: list_all2_induct)
  case (Cons x xs y ys)
  have "box_end (g y) \<le> bx_start (g b)" if b: "b \<in> set ys" for b
  proof -
    obtain z where "z \<in> set xs" "R z b" using list_all2_in2 [OF Cons.hyps(2) b] by blast
    then have "bodyStart z \<le> bx_start (g b)" "bx_start z \<le> bodyStart z" "box_end x \<le> bx_start z"
      using Cons.prems by (auto simp: inside_def)
    moreover have "box_end (g y) \<le> box_end x" using Cons.prems(2) [of x y] Cons.hyps by (simp add: inside_def)
    ultimately show ?thesis by linarith
  qed
  then show ?case using Cons by simp
qed simp

lemma moof_trafs_InrD:
  assumes "moof_trafs seg ini m = Inr tfs"
  shows "sorted_wrt (\<lambda>a b. box_end (tf_tfdt a) \<le> bx_start (tf_tfdt b)) tfs"
    and "tf \<in> set tfs \<Longrightarrow> inside (bodyStart m) (box_end m) (tf_tfdt tf) \<and> tf_tfdtBase tf = bodyStart (tf_tfdt tf)"
proof -
  obtain mk where mk: "children seg (bodyStart m) (box_end m) = Inr mk"
    and all: "list_all2 (\<lambda>t tf. parseTraf seg t ini = Inr tf) (filter (\<lambda>t. bx_typ t = ''traf'') mk) tfs"
    using assms by (auto simp: moof_trafs_def bindE_Inr_iff mapE_Inr_iff)
  have ins: "inside (bodyStart m) (box_end m) t" if "t \<in> set (filter (\<lambda>t. bx_typ t = ''traf'') mk)" for t
    using children_inside [OF mk] that by simp
  show "sorted_wrt (\<lambda>a b. box_end (tf_tfdt a) \<le> bx_start (tf_tfdt b)) tfs"
  proof (rule sorted_wrt_inside [OF all sorted_wrt_filterI [OF children_sorted [OF mk]]])
    fix t tf assume "t \<in> set (filter (\<lambda>t. bx_typ t = ''traf'') mk)" "parseTraf seg t ini = Inr tf"
    then show "inside (bodyStart t) (box_end t) (tf_tfdt tf) \<and> bx_start t \<le> bodyStart t"
      using parseTraf_InrD(1) by (simp add: bodyStart_def)
  qed
  assume "tf \<in> set tfs"
  then obtain t where "t \<in> set (filter (\<lambda>t. bx_typ t = ''traf'') mk)" "parseTraf seg t ini = Inr tf"
    using list_all2_in2 [OF all] by blast
  then show "inside (bodyStart m) (box_end m) (tf_tfdt tf) \<and> tf_tfdtBase tf = bodyStart (tf_tfdt tf)"
    using parseTraf_InrD ins inside_trans by blast
qed

lemma sorted_wrt_concat:
  assumes "\<And>xs. xs \<in> set xss \<Longrightarrow> sorted_wrt P xs" "sorted_wrt (\<lambda>xs ys. \<forall>x \<in> set xs. \<forall>y \<in> set ys. P x y) xss"
  shows "sorted_wrt P (concat xss)"
  using assms by (induction xss) (auto simp: sorted_wrt_append)

lemma walk_InrD:
  assumes "walk seg ini = Inr tfs"
  shows "sorted_wrt (\<lambda>a b. box_end (tf_tfdt a) \<le> bx_start (tf_tfdt b)) tfs"
    and "\<exists>top. children seg 0 (length seg) = Inr top \<and>
      (\<forall>tf \<in> set tfs. tf_tfdtBase tf = bodyStart (tf_tfdt tf) \<and>
         (\<exists>m \<in> set top. bx_typ m = ''moof'' \<and> inside (bodyStart m) (box_end m) (tf_tfdt tf)))"
proof -
  obtain top tss where top: "children seg 0 (length seg) = Inr top"
    and all: "list_all2 (\<lambda>m ts. moof_trafs seg ini m = Inr ts) (filter (\<lambda>m. bx_typ m = ''moof'') top) tss" and tfs: "tfs = concat tss"
    using assms by (auto simp: walk_def bindE_Inr_iff mapE_Inr_iff Let_def split: if_splits)
  have ins: "inside 0 (length seg) m" if "m \<in> set top" for m using children_inside [OF top that] .
  show "\<exists>top. children seg 0 (length seg) = Inr top \<and>
      (\<forall>tf \<in> set tfs. tf_tfdtBase tf = bodyStart (tf_tfdt tf) \<and>
         (\<exists>m \<in> set top. bx_typ m = ''moof'' \<and> inside (bodyStart m) (box_end m) (tf_tfdt tf)))"
  proof (intro exI conjI ballI)
    fix tf assume "tf \<in> set tfs"
    then obtain ts where ts: "ts \<in> set tss" "tf \<in> set ts" using tfs by auto
    then obtain m where m: "m \<in> set (filter (\<lambda>m. bx_typ m = ''moof'') top)" "moof_trafs seg ini m = Inr ts"
      using list_all2_in2 [OF all ts(1)] by blast
    then show "tf_tfdtBase tf = bodyStart (tf_tfdt tf)" "\<exists>m \<in> set top. bx_typ m = ''moof'' \<and> inside (bodyStart m) (box_end m) (tf_tfdt tf)"
      using moof_trafs_InrD(2) [OF m(2) ts(2)] by auto
  qed (rule top)
  have across: "sorted_wrt (\<lambda>xs ys. \<forall>x \<in> set xs. \<forall>y \<in> set ys. box_end (tf_tfdt x) \<le> bx_start (tf_tfdt y)) tss"
    using all sorted_wrt_filterI [OF children_sorted [OF top], of "\<lambda>m. bx_typ m = ''moof''"]
  proof (induction rule: list_all2_induct)
    case (Cons m ms ts tss)
    have "box_end (tf_tfdt x) \<le> bx_start (tf_tfdt y)" if x: "x \<in> set ts" and ys: "ys \<in> set tss" and y: "y \<in> set ys" for x y ys
    proof -
      obtain m' where m': "m' \<in> set ms" "moof_trafs seg ini m' = Inr ys" using list_all2_in2 [OF Cons.hyps(2) ys] by blast
      have "box_end (tf_tfdt x) \<le> box_end m" using moof_trafs_InrD(2) [OF Cons.hyps(1) x] by (simp add: inside_def)
      moreover have "box_end m \<le> bx_start m'" using Cons.prems m'(1) by simp
      moreover have "bodyStart m' \<le> bx_start (tf_tfdt y)" using moof_trafs_InrD(2) [OF m'(2) y] by (simp add: inside_def)
      ultimately show ?thesis by (simp add: bodyStart_def)
    qed
    then show ?case using Cons by simp
  qed simp
  show "sorted_wrt (\<lambda>a b. box_end (tf_tfdt a) \<le> bx_start (tf_tfdt b)) tfs"
    unfolding tfs
  proof (rule sorted_wrt_concat [OF _ across])
    fix ts assume "ts \<in> set tss"
    then show "sorted_wrt (\<lambda>a b. box_end (tf_tfdt a) \<le> bx_start (tf_tfdt b)) ts"
      using list_all2_in2 [OF all] moof_trafs_InrD(1) by blast
  qed
qed

subsection \<open>The loop of Retime\<close>

definition moved :: "64 word \<Rightarrow> 64 word \<Rightarrow> traf \<Rightarrow> 64 word \<Rightarrow> 64 word" where
  "moved anchorS nominalS tf old =
     anchorS * ucast (tk_Timescale (tf_track tf)) + (old - nominalS * ucast (tk_Timescale (tf_track tf)))"

lemma new_time_InrD:
  "new_time tf anchorS nominalS tolS old = Inr v \<Longrightarrow> v = moved anchorS nominalS tf old
    \<and> \<bar>of_int (sint (old - nominalS * ucast (tk_Timescale (tf_track tf))))\<bar> \<le> tolS * of_nat (unat (tk_Timescale (tf_track tf))) \<and> 0 \<le> sint v"
  by (auto simp: new_time_def moved_def Let_def split: if_splits)

lemma retime_loop_step:
  assumes "retime_loop (t # tfs) anchorS nominalS tolS b = Inr out"
  obtains v where "tf_version t = 1" "tf_tfdtBase t + 12 \<le> length b"
    "new_time t anchorS nominalS tolS (Uint64 b (tf_tfdtBase t + 4)) = Inr v"
    "retime_loop tfs anchorS nominalS tolS (PutUint64 b (tf_tfdtBase t + 4) v) = Inr out"
  using assms by (auto simp: bindE_Inr_iff split: if_splits)

lemma retime_loop_length: "retime_loop tfs anchorS nominalS tolS b = Inr out \<Longrightarrow> length out = length b"
proof (induction tfs arbitrary: b)
  case (Cons t tfs)
  from Cons.prems show ?case by (rule retime_loop_step) (use Cons.IH in fastforce)
qed simp

lemma retime_loop_other:
  "retime_loop tfs anchorS nominalS tolS b = Inr out \<Longrightarrow> (\<forall>tf \<in> set tfs. i \<notin> field tf) \<Longrightarrow> out ! i = b ! i"
proof (induction tfs arbitrary: b)
  case (Cons t tfs)
  obtain v where v: "tf_tfdtBase t + 12 \<le> length b" "retime_loop tfs anchorS nominalS tolS (PutUint64 b (tf_tfdtBase t + 4) v) = Inr out"
    using Cons.prems(1) by (rule retime_loop_step)
  have "out ! i = PutUint64 b (tf_tfdtBase t + 4) v ! i" using Cons.IH [OF v(2)] Cons.prems(2) by simp
  also have "\<dots> = b ! i" using Cons.prems(2) v(1) by (intro PutUint64_other) (auto simp: field_def)
  finally show ?case .
qed simp

lemma retime_loop_times:
  assumes "retime_loop tfs anchorS nominalS tolS b = Inr out" "sorted_wrt (\<lambda>a b. tf_tfdtBase a + 12 \<le> tf_tfdtBase b) tfs" "tf \<in> set tfs"
  shows "tf_version tf = 1 \<and> tf_tfdtBase tf + 12 \<le> length b
      \<and> new_time tf anchorS nominalS tolS (Uint64 b (tf_tfdtBase tf + 4)) = Inr (Uint64 out (tf_tfdtBase tf + 4))"
  using assms
proof (induction tfs arbitrary: b)
  case (Cons t tfs)
  obtain v where v: "tf_version t = 1" "tf_tfdtBase t + 12 \<le> length b" "new_time t anchorS nominalS tolS (Uint64 b (tf_tfdtBase t + 4)) = Inr v"
      "retime_loop tfs anchorS nominalS tolS (PutUint64 b (tf_tfdtBase t + 4) v) = Inr out"
    using Cons.prems(1) by (rule retime_loop_step)
  have later: "\<forall>x \<in> set tfs. tf_tfdtBase t + 12 \<le> tf_tfdtBase x" using Cons.prems(2) by simp
  show ?case
  proof (cases "tf \<in> set tfs")
    case True
    have "Uint64 (PutUint64 b (tf_tfdtBase t + 4) v) (tf_tfdtBase tf + 4) = Uint64 b (tf_tfdtBase tf + 4)"
      using later True v(2) by (intro Uint64_cong PutUint64_other) auto
    then show ?thesis using Cons.IH [OF v(4) _ True] Cons.prems(2) v(2) by simp
  next
    case False
    then have t: "tf = t" using Cons.prems(3) by simp
    have "Uint64 out (tf_tfdtBase t + 4) = Uint64 (PutUint64 b (tf_tfdtBase t + 4) v) (tf_tfdtBase t + 4)"
      using later by (intro Uint64_cong retime_loop_other [OF v(4)]) (auto simp: field_def)
    then show ?thesis using v t by simp
  qed
qed simp

subsection \<open>What Retime does\<close>

lemma walk_fields:
  assumes "walk seg ini = Inr tfs" "\<forall>tf \<in> set tfs. tfdt_fits tf"
  shows "sorted_wrt (\<lambda>a b. tf_tfdtBase a + 12 \<le> tf_tfdtBase b) tfs"
    and "\<exists>top. children seg 0 (length seg) = Inr top \<and>
      (\<forall>tf \<in> set tfs. \<exists>m \<in> set top. bx_typ m = ''moof'' \<and> field tf \<subseteq> {bodyStart m ..< box_end m})"
proof -
  obtain top where top: "children seg 0 (length seg) = Inr top"
    and at: "\<forall>tf \<in> set tfs. tf_tfdtBase tf = bodyStart (tf_tfdt tf) \<and> (\<exists>m \<in> set top. bx_typ m = ''moof'' \<and> inside (bodyStart m) (box_end m) (tf_tfdt tf))"
    using walk_InrD(2) [OF assms(1)] by blast
  have apart: "tf_tfdtBase a + 12 \<le> tf_tfdtBase b" if "a \<in> set tfs" "b \<in> set tfs" "box_end (tf_tfdt a) \<le> bx_start (tf_tfdt b)" for a b
  proof -
    have "tf_tfdtBase a + 12 \<le> box_end (tf_tfdt a)" using assms(2) that(1) by (simp add: tfdt_fits_def)
    moreover have "bx_start (tf_tfdt b) \<le> tf_tfdtBase b" using at that(2) by (simp add: bodyStart_def)
    ultimately show ?thesis using that(3) by linarith
  qed
  show "sorted_wrt (\<lambda>a b. tf_tfdtBase a + 12 \<le> tf_tfdtBase b) tfs"
    by (rule sorted_wrt_mono_on [OF walk_InrD(1) [OF assms(1)] apart])
  have "\<exists>m \<in> set top. bx_typ m = ''moof'' \<and> field tf \<subseteq> {bodyStart m ..< box_end m}" if tf: "tf \<in> set tfs" for tf
  proof -
    obtain m where m: "m \<in> set top" "bx_typ m = ''moof''" "inside (bodyStart m) (box_end m) (tf_tfdt tf)" "tf_tfdtBase tf = bodyStart (tf_tfdt tf)"
      using at tf by blast
    moreover have "tf_tfdtBase tf + 12 \<le> box_end (tf_tfdt tf)" using assms(2) tf by (simp add: tfdt_fits_def)
    ultimately have "field tf \<subseteq> {bodyStart m ..< box_end m}" by (auto simp: inside_def field_def)
    then show ?thesis using m by blast
  qed
  then show "\<exists>top. children seg 0 (length seg) = Inr top \<and>
      (\<forall>tf \<in> set tfs. \<exists>m \<in> set top. bx_typ m = ''moof'' \<and> field tf \<subseteq> {bodyStart m ..< box_end m})" using top by blast
qed

text \<open>Two boxes of a list are the same or apart.\<close>

lemma sorted_boxes_apart:
  "sorted_wrt (\<lambda>x y. box_end x \<le> bx_start y) xs \<Longrightarrow> x \<in> set xs \<Longrightarrow> y \<in> set xs \<Longrightarrow> x \<noteq> y \<Longrightarrow> box_end x \<le> bx_start y \<or> box_end y \<le> bx_start x"
  by (induction xs) auto

lemma take_drop_eqI:
  "length b = length c \<Longrightarrow> (\<And>i. p \<le> i \<Longrightarrow> i < q \<Longrightarrow> b ! i = c ! i) \<Longrightarrow> take (q - p) (drop p b) = take (q - p) (drop p c)"
  by (cases "p \<le> length b"; intro nth_equalityI) auto

text \<open>A list of boxes, and the bytes of those that are not touched, when only bodies of other boxes change.\<close>

lemma MediaData_cong:
  assumes "children seg 0 (length seg) = Inr tops" "length out = length seg"
    and "\<And>i. i < length seg \<Longrightarrow> out ! i \<noteq> seg ! i \<Longrightarrow> \<exists>m \<in> set tops. bx_typ m = ''moof'' \<and> bodyStart m \<le> i \<and> i < box_end m"
  shows "MediaData out = MediaData seg"
proof -
  note srt = children_sorted [OF assms(1)] and ins = children_inside [OF assms(1)]
  have same: "out ! i = seg ! i" if "x \<in> set tops" "bx_start x \<le> i" "i < bodyStart x \<or> (i < box_end x \<and> bx_typ x \<noteq> ''moof'')" for x i
  proof (rule ccontr)
    assume "out ! i \<noteq> seg ! i"
    moreover have il: "i < box_end x" "i < length seg" using that ins [of x] by (auto simp: inside_def)
    ultimately obtain m where m: "m \<in> set tops" "bx_typ m = ''moof''" "bodyStart m \<le> i" "i < box_end m" using assms(3) by blast
    then have "x \<noteq> m" using that(3) by auto
    then show False using sorted_boxes_apart [OF srt that(1) m(1)] that(2) il m(3,4) by (auto simp: bodyStart_def)
  qed
  have tops': "children out 0 (length out) = Inr tops"
    unfolding assms(2) by (rule children_cong [OF assms(1,2)]) (rule same, auto)
  have "take (box_end x - bodyStart x) (drop (bodyStart x) out) = take (box_end x - bodyStart x) (drop (bodyStart x) seg)"
    if "x \<in> set (filter (\<lambda>x. bx_typ x = ''mdat'') tops)" for x
    using that by (intro take_drop_eqI assms(2) same [of x]) (auto simp: bodyStart_def)
  then have "map (\<lambda>x. take (box_end x - bodyStart x) (drop (bodyStart x) out)) (filter (\<lambda>x. bx_typ x = ''mdat'') tops)
      = map (\<lambda>x. take (box_end x - bodyStart x) (drop (bodyStart x) seg)) (filter (\<lambda>x. bx_typ x = ''mdat'') tops)"
    by (intro map_cong refl)
  then show ?thesis by (simp only: MediaData_def assms(1) tops' bindE_simps)
qed

text \<open>The move is exact: within the limits of the timeline nothing wraps around.\<close>

lemma sint_word_of_int_id: "- (2 ^ 63) \<le> x \<Longrightarrow> x < 2 ^ 63 \<Longrightarrow> sint (word_of_int x :: 64 word) = x"
  by (simp add: int_word_sint)

lemma sint_small_diff:
  assumes "- (2 ^ 63) - 2 ^ 62 < x" "x < 2 ^ 63" "\<bar>sint (word_of_int x :: 64 word)\<bar> < 2 ^ 62"
  shows "sint (word_of_int x :: 64 word) = x"
proof (cases "- (2 ^ 63) \<le> x")
  case True
  then show ?thesis using sint_word_of_int_id assms(2) by blast
next
  case False
  have "(x + 2 ^ 63) mod 2 ^ 64 = (x + 2 ^ 63 + 2 ^ 64) mod 2 ^ 64" by (rule mod_add_self2 [symmetric])
  also have "\<dots> = x + 2 ^ 63 + 2 ^ 64" using False assms(1) by (intro mod_pos_pos_trivial) simp_all
  finally have "sint (word_of_int x :: 64 word) = x + 2 ^ 64" by (simp add: int_word_sint)
  then show ?thesis using assms(1,3) by simp
qed

lemma small_range:
  fixes z scale m old :: int
  assumes "\<bar>z\<bar> \<le> scale" "0 \<le> scale" "scale < 2 ^ 32" "0 \<le> m" "m \<le> (2 ^ 30 - 1) * 2 ^ 32" "- (2 ^ 63) \<le> old" "old < 2 ^ 63"
  shows "- (2 ^ 63) - 2 ^ 62 < old - m" "old - m < 2 ^ 63" "\<bar>z\<bar> < 2 ^ 62"
  using assms by simp_all

lemma moved_exact:
  assumes "0 \<le> sint anchorS" "sint anchorS < 2 ^ 30" "0 \<le> sint nominalS" "sint nominalS < 2 ^ 30" "tolS \<le> 1"
    and "new_time tf anchorS nominalS tolS old = Inr v"
  defines "scale \<equiv> uint (tk_Timescale (tf_track tf))"
  shows "sint v = sint anchorS * scale + (sint old - sint nominalS * scale)"
proof -
  let ?x = "sint old - sint nominalS * scale"
  have sc: "0 \<le> scale" "scale < 2 ^ 32" using uint_lt2p [of "tk_Timescale (tf_track tf)"] by (simp_all add: scale_def)
  have s: "ucast (tk_Timescale (tf_track tf)) = (word_of_int scale :: 64 word)" by (simp add: scale_def)
  have prod: "0 \<le> sint a * scale" "sint a * scale \<le> (2 ^ 30 - 1) * 2 ^ 32" if "0 \<le> sint a" "sint a < 2 ^ 30" for a :: "64 word"
    using that sc by (simp, intro mult_mono) simp_all
  have old: "- (2 ^ 63) \<le> sint old" "sint old < 2 ^ 63" using sint_ge [of old] sint_lt [of old] by simp_all
  have d: "old - nominalS * ucast (tk_Timescale (tf_track tf)) = word_of_int ?x" unfolding s by (simp add: wi_hom_syms [symmetric])
  have "\<bar>of_int (sint (old - nominalS * ucast (tk_Timescale (tf_track tf))))\<bar> \<le> tolS * of_nat (unat (tk_Timescale (tf_track tf)))"
    using new_time_InrD [OF assms(6)] by blast
  also have "\<dots> \<le> of_int scale" using assms(5) mult_right_mono [of tolS 1 "of_nat (unat (tk_Timescale (tf_track tf)))", OF _ of_nat_0_le_iff]
    by (simp add: scale_def)
  finally have small: "\<bar>sint (word_of_int ?x :: 64 word)\<bar> \<le> scale" unfolding d by (simp only: of_int_abs [symmetric] of_int_le_iff)
  have x: "sint (word_of_int ?x :: 64 word) = ?x"
    by (rule sint_small_diff [OF small_range [OF small sc prod [OF assms(3,4)] old]])
  have "v = anchorS * word_of_int scale + word_of_int ?x"
    using conjunct1 [OF new_time_InrD [OF assms(6)]] unfolding moved_def d unfolding s .
  also have "\<dots> = word_of_int (sint anchorS * scale + ?x)" by simp
  finally show ?thesis using sint_word_of_int_id [of "sint anchorS * scale + ?x"] small x sc prod [OF assms(1,2)] by simp
qed

text \<open>C6. \<^verbatim>\<open>Retime\<close> moves a segment exactly: when it succeeds on a segment whose tfdt boxes hold their eight bytes, the
  decode time of every track fragment is the anchor plus its distance from the nominal second, in ticks and without
  wrap-around, which is within the tolerance; every byte outside of the decode times is the byte of the source, and the
  media data is the same.\<close>

theorem Retime_exact:
  assumes "Retime seg ini anchorS nominalS tolS = Inr out" and "walk seg ini = Inr tfs" and "\<forall>tf \<in> set tfs. tfdt_fits tf"
    and "0 \<le> sint anchorS" "sint anchorS < 2 ^ 30" "0 \<le> sint nominalS" "sint nominalS < 2 ^ 30" "tolS \<le> 1"
  shows "length out = length seg \<and>
    (\<forall>i. (\<forall>tf \<in> set tfs. i \<notin> field tf) \<longrightarrow> out ! i = seg ! i) \<and>
    (\<forall>tf \<in> set tfs. let p = tf_tfdtBase tf + 4; scale = uint (tk_Timescale (tf_track tf));
         diff = sint (Uint64 seg p) - sint nominalS * scale
       in sint (Uint64 out p) = sint anchorS * scale + diff \<and> 0 \<le> sint (Uint64 out p)) \<and>
    MediaData out = MediaData seg"
proof -
  have loop: "retime_loop tfs anchorS nominalS tolS seg = Inr out" using assms(1,2) by (simp add: Retime_def)
  note srt = walk_fields(1) [OF assms(2,3)]
  obtain tops where tops: "children seg 0 (length seg) = Inr tops"
    "\<forall>tf \<in> set tfs. \<exists>m \<in> set tops. bx_typ m = ''moof'' \<and> field tf \<subseteq> {bodyStart m ..< box_end m}"
    using walk_fields(2) [OF assms(2,3)] by blast
  have touched: "\<exists>m \<in> set tops. bx_typ m = ''moof'' \<and> bodyStart m \<le> i \<and> i < box_end m" if ne: "out ! i \<noteq> seg ! i" for i
  proof -
    obtain tf where tf: "tf \<in> set tfs" "i \<in> field tf" using ne retime_loop_other [OF loop, of i] by blast
    then obtain m where m: "m \<in> set tops" "bx_typ m = ''moof''" "field tf \<subseteq> {bodyStart m ..< box_end m}" using tops(2) by blast
    have "i \<in> {bodyStart m ..< box_end m}" using m(3) tf(2) by (rule subsetD)
    then show ?thesis using m(1,2) by (intro bexI [of _ m]) simp_all
  qed
  have "MediaData out = MediaData seg" by (rule MediaData_cong [OF tops(1) retime_loop_length [OF loop] touched])
  moreover have times: "sint (Uint64 out p) = sint anchorS * scale + (sint (Uint64 seg p) - sint nominalS * scale) \<and> 0 \<le> sint (Uint64 out p)"
    if tf: "tf \<in> set tfs" and "p = tf_tfdtBase tf + 4" "scale = uint (tk_Timescale (tf_track tf))" for tf p scale
  proof -
    have "new_time tf anchorS nominalS tolS (Uint64 seg p) = Inr (Uint64 out p)" using retime_loop_times [OF loop srt tf] that by simp
    then show ?thesis using moved_exact [OF assms(4-8)] new_time_InrD that by blast
  qed
  ultimately show ?thesis using retime_loop_length [OF loop] retime_loop_other [OF loop] times [OF _ refl refl]
    unfolding Let_def by blast
qed


subsection \<open>A segment of one fragment\<close>

definition ascii :: "string \<Rightarrow> byte list" where
  "ascii s = map (\<lambda>c. of_nat (of_char c)) s"

definition w_box :: "string \<Rightarrow> byte list \<Rightarrow> byte list" where
  "w_box typ body = be32 (of_nat (8 + length body)) @ ascii typ @ body"

definition w_seg :: "byte list" where
  "w_seg = w_box ''moof'' (w_box ''traf'' (w_box ''tfhd'' (be32 0 @ be32 1) @ w_box ''tfdt'' (be32 0x01000000 @ be64 5020) @ w_box ''trun'' (be32 0 @ be32 1)))
     @ w_box ''mdat'' [1, 2, 3, 4]"

definition w_init :: Init where
  "w_init = \<lparr>in_Tracks = [(1, \<lparr>tk_ID = 1, tk_Kind = ''vide'', tk_Timescale = 1000, tk_DefaultSampleDuration = 1000\<rparr>)]\<rparr>"

definition w_traf :: traf where
  "w_traf = \<lparr>tf_track = \<lparr>tk_ID = 1, tk_Kind = ''vide'', tk_Timescale = 1000, tk_DefaultSampleDuration = 1000\<rparr>,
     tf_tfdt = \<lparr>bx_typ = ''tfdt'', bx_start = 32, bx_hdr = 8, bx_size = 20\<rparr>, tf_tfdtBase = 40, tf_version = 1, tf_duration = 1000\<rparr>"

lemma w_walk: "walk w_seg w_init = Inr [w_traf]"
  by code_simp

lemma w_old: "Uint64 w_seg 44 = 5020" and w_length: "length w_seg = 80"
  by code_simp+

lemma w_Retime: "\<not> isl (Retime w_seg w_init 190000000 5 (1 / 4))"
proof -
  have "new_time w_traf 190000000 5 (1 / 4) 5020 = Inr (190000000020)" by (simp add: new_time_def w_traf_def Let_def)
  then show ?thesis unfolding Retime_def w_walk bindE_simps by (simp add: w_traf_def w_old w_length)
qed

lemma w_fits: "\<forall>tf \<in> set [w_traf]. tfdt_fits tf"
  by (simp add: tfdt_fits_def w_traf_def box_end_def)

theorem Retime_exact_witness:
  "\<exists>out. Retime w_seg w_init 190000000 5 (1 / 4) = Inr out \<and> sint (Uint64 out 44) = 190000000 * 1000 + 20 \<and> MediaData out = MediaData w_seg"
proof -
  obtain out where out: "Retime w_seg w_init 190000000 5 (1 / 4) = Inr out" using w_Retime by (cases "Retime w_seg w_init 190000000 5 (1 / 4)") auto
  have old: "sint (Uint64 w_seg 44) = 5020" unfolding w_old by code_simp
  have r: "0 \<le> sint (190000000 :: 64 word)" "sint (190000000 :: 64 word) < 2 ^ 30" "0 \<le> sint (5 :: 64 word)" "sint (5 :: 64 word) < 2 ^ 30"
    "sint (190000000 :: 64 word) = 190000000" "sint (5 :: 64 word) = 5" "(1 / 4 :: rat) \<le> 1"
    by code_simp+
  note ex = Retime_exact [OF out w_walk w_fits r(1-4,7)]
  have "sint (Uint64 out 44) = sint (190000000 :: 64 word) * 1000 + (5020 - sint (5 :: 64 word) * 1000)"
    using ex old by (simp add: Let_def w_traf_def)
  then show ?thesis using out ex unfolding r(5,6) by simp
qed


end
