(* ===== verification/Hub.thy ===== *)
theory Hub
  imports Models
begin

text \<open>
  \<^verbatim>\<open>pkg/events/events.go\<close>: the hub that keeps the last events and hands new ones to subscribers. Subscriptions live in a
  store (a pointer is an index), because a subscriber keeps its channel after the hub has cut it off. A channel is its
  buffer and the fact that it was closed; receiving is an operation of its own, so that every interleaving of
  publishing, receiving, subscribing and closing is a sequence of steps.
\<close>

subsection \<open>Data\<close>

text \<open>The values that the engine puts into the data of an event (\<^verbatim>\<open>map[string]any\<close>).\<close>

datatype any = AStr string | AInt int | ATime gtime

type_synonym data = "(string \<times> any) list"

record Event =
  ev_ID :: int
  ev_Type :: string
  ev_Time :: gtime
  ev_Channel :: string
  ev_Data :: data

record Subscription =
  sb_C :: "Event list"
  sb_closed :: bool

record Hub =
  hb_ring :: "Event list"
  hb_cap :: nat
  hb_nextID :: int
  hb_subs :: "nat list"
  hb_store :: "Subscription list"

text \<open>\<^verbatim>\<open>make(chan Event, 256)\<close>.\<close>

definition chan_cap :: nat where "chan_cap = 256"

subsection \<open>Operations\<close>

definition NewHub :: "int \<Rightarrow> Hub" where
  "NewHub capacity =
     \<lparr>hb_ring = [], hb_cap = nat (if capacity < 1 then 1000 else capacity), hb_nextID = 1, hb_subs = [], hb_store = []\<rparr>"

definition closeLocked :: "nat \<Rightarrow> Hub \<Rightarrow> Hub" where
  "closeLocked a h =
     (let s = hb_store h ! a in
      if sb_closed s then h
      else h\<lparr>hb_store := (hb_store h)[a := s\<lparr>sb_closed := True\<rparr>], hb_subs := removeAll a (hb_subs h)\<rparr>)"

definition Close :: "nat \<Rightarrow> Hub \<Rightarrow> Hub" where
  "Close a h = (if a < length (hb_store h) then closeLocked a h else h)"

text \<open>The \<^verbatim>\<open>select\<close> of \<^verbatim>\<open>Publish\<close> for one subscriber: the event is buffered, or the subscriber is cut off.\<close>

definition offer :: "Event \<Rightarrow> nat \<Rightarrow> Hub \<Rightarrow> Hub" where
  "offer ev a h =
     (let s = hb_store h ! a in
      if length (sb_C s) < chan_cap then h\<lparr>hb_store := (hb_store h)[a := s\<lparr>sb_C := sb_C s @ [ev]\<rparr>]\<rparr>
      else closeLocked a h)"

definition Publish :: "string \<Rightarrow> string \<Rightarrow> data \<Rightarrow> gtime \<Rightarrow> Hub \<Rightarrow> Event \<times> Hub" where
  "Publish typ channel dat now h =
     (let ev = \<lparr>ev_ID = hb_nextID h, ev_Type = typ, ev_Time = now, ev_Channel = channel, ev_Data = dat\<rparr>;
          ring = hb_ring h @ [ev];
          ring = (if length ring > hb_cap h then drop (length ring - hb_cap h) ring else ring);
          h = h\<lparr>hb_nextID := hb_nextID h + 1, hb_ring := ring\<rparr>
      in (ev, fold (offer ev) (hb_subs h) h))"

definition Subscribe :: "int \<Rightarrow> Hub \<Rightarrow> Event list \<times> nat \<times> Hub" where
  "Subscribe after h =
     (filter (\<lambda>e. ev_ID e > after) (hb_ring h), length (hb_store h),
      h\<lparr>hb_store := hb_store h @ [\<lparr>sb_C = [], sb_closed = False\<rparr>], hb_subs := hb_subs h @ [length (hb_store h)]\<rparr>)"

definition Last :: "Hub \<Rightarrow> int" where
  "Last h = hb_nextID h - 1"

text \<open>\<^verbatim>\<open>e := <-sub.C\<close>: \<open>None\<close> while there is nothing to receive.\<close>

definition recv :: "nat \<Rightarrow> Hub \<Rightarrow> (Event \<times> Hub) option" where
  "recv a h =
     (if a < length (hb_store h) then
        (case sb_C (hb_store h ! a) of
           [] \<Rightarrow> None
         | e # es \<Rightarrow> Some (e, h\<lparr>hb_store := (hb_store h)[a := (hb_store h ! a)\<lparr>sb_C := es\<rparr>]\<rparr>))
      else None)"

text \<open>
  \<^verbatim>\<open>ServeSSE\<close>: where the stream starts (the header, the query parameters; \<open>parse\<close> is \<^verbatim>\<open>strconv.ParseInt\<close> with its error
  ignored), and what is written for an event (\<open>json\<close> is its encoding).
\<close>

definition sse_after :: "(string \<Rightarrow> int) \<Rightarrow> string \<Rightarrow> string \<Rightarrow> string \<Rightarrow> Hub \<Rightarrow> int" where
  "sse_after parse header query frm h =
     (if header \<noteq> '''' then parse header
      else if query \<noteq> '''' then parse query
      else if frm = ''now'' then Last h
      else 0)"

definition sse_write :: "(Event \<Rightarrow> string) \<Rightarrow> string \<Rightarrow> Event \<Rightarrow> string" where
  "sse_write json channel e =
     (if ev_Channel e \<noteq> channel then ''''
      else ''id: '' @ itoa (ev_ID e) @ [CHR 0x0A] @ ''event: '' @ ev_Type e @ [CHR 0x0A] @ ''data: '' @ json e @ [CHR 0x0A, CHR 0x0A])"

subsection \<open>The invariant\<close>

fun ids_from :: "int \<Rightarrow> Event list \<Rightarrow> bool" where
  "ids_from n [] \<longleftrightarrow> True"
| "ids_from n (e # es) \<longleftrightarrow> ev_ID e = n \<and> ids_from (n + 1) es"

text \<open>
  The ring holds the last events, at most \<open>cap\<close> of them and all of them while there are fewer, with consecutive ids up
  to the newest; the active subscriptions are distinct, open and allocated, and no buffer is larger than its channel.
\<close>

definition ring_inv :: "nat \<Rightarrow> int \<Rightarrow> Event list \<Rightarrow> bool" where
  "ring_inv cap next ring \<longleftrightarrow>
     0 < cap \<and> 1 \<le> next \<and> length ring = min cap (nat (next - 1)) \<and> ids_from (next - int (length ring)) ring"

definition subs_inv :: "nat list \<Rightarrow> Subscription list \<Rightarrow> bool" where
  "subs_inv subs store \<longleftrightarrow>
     distinct subs \<and> set subs = {a. a < length store \<and> \<not> sb_closed (store ! a)} \<and>
     (\<forall>a < length store. length (sb_C (store ! a)) \<le> chan_cap)"

definition hub_inv :: "Hub \<Rightarrow> bool" where
  "hub_inv h \<longleftrightarrow> ring_inv (hb_cap h) (hb_nextID h) (hb_ring h) \<and> subs_inv (hb_subs h) (hb_store h)"

lemma ids_from_append [simp]: "ids_from n (xs @ ys) \<longleftrightarrow> ids_from n xs \<and> ids_from (n + int (length xs)) ys"
  by (induction xs arbitrary: n) (simp_all add: algebra_simps)

lemma ids_from_drop: "ids_from n es \<Longrightarrow> k \<le> length es \<Longrightarrow> ids_from (n + int k) (drop k es)"
  by (metis append_take_drop_id ids_from_append length_take min.absorb2)

lemma ids_from_nth: "ids_from n es \<Longrightarrow> i < length es \<Longrightarrow> ev_ID (es ! i) = n + int i"
  by (induction es arbitrary: n i) (auto simp: nth_Cons')

lemma ids_from_filter: "ids_from n es \<Longrightarrow> filter (\<lambda>e. ev_ID e > after) es = drop (nat (after + 1 - n)) es"
proof (induction es arbitrary: n)
  case (Cons e es)
  show ?case
  proof (cases "n > after")
    case True
    then show ?thesis using Cons.IH [of "n + 1"] Cons.prems by simp
  next
    case False
    then have "nat (after + 1 - n) = Suc (nat (after + 1 - (n + 1)))" by simp
    then show ?thesis using Cons.IH [of "n + 1"] Cons.prems False by simp
  qed
qed simp

subsection \<open>Every operation keeps it\<close>

lemma hub_inv_new: "hub_inv (NewHub capacity)"
  by (simp add: hub_inv_def ring_inv_def subs_inv_def NewHub_def)

lemma subs_inv_update:
  "subs_inv subs store \<Longrightarrow> a < length store \<Longrightarrow> sb_closed s = sb_closed (store ! a) \<Longrightarrow> length (sb_C s) \<le> chan_cap
    \<Longrightarrow> subs_inv subs (store[a := s])"
  by (auto simp: subs_inv_def nth_list_update)

lemma subs_inv_close:
  "subs_inv subs store \<Longrightarrow> a < length store \<Longrightarrow> subs_inv (removeAll a subs) (store[a := (store ! a)\<lparr>sb_closed := True\<rparr>])"
  by (auto simp: subs_inv_def nth_list_update distinct_removeAll)

lemma closeLocked_inv [step_inv]: "hub_inv h \<Longrightarrow> a < length (hb_store h) \<Longrightarrow> hub_inv (closeLocked a h)"
  by (simp add: hub_inv_def closeLocked_def Let_def subs_inv_close)

lemma Close_inv [step_inv]: "hub_inv h \<Longrightarrow> hub_inv (Close a h)"
  by (simp add: Close_def closeLocked_inv)

lemma offer_length [simp]: "length (hb_store (offer ev a h)) = length (hb_store h)"
  by (simp add: offer_def closeLocked_def Let_def)

lemma offer_inv [step_inv]: "hub_inv h \<Longrightarrow> a < length (hb_store h) \<Longrightarrow> hub_inv (offer ev a h)"
  by (simp add: offer_def Let_def closeLocked_inv) (simp add: hub_inv_def subs_inv_update)

lemma offers_inv: "hub_inv h \<Longrightarrow> \<forall>a \<in> set as. a < length (hb_store h) \<Longrightarrow> hub_inv (fold (offer ev) as h)"
  by (induction as arbitrary: h) (simp_all add: offer_inv)

lemma ring_inv_push:
  assumes "ring_inv cap next ring" "ev_ID ev = next"
  shows "ring_inv cap (next + 1) (if length (ring @ [ev]) > cap then drop (length (ring @ [ev]) - cap) (ring @ [ev]) else ring @ [ev])"
proof -
  let ?r = "ring @ [ev]"
  have n: "length ring = min cap (nat (next - 1))" "1 \<le> next" "0 < cap" and "ids_from (next - int (length ring)) ring"
    using assms(1) unfolding ring_inv_def by blast+
  then have r: "ids_from (next - int (length ring)) ?r" using assms(2) by simp
  show ?thesis
  proof (cases "length ?r > cap")
    case True
    then have full: "length ring = cap" using n by simp
    then have "ids_from (next + 1 - int cap) (drop 1 ?r)" using ids_from_drop [OF r, of 1] by (simp add: algebra_simps)
    moreover have "cap \<le> nat next" using full n by simp
    ultimately show ?thesis using full n(2,3) by (simp add: ring_inv_def)
  next
    case False
    then have "length ring = nat (next - 1)" "int (length ring) = next - 1" using n by auto
    then show ?thesis using False r n(2,3) by (simp add: ring_inv_def)
  qed
qed

definition new_event :: "string \<Rightarrow> string \<Rightarrow> data \<Rightarrow> gtime \<Rightarrow> Hub \<Rightarrow> Event" where
  "new_event typ channel dat now h = \<lparr>ev_ID = hb_nextID h, ev_Type = typ, ev_Time = now, ev_Channel = channel, ev_Data = dat\<rparr>"

definition push_ring :: "Event \<Rightarrow> Hub \<Rightarrow> Hub" where
  "push_ring ev h = h\<lparr>hb_nextID := hb_nextID h + 1,
     hb_ring := (if length (hb_ring h @ [ev]) > hb_cap h then drop (length (hb_ring h @ [ev]) - hb_cap h) (hb_ring h @ [ev]) else hb_ring h @ [ev])\<rparr>"

lemma push_ring_subs [simp]: "hb_subs (push_ring ev h) = hb_subs h" "hb_store (push_ring ev h) = hb_store h" "hb_cap (push_ring ev h) = hb_cap h"
  by (simp_all add: push_ring_def)

lemma Publish_alt:
  "Publish typ channel dat now h =
     (new_event typ channel dat now h, fold (offer (new_event typ channel dat now h)) (hb_subs h) (push_ring (new_event typ channel dat now h) h))"
  by (simp add: Publish_def new_event_def push_ring_def Let_def)

lemma push_ring_inv: "hub_inv h \<Longrightarrow> ev_ID ev = hb_nextID h \<Longrightarrow> hub_inv (push_ring ev h)"
  unfolding hub_inv_def push_ring_def using ring_inv_push [of "hb_cap h" "hb_nextID h" "hb_ring h" ev] by simp

lemma hub_inv_ringD: "hub_inv h \<Longrightarrow> ids_from (hb_nextID h - int (length (hb_ring h))) (hb_ring h)
    \<and> length (hb_ring h) = min (hb_cap h) (nat (hb_nextID h - 1)) \<and> 1 \<le> hb_nextID h \<and> 0 < hb_cap h"
  unfolding hub_inv_def ring_inv_def by blast

lemma hub_inv_subs: "hub_inv h \<Longrightarrow> a \<in> set (hb_subs h) \<longleftrightarrow> a < length (hb_store h) \<and> \<not> sb_closed (hb_store h ! a)"
  by (simp add: hub_inv_def subs_inv_def)

lemma Publish_inv [step_inv]: "hub_inv h \<Longrightarrow> hub_inv (snd (Publish typ channel dat now h))"
  by (simp add: Publish_alt offers_inv push_ring_inv new_event_def hub_inv_subs)

lemma Subscribe_inv [step_inv]: "hub_inv h \<Longrightarrow> Subscribe after h = (replay, a, h') \<Longrightarrow> hub_inv h'"
  unfolding hub_inv_def Subscribe_def subs_inv_def by (auto simp: nth_append less_Suc_eq)

lemma recv_inv [step_inv]: "hub_inv h \<Longrightarrow> recv a h = Some (e, h') \<Longrightarrow> hub_inv h'"
  unfolding recv_def hub_inv_def
  by (auto split: if_splits list.splits intro!: subs_inv_update) (metis Suc_leD length_Cons subs_inv_def)

subsection \<open>Streams\<close>

text \<open>
  What happens to a hub while the subscriber \<open>a\<close> listens: \<open>pubs\<close> is what is published, \<open>got\<close> what the subscriber receives.
  The other subscribers come, receive and go as they like.
\<close>

inductive hub_run :: "nat \<Rightarrow> Hub \<Rightarrow> Event list \<Rightarrow> Event list \<Rightarrow> Hub \<Rightarrow> bool" for a :: nat and h :: Hub where
  run_start: "hub_run a h [] [] h"
| run_publish: "hub_run a h pubs got h1 \<Longrightarrow> Publish typ channel dat now h1 = (ev, h2) \<Longrightarrow> hub_run a h (pubs @ [ev]) got h2"
| run_recv: "hub_run a h pubs got h1 \<Longrightarrow> recv a h1 = Some (ev, h2) \<Longrightarrow> hub_run a h pubs (got @ [ev]) h2"
| run_other_recv: "hub_run a h pubs got h1 \<Longrightarrow> b \<noteq> a \<Longrightarrow> recv b h1 = Some (ev, h2) \<Longrightarrow> hub_run a h pubs got h2"
| run_subscribe: "hub_run a h pubs got h1 \<Longrightarrow> Subscribe after h1 = (replay, b, h2) \<Longrightarrow> hub_run a h pubs got h2"
| run_close: "hub_run a h pubs got h1 \<Longrightarrow> hub_run a h pubs got (Close b h1)"

text \<open>A stream is intact: what was received and what is buffered is what was published, cut short only by a closed channel.\<close>

definition stream_ok :: "nat \<Rightarrow> Event list \<Rightarrow> Event list \<Rightarrow> Hub \<Rightarrow> bool" where
  "stream_ok a pubs got h \<longleftrightarrow>
     a < length (hb_store h) \<and> (\<exists>rest. pubs = got @ sb_C (hb_store h ! a) @ rest \<and> (rest \<noteq> [] \<longrightarrow> sb_closed (hb_store h ! a)))"

lemma closeLocked_C [simp]: "sb_C (hb_store (closeLocked b h) ! a) = sb_C (hb_store h ! a)"
  by (cases "b = a"; cases "a < length (hb_store h)") (auto simp: closeLocked_def Let_def not_less list_update_beyond)

lemma closeLocked_closed: "sb_closed (hb_store h ! a) \<Longrightarrow> sb_closed (hb_store (closeLocked b h) ! a)"
  by (cases "b = a"; cases "a < length (hb_store h)") (auto simp: closeLocked_def Let_def not_less list_update_beyond)

lemma closeLocked_length [simp]: "length (hb_store (closeLocked b h)) = length (hb_store h)"
  by (simp add: closeLocked_def Let_def)

lemma offer_other: "b \<noteq> a \<Longrightarrow> hb_store (offer ev b h) ! a = hb_store h ! a"
  by (simp add: offer_def closeLocked_def Let_def)

lemma offers_other: "a \<notin> set as \<Longrightarrow> hb_store (fold (offer ev) as h) ! a = hb_store h ! a"
  by (induction as arbitrary: h) (simp_all add: offer_other)

lemma offers_length [simp]: "length (hb_store (fold (offer ev) as h)) = length (hb_store h)"
  by (induction as arbitrary: h) simp_all

lemma offers_one: "distinct as \<Longrightarrow> a \<in> set as \<Longrightarrow> hb_store (fold (offer ev) as h) ! a = hb_store (offer ev a h) ! a"
proof (induction as arbitrary: h)
  case (Cons b as)
  show ?case
  proof (cases "a = b")
    case True
    then show ?thesis using Cons.prems offers_other by simp
  next
    case False
    then have "hb_store (offer ev a (offer ev b h)) ! a = hb_store (offer ev a h) ! a"
      by (cases "a < length (hb_store h)") (simp_all add: offer_def closeLocked_def Let_def not_less list_update_beyond)
    then show ?thesis using Cons False by simp
  qed
qed simp

lemma Publish_store:
  assumes "hub_inv h" "Publish typ channel dat now h = (ev, h')" "a < length (hb_store h)"
  shows "hb_store h' ! a = (if sb_closed (hb_store h ! a) then hb_store h ! a else hb_store (offer ev a h) ! a)"
    and "length (hb_store h') = length (hb_store h)"
proof -
  have h': "ev = new_event typ channel dat now h" "h' = fold (offer ev) (hb_subs h) (push_ring ev h)" using assms(2) by (auto simp: Publish_alt)
  have off: "hb_store (offer ev a (push_ring ev h)) ! a = hb_store (offer ev a h) ! a"
    by (simp add: offer_def closeLocked_def Let_def)
  have "distinct (hb_subs h)" using assms(1) by (simp add: hub_inv_def subs_inv_def)
  then show "hb_store h' ! a = (if sb_closed (hb_store h ! a) then hb_store h ! a else hb_store (offer ev a h) ! a)"
    using hub_inv_subs [OF assms(1), of a] assms(3) by (auto simp: h'(2) offers_other offers_one off)
  show "length (hb_store h') = length (hb_store h)" by (simp add: h'(2))
qed

lemma stream_ok_publish:
  assumes "hub_inv h" "stream_ok a pubs got h" "Publish typ channel dat now h = (ev, h')"
  shows "stream_ok a (pubs @ [ev]) got h'"
proof -
  obtain rest where r: "a < length (hb_store h)" "pubs = got @ sb_C (hb_store h ! a) @ rest" "rest \<noteq> [] \<longrightarrow> sb_closed (hb_store h ! a)"
    using assms(2) by (auto simp: stream_ok_def)
  note st = Publish_store [OF assms(1,3) r(1)]
  show ?thesis
  proof (cases "sb_closed (hb_store h ! a)")
    case True
    then show ?thesis using r st by (auto simp: stream_ok_def)
  next
    case False
    then have "rest = []" using r(3) by blast
    then show ?thesis using r(1,2) st False
      by (cases "length (sb_C (hb_store h ! a)) < chan_cap") (auto simp: stream_ok_def offer_def closeLocked_def Let_def)
  qed
qed

lemma hub_run_inv: "hub_run a h pubs got h' \<Longrightarrow> hub_inv h \<Longrightarrow> hub_inv h'"
proof (induction rule: hub_run.induct)
  case (run_publish pubs got h1 ty channel dat now ev h2)
  then show ?case using Publish_inv [of h1 ty channel dat now] by simp
qed (auto intro: step_inv)

lemma hub_run_stream:
  assumes "hub_run a h pubs got h'" "hub_inv h" "a < length (hb_store h)" "sb_C (hb_store h ! a) = []"
  shows "stream_ok a pubs got h'"
  using assms(1)
proof (induction rule: hub_run.induct)
  case run_start
  then show ?case using assms(3,4) by (simp add: stream_ok_def)
next
  case (run_publish pubs got h1 ty channel dat now ev h2)
  then show ?case using stream_ok_publish hub_run_inv assms(2) by blast
next
  case (run_recv pubs got h1 ev h2)
  then show ?case by (auto simp: stream_ok_def recv_def split: if_splits list.splits)
next
  case (run_other_recv pubs got h1 b ev h2)
  then show ?case by (auto simp: stream_ok_def recv_def split: if_splits list.splits)
next
  case (run_subscribe pubs got h1 after replay b h2)
  then show ?case by (auto simp: stream_ok_def Subscribe_def nth_append)
next
  case (run_close pubs got h1 b)
  then show ?case by (auto simp: stream_ok_def Close_def closeLocked_closed)
qed

lemma offers_next [simp]: "hb_nextID (fold (offer ev) as h) = hb_nextID h"
  and offers_ring [simp]: "hb_ring (fold (offer ev) as h) = hb_ring h"
  and offers_cap [simp]: "hb_cap (fold (offer ev) as h) = hb_cap h"
  by (induction as arbitrary: h) (simp_all add: offer_def closeLocked_def Let_def)

lemma Publish_ring:
  assumes "Publish typ channel dat now h = (ev, h')"
  shows "ev_ID ev = hb_nextID h" "hb_nextID h' = hb_nextID h + 1" "hb_cap h' = hb_cap h"
    "\<exists>d. hb_ring h @ [ev] = d @ hb_ring h'"
proof -
  have h': "ev = new_event typ channel dat now h" "h' = fold (offer ev) (hb_subs h) (push_ring ev h)" using assms by (auto simp: Publish_alt)
  show "ev_ID ev = hb_nextID h" by (simp add: h'(1) new_event_def)
  show "hb_nextID h' = hb_nextID h + 1" "hb_cap h' = hb_cap h" by (simp_all add: h'(2)) (simp add: push_ring_def)
  show "\<exists>d. hb_ring h @ [ev] = d @ hb_ring h'"
  proof -
    let ?r = "hb_ring h @ [ev]"
    have "hb_ring h' = drop (if length ?r > hb_cap h then length ?r - hb_cap h else 0) ?r" unfolding h'(2) offers_ring by (simp add: push_ring_def)
    then show ?thesis by (metis append_take_drop_id)
  qed
qed

lemma hub_run_ids: "hub_run a h pubs got h' \<Longrightarrow> ids_from (hb_nextID h) pubs \<and> hb_nextID h' = hb_nextID h + int (length pubs) \<and> hb_cap h' = hb_cap h"
proof (induction rule: hub_run.induct)
  case (run_publish pubs got h1 ty channel dat now ev h2)
  then show ?case using Publish_ring [OF run_publish.hyps(2)] by simp
qed (auto simp: recv_def Subscribe_def Close_def closeLocked_def Let_def split: if_splits list.splits)

text \<open>The ring is always the end of everything that was published.\<close>

lemma hub_run_ring: "hub_run a h pubs got h' \<Longrightarrow> \<exists>d. hb_ring h @ pubs = d @ hb_ring h'"
proof (induction rule: hub_run.induct)
  case (run_publish pubs got h1 ty channel dat now ev h2)
  obtain d e where "hb_ring h @ pubs = d @ hb_ring h1" "hb_ring h1 @ [ev] = e @ hb_ring h2"
    using run_publish.IH Publish_ring(4) [OF run_publish.hyps(2)] by blast
  then have "hb_ring h @ pubs @ [ev] = (d @ e) @ hb_ring h2" by (metis append.assoc)
  then show ?case by blast
qed (auto simp: recv_def Subscribe_def Close_def closeLocked_def Let_def split: if_splits list.splits)

lemma Subscribe_replay:
  assumes "hub_inv h" "Subscribe after h = (replay, a, h0)" "after \<le> Last h"
  shows "\<exists>pre. hb_ring h = pre @ replay \<and> ids_from (hb_nextID h - int (length replay)) replay"
    and "int (length replay) = min (int (length (hb_ring h))) (Last h - after)"
proof -
  let ?n = "hb_nextID h - int (length (hb_ring h))"
  have ids: "ids_from ?n (hb_ring h)" using hub_inv_ringD [OF assms(1)] by blast
  have rep: "replay = drop (nat (after + 1 - ?n)) (hb_ring h)" using assms(2) ids_from_filter [OF ids] by (simp add: Subscribe_def)
  have k: "nat (after + 1 - ?n) \<le> length (hb_ring h)" using assms(3) by (simp add: Last_def)
  show "int (length replay) = min (int (length (hb_ring h))) (Last h - after)" using k by (auto simp: rep Last_def)
  define j where "j = nat (after + 1 - ?n)"
  have j: "replay = drop j (hb_ring h)" "j \<le> length (hb_ring h)" using rep k by (simp_all add: j_def)
  have "ids_from (?n + int j) replay" using ids_from_drop [OF ids j(2)] j(1) by simp
  moreover have "?n + int j = hb_nextID h - int (length replay)" using j by simp
  moreover have "hb_ring h = take j (hb_ring h) @ replay" using j(1) by simp
  ultimately show "\<exists>pre. hb_ring h = pre @ replay \<and> ids_from (hb_nextID h - int (length replay)) replay" by metis
qed

text \<open>A subscriber misses nothing and gets nothing twice: the replayed events and the live ones have consecutive ids,
  starting right after the id it asked for (or at the oldest remembered one); what it has received and what waits in its
  channel is exactly what was published since it subscribed, in order, unless it was cut off (too slow, or closed), and then
  it is the beginning of that.\<close>

theorem hub_stream_exact:
  assumes "hub_inv h" and "Subscribe after h = (replay, a, h0)" and "after \<le> Last h" and "hub_run a h0 pubs got h1"
  shows "ids_from (max (after + 1) (hb_nextID h - int (length (hb_ring h)))) (replay @ pubs) \<and>
    (\<exists>rest. pubs = got @ sb_C (hb_store h1 ! a) @ rest \<and> (rest \<noteq> [] \<longrightarrow> sb_closed (hb_store h1 ! a)))"
proof -
  have h0: "hub_inv h0" "hb_nextID h0 = hb_nextID h" "a < length (hb_store h0)" "sb_C (hb_store h0 ! a) = []"
    using assms(2) Subscribe_inv [OF assms(1,2)] by (auto simp: Subscribe_def)
  have "stream_ok a pubs got h1" using hub_run_stream [OF assms(4) h0(1,3,4)] .
  moreover have "ids_from (hb_nextID h - int (length replay)) replay" "ids_from (hb_nextID h) pubs"
    using Subscribe_replay(1) [OF assms(1-3)] hub_run_ids [OF assms(4)] h0(2) by auto
  moreover have "hb_nextID h - int (length replay) = max (after + 1) (hb_nextID h - int (length (hb_ring h)))"
    using Subscribe_replay(2) [OF assms(1-3)] by (simp add: Last_def max_def min_def)
  ultimately have "ids_from (max (after + 1) (hb_nextID h - int (length (hb_ring h)))) (replay @ pubs)" by (metis diff_add_cancel ids_from_append)
  then show ?thesis using \<open>stream_ok a pubs got h1\<close> unfolding stream_ok_def by blast
qed

text \<open>A subscriber that was cut off loses nothing when it comes back in time: it asks for what follows the last event it
  saw, and as long as no more than the capacity of the hub was published meanwhile, the new replay continues its stream
  without a gap and without a repetition.\<close>

theorem hub_resume:
  assumes "hub_inv h" and "Subscribe after h = (replay, a, h0)" and "after \<le> Last h" and "hub_run a h0 pubs got h1"
    and "lst = (if replay @ got = [] then after else ev_ID (last (replay @ got)))"
    and "Subscribe lst h1 = (replay2, b, h2)" and "Last h1 - lst \<le> int (hb_cap h1)"
  shows "replay @ got @ replay2 = replay @ pubs"
proof -
  let ?n = "hb_nextID h - int (length (hb_ring h))"
  have h0: "hub_inv h0" "hb_nextID h0 = hb_nextID h" "hb_ring h0 = hb_ring h" "a < length (hb_store h0)" "sb_C (hb_store h0 ! a) = []"
    using assms(2) Subscribe_inv [OF assms(1,2)] by (auto simp: Subscribe_def)
  obtain later where later: "pubs = got @ later"
    using hub_run_stream [OF assms(4) h0(1,4,5)] by (auto simp: stream_ok_def)
  obtain pre where pre: "hb_ring h = pre @ replay" using Subscribe_replay(1) [OF assms(1-3)] by blast
  obtain d where d: "hb_ring h @ pubs = d @ hb_ring h1" using hub_run_ring [OF assms(4)] h0(3) by auto
  have idr: "ids_from ?n (hb_ring h)" and ids: "ids_from (hb_nextID h) pubs" "hb_nextID h1 = hb_nextID h + int (length pubs)"
    using hub_inv_ringD [OF assms(1)] hub_run_ids [OF assms(4)] h0(2) by auto
  then have all: "ids_from ?n (hb_ring h @ pubs)" by simp
  have r1: "length (hb_ring h1) = min (hb_cap h1) (nat (hb_nextID h1 - 1))" "1 \<le> hb_nextID h1"
    using hub_inv_ringD hub_run_inv [OF assms(4) h0(1)] by blast+
  have len: "int (length d) = int (length (hb_ring h)) + int (length pubs) - int (length (hb_ring h1))"
    using arg_cong [OF d, of length] by simp
  have idr1: "ids_from (?n + int (length d)) (hb_ring h1)" using all unfolding d by simp
  have rep2: "replay2 = drop (nat (lst + 1 - (?n + int (length d)))) (hb_ring h1)"
    using assms(6) ids_from_filter [OF idr1, of lst] by (simp add: Subscribe_def)
  have start: "?n + int (length d) = hb_nextID h1 - int (length (hb_ring h1))" using len ids(2) by simp
  have "?n + int (length d) \<le> lst + 1 \<or> length d = 0"
  proof (cases "length (hb_ring h1) = hb_cap h1")
    case True
    then show ?thesis using start assms(7) by (simp add: Last_def)
  next
    case False
    then have "?n + int (length d) = 1" using r1 start by (simp add: min_def split: if_splits)
    moreover have "1 \<le> ?n" using hub_inv_ringD [OF assms(1)] by linarith
    ultimately have "length d = 0" by linarith
    then show ?thesis ..
  qed
  then have "replay2 = drop (nat (lst + 1 - ?n)) (d @ hb_ring h1)"
    unfolding rep2 by (auto simp: nat_diff_distrib' intro!: arg_cong [of _ _ "\<lambda>k. drop k (hb_ring h1)"])
  also have "\<dots> = drop (nat (lst + 1 - ?n)) ((hb_ring h @ got) @ later)" using d later by simp
  also have "\<dots> = later"
  proof (cases "replay @ got = []")
    case True
    then have "length (hb_ring h) = 0 \<or> after = Last h" using Subscribe_replay(2) [OF assms(1-3)] by (simp add: min_def split: if_splits)
    then show ?thesis using True assms(3,5) by (auto simp: Last_def)
  next
    case False
    have "ids_from ?n (hb_ring h @ got)" using all later by simp
    then have "ev_ID (last (hb_ring h @ got)) = ?n + int (length (hb_ring h @ got)) - 1"
      using ids_from_nth [of ?n "hb_ring h @ got" "length (hb_ring h @ got) - 1"] False pre by (simp add: last_conv_nth of_nat_diff)
    moreover have "last (hb_ring h @ got) = last (replay @ got)" using False pre by (cases "got = []") (auto simp: last_append)
    moreover have "lst = ev_ID (last (replay @ got))" using False assms(5) by argo
    ultimately have "lst + 1 - ?n = int (length (hb_ring h @ got))" by simp
    then have "nat (lst + 1 - ?n) = length (hb_ring h @ got)" by (simp only: nat_int)
    then show ?thesis by simp
  qed
  finally show ?thesis using later by simp
qed

text \<open>The hub keeps its promise whatever happens: from a new hub, after any sequence of publishing, subscribing, receiving and
  closing, the ring holds the newest events, at most its capacity and all of them while there are fewer, with consecutive ids
  up to the newest, and no channel holds more than its buffer.\<close>

theorem hub_always_ok:
  assumes "hub_run a (NewHub capacity) pubs got h"
  shows "hub_inv h \<and> Last h = int (length pubs) \<and> hb_ring h = drop (length pubs - hb_cap h) pubs \<and> ids_from 1 pubs"
proof -
  have inv: "hub_inv h" using hub_run_inv [OF assms hub_inv_new] .
  have ids: "ids_from 1 pubs" "hb_nextID h = 1 + int (length pubs)" using hub_run_ids [OF assms] by (simp_all add: NewHub_def)
  obtain d where d: "pubs = d @ hb_ring h" using hub_run_ring [OF assms] by (auto simp: NewHub_def)
  have "length (hb_ring h) = min (hb_cap h) (length pubs)" using hub_inv_ringD [OF inv] ids(2) by simp
  then have "length pubs - hb_cap h = length d" using arg_cong [OF d, of length] by simp
  then show ?thesis using inv ids d by (simp add: Last_def)
qed

abbreviation w_pub :: "Hub \<Rightarrow> Hub" where
  "w_pub h \<equiv> snd (Publish ''break.started'' ''c1'' [] 0 h)"

lemma run_pub: "hub_run a h pubs got h1 \<Longrightarrow> \<exists>ev. hub_run a h (pubs @ [ev]) got (w_pub h1)"
  using run_publish [of a h pubs got h1 "''break.started''" "''c1''" "[]" 0] by (metis prod.collapse)

theorem hub_always_ok_witness:
  "hub_inv (w_pub (w_pub (w_pub (NewHub 2)))) \<and> length (hb_ring (w_pub (w_pub (w_pub (NewHub 2))))) = 2"
proof -
  obtain e1 e2 e3 where r: "hub_run 0 (NewHub 2) ((([] @ [e1]) @ [e2]) @ [e3]) [] (w_pub (w_pub (w_pub (NewHub 2))))"
    using run_pub run_start by metis
  have "hb_cap (w_pub (w_pub (w_pub (NewHub 2)))) = 2" by (simp add: Publish_alt NewHub_def)
  then show ?thesis using hub_always_ok [OF r] by simp
qed

theorem hub_stream_exact_witness:
  "let (replay, a, h0) = Subscribe 1 (w_pub (w_pub (NewHub 10))) in map ev_ID (replay @ sb_C (hb_store (w_pub h0) ! a)) = [2, 3]"
proof -
  let ?h = "w_pub (w_pub (NewHub 10))"
  obtain replay a h0 where s: "Subscribe 1 ?h = (replay, a, h0)" by (metis surj_pair)
  obtain ev where r: "hub_run a h0 ([] @ [ev]) [] (w_pub h0)" using run_pub run_start by blast
  have inv: "hub_inv ?h" by (intro Publish_inv hub_inv_new)
  have le: "1 \<le> Last ?h" by (simp add: Last_def Publish_alt NewHub_def push_ring_def)
  have rep: "length replay = 1" "hb_nextID ?h = 3" "length (hb_ring ?h) = 2"
    "\<not> sb_closed (hb_store (w_pub h0) ! a)"
    using s by (auto simp: Subscribe_def Publish_alt NewHub_def push_ring_def new_event_def offer_def chan_cap_def)
  have ids: "ids_from 2 (replay @ [ev])" and "\<exists>rest. [ev] = sb_C (hb_store (w_pub h0) ! a) @ rest \<and> (rest \<noteq> [] \<longrightarrow> sb_closed (hb_store (w_pub h0) ! a))"
    using hub_stream_exact [OF inv s le r] rep(2,3) by auto
  then have c: "sb_C (hb_store (w_pub h0) ! a) = [ev]" using rep(4) by (metis append_Nil2)
  obtain x where "replay = [x]" using rep(1) by (cases replay) auto
  then show ?thesis using ids unfolding s by (simp only: case_prod_conv Let_def c) simp
qed

theorem hub_resume_witness:
  "map ev_ID (fst (Subscribe 1 (w_pub (w_pub (snd (snd (Subscribe 0 (w_pub (NewHub 10))))))))) = [2, 3]"
proof -
  let ?h = "w_pub (NewHub 10)"
  obtain replay a h0 where s: "Subscribe 0 ?h = (replay, a, h0)" by (metis surj_pair)
  let ?h1 = "w_pub (w_pub h0)"
  obtain e1 e2 where r: "hub_run a h0 (([] @ [e1]) @ [e2]) [] ?h1" using run_pub run_start by metis
  have inv: "hub_inv ?h" by (intro Publish_inv hub_inv_new)
  have le: "0 \<le> Last ?h" by (simp add: Last_def Publish_alt NewHub_def push_ring_def)
  have rep: "map ev_ID replay = [1]" "hb_nextID h0 = 2" "hb_cap ?h1 = 10"
    using s by (auto simp: Subscribe_def Publish_alt NewHub_def push_ring_def new_event_def)
  have lst: "(1::int) = (if replay @ [] = [] then 0 else ev_ID (last (replay @ [])))" using rep(1) by (cases replay) auto
  obtain replay2 b h2 where s2: "Subscribe 1 ?h1 = (replay2, b, h2)" by (metis surj_pair)
  have "Last ?h1 - 1 \<le> int (hb_cap ?h1)" using hub_run_ids [OF r] rep by (simp add: Last_def)
  then have "replay2 = [e1, e2]" using hub_resume [OF inv s le r lst s2] by simp
  moreover have "ids_from 2 [e1, e2]" using hub_run_ids [OF r] rep(2) by simp
  ultimately show ?thesis using s s2 by simp
qed

end
