(* ===== verification/GoText.thy ===== *)
theory GoText
  imports GoTime "HOL-Library.Monad_Syntax"
begin

text \<open>
  Text functions of Go's standard library that the playlist code uses: \<^verbatim>\<open>strconv.ParseInt\<close> and \<^verbatim>\<open>ParseFloat\<close>, \<^verbatim>\<open>%.3f\<close>,
  \<^verbatim>\<open>time.Parse(time.RFC3339Nano, s)\<close>, \<^verbatim>\<open>bufio.Scanner\<close> over lines and \<^verbatim>\<open>strings.Index\<close>. A float is the rational number that it
  denotes; the forms \<open>Inf\<close>, \<open>NaN\<close> and hexadecimal floats are outside of the model of \<^verbatim>\<open>ParseFloat\<close>. Every writer has its
  reader, and the lemmas say that reading gives back what was written.
\<close>

subsection \<open>Numbers\<close>

abbreviation dec_val :: "string \<Rightarrow> nat" where "dec_val s \<equiv> val_rev (rev s)"

text \<open>\<^verbatim>\<open>strconv.ParseInt(s, 10, 64)\<close>: the value that is returned next to the error, and whether there is none.\<close>

definition cut_sign :: "string \<Rightarrow> bool \<times> string" where
  "cut_sign s =
     (case s of
        [] \<Rightarrow> (False, [])
      | c # r \<Rightarrow> if c = CHR ''-'' then (True, r) else if c = CHR ''+'' then (False, r) else (False, s))"

definition ParseInt64 :: "string \<Rightarrow> int \<times> bool" where
  "ParseInt64 s =
     (case cut_sign s of (neg, ds) \<Rightarrow>
        if ds = [] \<or> \<not> list_all is_digit ds then (0, False)
        else
          let v = (if neg then - int (dec_val ds) else int (dec_val ds)) in
          if v \<ge> 2 ^ 63 then (2 ^ 63 - 1, False) else if v < - (2 ^ 63) then (- (2 ^ 63), False) else (v, True))"

definition parse_exponent :: "string \<Rightarrow> int option" where
  "parse_exponent s =
     (case s of
        [] \<Rightarrow> Some 0
      | c # r \<Rightarrow>
          if c = CHR ''e'' \<or> c = CHR ''E'' then
            (case cut_sign r of (neg, ds) \<Rightarrow>
               if ds = [] \<or> \<not> list_all is_digit ds then None
               else Some (if neg then - int (dec_val ds) else int (dec_val ds)))
          else None)"

definition pow10 :: "int \<Rightarrow> rat" where
  "pow10 e = (if e \<ge> 0 then 10 ^ nat e else 1 / 10 ^ nat (- e))"

definition ParseFloat :: "string \<Rightarrow> rat option" where
  "ParseFloat s =
     (case cut_sign s of (neg, r) \<Rightarrow>
        let ip = takeWhile is_digit r; r1 = dropWhile is_digit r;
            (fp, r2) = (if r1 \<noteq> [] \<and> hd r1 = CHR ''.'' then (takeWhile is_digit (tl r1), dropWhile is_digit (tl r1)) else ([], r1))
        in if ip @ fp = [] then None
           else (case parse_exponent r2 of
                   None \<Rightarrow> None
                 | Some e \<Rightarrow> Some ((if neg then - 1 else 1) * of_nat (dec_val (ip @ fp)) * pow10 (e - int (length fp)))))"

text \<open>\<^verbatim>\<open>%.3f\<close>: the nearest multiple of a thousandth, of two the even one.\<close>

definition round_even :: "rat \<Rightarrow> int" where
  "round_even x =
     (let f = \<lfloor>x\<rfloor>; r = x - of_int f in
      if r < 1 / 2 then f else if r > 1 / 2 then f + 1 else if even f then f else f + 1)"

definition fmt3 :: "rat \<Rightarrow> string" where
  "fmt3 x = (let k = round_even (\<bar>x\<bar> * 1000) in (if x < 0 then ''-'' else '''') @ itoa (k div 1000) @ ''.'' @ pad 3 (k mod 1000))"

subsection \<open>Times\<close>

definition expect :: "char \<Rightarrow> string \<Rightarrow> string option" where
  "expect c s = (case s of [] \<Rightarrow> None | x # r \<Rightarrow> if x = c then Some r else None)"

definition num_fixed :: "nat \<Rightarrow> string \<Rightarrow> (int \<times> string) option" where
  "num_fixed w s =
     (let p = take w s in if length p = w \<and> list_all is_digit p then Some (int (dec_val p), drop w s) else None)"

definition num_hour :: "string \<Rightarrow> (int \<times> string) option" where
  "num_hour s = (case num_fixed 2 s of Some r \<Rightarrow> Some r | None \<Rightarrow> num_fixed 1 s)"

definition frac_nanos :: "string \<Rightarrow> int \<times> string" where
  "frac_nanos s =
     (case s of
        [] \<Rightarrow> (0, [])
      | c # r \<Rightarrow>
          if (c = CHR ''.'' \<or> c = CHR '','') \<and> r \<noteq> [] \<and> is_digit (hd r) then
            let d = take 9 (takeWhile is_digit r) in (int (dec_val d * 10 ^ (9 - length d)), dropWhile is_digit r)
          else (0, s))"

definition zone_offset :: "string \<Rightarrow> (int \<times> string) option" where
  "zone_offset s =
     (case s of
        [] \<Rightarrow> None
      | c # r \<Rightarrow>
          if c = CHR ''Z'' then Some (0, r)
          else if c = CHR ''+'' \<or> c = CHR ''-'' then
            do {
              (hh, r) \<leftarrow> num_fixed 2 r;
              r \<leftarrow> expect (CHR '':'') r;
              (mm, r) \<leftarrow> num_fixed 2 r;
              if hh \<le> 24 \<and> mm \<le> 60 then Some ((if c = CHR ''-'' then - 1 else 1) * (hh * 60 + mm) * 60, r) else None
            }
          else None)"

definition Date :: "int \<Rightarrow> int \<Rightarrow> int \<Rightarrow> int \<Rightarrow> int \<Rightarrow> int \<Rightarrow> int \<Rightarrow> gtime" where
  "Date y mo d h mi s ns = (days_of_civil y mo d * 86400 + h * 3600 + mi * 60 + s) * second + ns"

definition parse_time :: "string \<Rightarrow> gtime option" where
  "parse_time s =
     do {
       (y, s) \<leftarrow> num_fixed 4 s;
       s \<leftarrow> expect (CHR ''-'') s;
       (mo, s) \<leftarrow> num_fixed 2 s;
       s \<leftarrow> expect (CHR ''-'') s;
       (d, s) \<leftarrow> num_fixed 2 s;
       s \<leftarrow> expect (CHR ''T'') s;
       (h, s) \<leftarrow> num_hour s;
       s \<leftarrow> expect (CHR '':'') s;
       (mi, s) \<leftarrow> num_fixed 2 s;
       s \<leftarrow> expect (CHR '':'') s;
       (sec, s) \<leftarrow> num_fixed 2 s;
       (case frac_nanos s of (ns, s) \<Rightarrow>
          do {
            (off, s) \<leftarrow> zone_offset s;
            if s = [] \<and> 1 \<le> mo \<and> mo \<le> 12 \<and> 1 \<le> d \<and> d \<le> month_lens y ! (nat mo - 1) \<and> h < 24 \<and> mi < 60 \<and> sec < 60
            then Some (Date y mo d h mi sec ns - off * second) else None
          })
     }"

subsection \<open>Lines\<close>

abbreviation NL :: char where "NL \<equiv> CHR 0x0A"

definition max_line :: nat where "max_line = 4 * 1024 * 1024"

definition lines_of :: "string \<Rightarrow> string list" where
  "lines_of s = (let ls = split_on NL s in if last ls = [] then butlast ls else ls)"

text \<open>The lines that \<^verbatim>\<open>sc.Scan()\<close> yields, and whether \<^verbatim>\<open>sc.Err()\<close> is nil: a line that does not fit into the buffer ends the scan.\<close>

definition scan_lines :: "string \<Rightarrow> string list \<times> bool" where
  "scan_lines s = (takeWhile (\<lambda>l. length l < max_line) (lines_of s), list_all (\<lambda>l. length l < max_line) (lines_of s))"

fun after_first :: "string \<Rightarrow> string \<Rightarrow> string option" where
  "after_first k [] = (if k = [] then Some [] else None)"
| "after_first k (c # s) = (if HasPrefix (c # s) k then Some (drop (length k) (c # s)) else after_first k s)"

subsection \<open>Reading what was written\<close>

lemma val_rev_append: "val_rev (xs @ ys) = val_rev xs + 10 ^ length xs * val_rev ys"
  by (induction xs) (simp_all add: algebra_simps)

lemma val_rev_zeros [simp]: "val_rev (replicate k (CHR ''0'')) = 0"
  by (induction k) simp_all

lemma dec_val_nat_dec [simp]: "dec_val (nat_dec n) = n"
  by (simp add: nat_dec_def)

lemma digits_rev_length: "n < 10 ^ w \<Longrightarrow> 0 < w \<Longrightarrow> length (digits_rev n) \<le> w"
proof (induction w arbitrary: n)
  case (Suc w)
  show ?case
  proof (cases "n < 10")
    case False
    then have "0 < w" using Suc.prems by (cases w) auto
    moreover have "n div 10 < 10 ^ w" using Suc.prems by (simp add: less_mult_imp_div_less mult.commute)
    ultimately show ?thesis using Suc.IH [of "n div 10"] False by (simp add: digits_rev.simps [of n])
  qed (simp add: digits_rev.simps [of n])
qed simp

lemma itoa_nonneg: "0 \<le> n \<Longrightarrow> itoa n = nat_dec (nat n)"
  by (simp add: itoa_def)

lemma nat_dec_length: "n < 10 ^ w \<Longrightarrow> 0 < w \<Longrightarrow> length (nat_dec n) \<le> w"
  by (simp add: nat_dec_def digits_rev_length)

lemma all_digits_nat_dec [simp]: "list_all is_digit (nat_dec n)"
  by (simp add: list_all_iff nat_dec_digits)

lemma digit_zero [simp]: "is_digit (CHR ''0'')"
  by (simp add: is_digit_def)

lemma pad_spec:
  assumes "0 \<le> n" "n < 10 ^ w" "0 < w"
  shows "length (pad w n) = w" "list_all is_digit (pad w n)" "dec_val (pad w n) = nat n"
proof -
  have n: "nat n < 10 ^ w" using assms by (simp add: nat_less_iff)
  show "length (pad w n) = w" using nat_dec_length [OF n assms(3)] by (simp add: pad_def itoa_nonneg [OF assms(1)] Let_def)
  show "list_all is_digit (pad w n)" by (auto simp: pad_def itoa_nonneg [OF assms(1)] Let_def list_all_iff dest: nat_dec_digits)
  show "dec_val (pad w n) = nat n" by (simp add: pad_def itoa_nonneg [OF assms(1)] Let_def val_rev_append)
qed

lemma num_fixed_pad: "0 \<le> n \<Longrightarrow> n < 10 ^ w \<Longrightarrow> 0 < w \<Longrightarrow> num_fixed w (pad w n @ r) = Some (n, r)"
  using pad_spec [of n w] by (simp add: num_fixed_def Let_def)

lemma num_hour_pad: "0 \<le> n \<Longrightarrow> n < 100 \<Longrightarrow> num_hour (pad 2 n @ r) = Some (n, r)"
  using num_fixed_pad [of n 2 r] by (simp add: num_hour_def)

lemma expect_Cons [simp]: "expect c (c # r) = Some r"
  by (simp add: expect_def)

lemma ParseInt64_itoa: "- (2 ^ 63) \<le> i \<Longrightarrow> i < 2 ^ 63 \<Longrightarrow> ParseInt64 (itoa i) = (i, True)"
proof -
  assume r: "- (2 ^ 63) \<le> i" "i < 2 ^ 63"
  have hd: "hd (nat_dec n) \<notin> {CHR ''-'', CHR ''+''}" for n
    using nat_dec_digits [of "hd (nat_dec n)" n] by (auto simp: is_digit_def)
  have "cut_sign (itoa i) = (i < 0, nat_dec (nat \<bar>i\<bar>))"
    using hd [of "nat i"] nat_dec_not_Nil [of "nat i"]
    by (cases "i < 0"; cases "nat_dec (nat i)") (auto simp: cut_sign_def itoa_def)
  then show ?thesis using r by (auto simp: ParseInt64_def Let_def)
qed

lemma takeWhile_digits: "list_all is_digit ds \<Longrightarrow> \<not> is_digit c \<Longrightarrow> takeWhile is_digit (ds @ c # r) = ds \<and> dropWhile is_digit (ds @ c # r) = c # r"
  by (induction ds) auto

lemma all_digits_take: "list_all is_digit ds \<Longrightarrow> takeWhile is_digit ds = ds \<and> dropWhile is_digit ds = []"
  by (induction ds) auto

lemma cut_sign_digit: "s \<noteq> [] \<Longrightarrow> is_digit (hd s) \<Longrightarrow> cut_sign s = (False, s)"
  by (cases s) (auto simp: cut_sign_def is_digit_def)

lemma round_even_int [simp]: "round_even (of_int k) = k"
  by (simp add: round_even_def Let_def)

lemma ParseFloat_fmt3: "0 \<le> k \<Longrightarrow> ParseFloat (fmt3 (of_int k / 1000)) = Some (of_int k / 1000)"
proof -
  assume k: "0 \<le> k"
  let ?ip = "nat_dec (nat (k div 1000))" and ?fp = "pad 3 (k mod 1000)"
  have fp: "length ?fp = 3" "list_all is_digit ?fp" "dec_val ?fp = nat (k mod 1000)" using pad_spec [of "k mod 1000" 3] by simp_all
  have "fmt3 (of_int k / 1000) = ?ip @ CHR ''.'' # ?fp" using k by (simp add: fmt3_def Let_def itoa_nonneg pos_imp_zdiv_nonneg_iff)
  moreover have "cut_sign (?ip @ CHR ''.'' # ?fp) = (False, ?ip @ CHR ''.'' # ?fp)"
    using nat_dec_digits [of "hd ?ip" "nat (k div 1000)"] by (intro cut_sign_digit) simp_all
  moreover have "int (dec_val (?ip @ ?fp)) = k"
    using k fp by (simp add: val_rev_append nat_mult_distrib [symmetric] pos_imp_zdiv_nonneg_iff)
  then have "of_nat (dec_val (?ip @ ?fp)) = (of_int k :: rat)" by (metis of_int_of_nat_eq)
  moreover have dot: "\<not> is_digit (CHR ''.'')" by (simp add: is_digit_def)
  note tw = dot takeWhile_digits [OF all_digits_nat_dec dot] all_digits_take [OF fp(2)]
  ultimately show ?thesis using fp(1) by (simp add: ParseFloat_def Let_def parse_exponent_def pow10_def tw)
qed

text \<open>Times of the engine: from 1970 on, before the year 9999, in whole milliseconds.\<close>

definition time_ok :: "gtime \<Rightarrow> bool" where
  "time_ok t \<longleftrightarrow> 0 \<le> t \<and> t < 253370764800 * second \<and> t mod millisecond = 0"

lemma parse_time_fields:
  assumes "1 \<le> y" "y \<le> 9999" "1 \<le> m" "m \<le> 12" "1 \<le> d" "d \<le> month_lens y ! (nat m - 1)" "d \<le> 31"
    and "0 \<le> h" "h < 24" "0 \<le> mi" "mi < 60" "0 \<le> s" "s < 60" "frac_nanos r = (ns, ''Z'')"
  shows "parse_time (pad 4 y @ CHR ''-'' # pad 2 m @ CHR ''-'' # pad 2 d @ CHR ''T'' # pad 2 h @ CHR '':'' # pad 2 mi @ CHR '':'' # pad 2 s @ r) =
    Some (Date y m d h mi s ns)"
  using assms by (simp add: parse_time_def num_fixed_pad num_hour_pad zone_offset_def)

lemma time_fields:
  assumes "0 \<le> y" "y < 10 ^ 4" "0 \<le> m" "m < 10 ^ 2" "0 \<le> d" "d < 10 ^ 2" "0 \<le> h" "h < 10 ^ 2" "0 \<le> mi" "mi < 10 ^ 2" "0 \<le> s" "s < 10 ^ 2"
    "0 \<le> ms" "ms < 10 ^ 3"
  defines "f \<equiv> pad 4 y @ CHR ''-'' # pad 2 m @ CHR ''-'' # pad 2 d @ CHR ''T'' # pad 2 h @ CHR '':'' # pad 2 mi @ CHR '':'' # pad 2 s @ CHR ''.'' # pad 3 ms @ ''Z''"
  shows "length f = 24" "c \<in> set f \<Longrightarrow> is_digit c \<or> c \<in> set ''-T:.Z''"
proof -
  note p = pad_spec [OF assms(1,2)] pad_spec [OF assms(3,4)] pad_spec [OF assms(5,6)] pad_spec [OF assms(7,8)] pad_spec [OF assms(9,10)]
    pad_spec [OF assms(11,12)] pad_spec [OF assms(13,14)]
  show "length f = 24" unfolding f_def by (simp add: p)
  show "c \<in> set f \<Longrightarrow> is_digit c \<or> c \<in> set ''-T:.Z''" unfolding f_def using p(2,5,8,11,14,17,20) by (auto simp: list_all_iff)
qed

lemma parse_format_millis:
  assumes "time_ok t"
  shows "parse_time (format_millis t) = Some t" "length (format_millis t) = 24" "c \<in> set (format_millis t) \<Longrightarrow> is_digit c \<or> c \<in> set ''-T:.Z''"
proof -
  define u where "u = Unix t"
  define ns where "ns = Nanosecond t"
  obtain y m d where c: "civil_of_days (u div 86400) = (y, m, d)" by (metis prod_cases3)
  have t: "t = u * second + ns" "0 \<le> ns" "ns < second" by (simp_all add: u_def ns_def Unix_def Nanosecond_def)
  have u: "0 \<le> u" "u < 253370764800" using assms t unfolding time_ok_def by (linarith, linarith)
  have days: "0 \<le> u div 86400" "u div 86400 < 2932532" using u by (simp_all add: pos_imp_zdiv_nonneg_iff)
  note cs = civil_spec [OF c] and yr = civil_year [OF c days]
  have lens: "month_lens y ! (nat m - 1) \<le> 31"
  proof -
    have "\<forall>x \<in> set (month_lens y). x \<le> 31" "nat m - 1 < length (month_lens y)" using cs(2,3) by (simp_all add: month_lens_def)
    then show ?thesis using nth_mem by blast
  qed
  define sod where "sod = u mod 86400"
  have sod: "0 \<le> sod" "sod < 86400" by (simp_all add: sod_def)
  have msd: "ns mod millisecond = 0" using assms t(1) by (simp add: time_ok_def mod_add_left_eq [symmetric] mod_mult_right_eq)
  define ms where "ms = ns div millisecond"
  have ms: "ns = ms * millisecond" "0 \<le> ms" "ms < 1000" using t(2,3) msd by (auto simp: ms_def pos_imp_zdiv_nonneg_iff)
  have f: "format_millis t = pad 4 y @ CHR ''-'' # pad 2 m @ CHR ''-'' # pad 2 d @ CHR ''T'' # pad 2 (sod div 3600) @ CHR '':'' #
      pad 2 (sod div 60 mod 60) @ CHR '':'' # pad 2 (sod mod 60) @ CHR ''.'' # pad 3 ms @ ''Z''"
    using c by (simp add: format_millis_def format_base_def Let_def u_def [symmetric] ns_def [symmetric] sod_def ms_def)
  have frac: "frac_nanos (CHR ''.'' # pad 3 ms @ ''Z'') = (ns, ''Z'')"
  proof -
    note p = pad_spec [of ms 3]
    have "pad 3 ms \<noteq> []" "is_digit (hd (pad 3 ms))" using p ms by (cases "pad 3 ms"; simp)+
    then show ?thesis using takeWhile_digits [of "pad 3 ms" "CHR ''Z''" "[]"] p ms
      by (simp add: frac_nanos_def Let_def is_digit_def)
  qed
  have h: "sod div 3600 = sod div 60 div 60" using zdiv_zmult2_eq [of 60 sod 60] by simp
  have "(sod div 60) * 60 + sod mod 60 = sod" "(sod div 60 div 60) * 60 + sod div 60 mod 60 = sod div 60" by (rule div_mult_mod_eq)+
  then have sum: "sod div 3600 * 3600 + sod div 60 mod 60 * 60 + sod mod 60 = sod" unfolding h by linarith
  have h24: "sod div 3600 < 24" "0 \<le> sod div 3600" using sod by (simp_all add: pos_imp_zdiv_nonneg_iff)
  have "parse_time (format_millis t) = Some (Date y m d (sod div 3600) (sod div 60 mod 60) (sod mod 60) ns)"
    unfolding f by (rule parse_time_fields) (use cs(2-5) yr h24 lens frac in simp_all)
  moreover have "Date y m d (sod div 3600) (sod div 60 mod 60) (sod mod 60) ns = t"
  proof -
    have "u div 86400 * 86400 + sod = u" unfolding sod_def by (rule div_mult_mod_eq)
    then have "u div 86400 * 86400 + sod div 3600 * 3600 + sod div 60 mod 60 * 60 + sod mod 60 = u" using sum by (metis add.assoc)
    then show ?thesis unfolding Date_def cs(1) t(1) by (simp only:)
  qed
  ultimately show "parse_time (format_millis t) = Some t" by simp
  have r1: "0 \<le> y" "y < 10 ^ 4" "0 \<le> m" "m < 10 ^ 2" "0 \<le> d" "d < 10 ^ 2" using cs(2-5) yr lens by simp_all
  have r2: "0 \<le> sod div 3600" "sod div 3600 < 10 ^ 2" using h24 by simp_all
  have r3: "0 \<le> sod div 60 mod 60" "sod div 60 mod 60 < 10 ^ 2" "0 \<le> sod mod 60" "sod mod 60 < 10 ^ 2"
    using pos_mod_bound [of 60 "sod div 60"] pos_mod_bound [of 60 sod] by simp_all
  have r4: "0 \<le> ms" "ms < 10 ^ 3" using ms(2,3) by simp_all
  show "length (format_millis t) = 24" unfolding f by (rule time_fields(1) [OF r1 r2 r3 r4])
  show "c \<in> set (format_millis t) \<Longrightarrow> is_digit c \<or> c \<in> set ''-T:.Z''" unfolding f by (rule time_fields(2) [OF r1 r2 r3 r4])
qed

lemma split_on_lines: "\<forall>l \<in> set ls. c \<notin> set l \<Longrightarrow> split_on c (concat (map (\<lambda>l. l @ [c]) ls)) = ls @ [[]]"
proof -
  have pre: "c \<notin> set l \<Longrightarrow> split_on c (l @ c # r) = l # split_on c r" for l r
    by (induction l) (auto split: list.splits)
  show "\<forall>l \<in> set ls. c \<notin> set l \<Longrightarrow> split_on c (concat (map (\<lambda>l. l @ [c]) ls)) = ls @ [[]]"
    by (induction ls) (simp_all add: pre)
qed

lemma scan_lines_of: "\<forall>l \<in> set ls. NL \<notin> set l \<and> length l < max_line \<Longrightarrow> scan_lines (concat (map (\<lambda>l. l @ [NL]) ls)) = (ls, True)"
  by (auto simp: scan_lines_def lines_of_def Let_def split_on_lines list_all_iff)

end
