(* ===== verification/Hls.thy ===== *)
theory Hls
  imports GoText
begin

text \<open>
  \<^verbatim>\<open>pkg/hls/hls.go\<close>: the reader of source playlists. \<open>res\<close> stands for \<^verbatim>\<open>resolve\<close>, the resolution of a reference against the
  address of the playlist by \<^verbatim>\<open>net/url\<close>; \<open>None\<close> is an address that cannot be parsed. Every early return of \<^verbatim>\<open>Parse\<close> is a
  constructor of \<open>hls_error\<close>.
\<close>

record Segment =
  sg_URI :: string
  sg_Duration :: rat
  sg_Discontinuity :: bool
  sg_ProgramDateTime :: gtime
  sg_MapURI :: string

record Playlist =
  pl_MapURI :: string
  pl_TargetDuration :: rat
  pl_MediaSequence :: int
  pl_DiscontinuitySequence :: int
  pl_Segments :: "Segment list"
  pl_Ended :: bool

definition zero_playlist :: Playlist where
  "zero_playlist = \<lparr>pl_MapURI = '''', pl_TargetDuration = 0, pl_MediaSequence = 0, pl_DiscontinuitySequence = 0, pl_Segments = [], pl_Ended = False\<rparr>"

datatype hls_error = NotM3U8 | MasterGiven | BadTarget | BadSequence | BadDiscontinuitySequence | BadDateTime | MapWithoutURI | BadReference string
  | BadExtinf | Encrypted | NoExtinf | ScanFailed | EmptyPlaylist | NoSegments

text \<open>The variables of the loop of \<^verbatim>\<open>Parse\<close>.\<close>

record parser =
  pa_pl :: Playlist
  pa_dur :: rat
  pa_disc :: bool
  pa_pdt :: gtime
  pa_map :: string
  pa_first :: bool

definition Attr :: "string \<Rightarrow> string \<Rightarrow> string" where
  "Attr line key =
     (case after_first (key @ ''='') line of
        None \<Rightarrow> ''''
      | Some v \<Rightarrow> if HasPrefix v [CHR 0x22] then takeWhile (\<lambda>c. c \<noteq> CHR 0x22) (tl v) else takeWhile (\<lambda>c. c \<noteq> CHR '','') v)"

definition parse_int_tag :: "string \<Rightarrow> hls_error \<Rightarrow> (int \<Rightarrow> hls_error + 'a) \<Rightarrow> hls_error + 'a" where
  "parse_int_tag v err k = (case ParseInt64 v of (n, ok) \<Rightarrow> if ok then k n else Inl err)"

definition parse_segment :: "(string \<Rightarrow> string option) \<Rightarrow> string \<Rightarrow> parser \<Rightarrow> hls_error + parser" where
  "parse_segment res line p =
     (if pa_dur p < 0 then Inl NoExtinf
      else
        (case res line of
           None \<Rightarrow> Inl (BadReference line)
         | Some absURI \<Rightarrow>
             Inr (p\<lparr>pa_pl := (pa_pl p)\<lparr>pl_Segments := pl_Segments (pa_pl p) @
                      [\<lparr>sg_URI = absURI, sg_Duration = pa_dur p, sg_Discontinuity = pa_disc p, sg_ProgramDateTime = pa_pdt p, sg_MapURI = pa_map p\<rparr>]\<rparr>,
                    pa_dur := - 1, pa_disc := False, pa_pdt := zero_time\<rparr>)))"

definition parse_tag :: "(string \<Rightarrow> string option) \<Rightarrow> string \<Rightarrow> parser \<Rightarrow> hls_error + parser" where
  "parse_tag res line p =
     (if HasPrefix line ''#EXT-X-STREAM-INF'' then Inl MasterGiven
      else if HasPrefix line ''#EXT-X-TARGETDURATION:'' then
        (case ParseFloat (TrimPrefix line ''#EXT-X-TARGETDURATION:'') of
           None \<Rightarrow> Inl BadTarget
         | Some v \<Rightarrow> Inr (p\<lparr>pa_pl := (pa_pl p)\<lparr>pl_TargetDuration := v\<rparr>\<rparr>))
      else if HasPrefix line ''#EXT-X-MEDIA-SEQUENCE:'' then
        parse_int_tag (TrimPrefix line ''#EXT-X-MEDIA-SEQUENCE:'') BadSequence (\<lambda>v. Inr (p\<lparr>pa_pl := (pa_pl p)\<lparr>pl_MediaSequence := v\<rparr>\<rparr>))
      else if HasPrefix line ''#EXT-X-DISCONTINUITY-SEQUENCE:'' then
        parse_int_tag (TrimPrefix line ''#EXT-X-DISCONTINUITY-SEQUENCE:'') BadDiscontinuitySequence
          (\<lambda>v. Inr (p\<lparr>pa_pl := (pa_pl p)\<lparr>pl_DiscontinuitySequence := v\<rparr>\<rparr>))
      else if line = ''#EXT-X-DISCONTINUITY'' then Inr (p\<lparr>pa_disc := True\<rparr>)
      else if HasPrefix line ''#EXT-X-PROGRAM-DATE-TIME:'' then
        (case parse_time (TrimPrefix line ''#EXT-X-PROGRAM-DATE-TIME:'') of
           None \<Rightarrow> Inl BadDateTime
         | Some t \<Rightarrow> Inr (p\<lparr>pa_pdt := t\<rparr>))
      else if HasPrefix line ''#EXT-X-MAP:'' then
        (let uri = Attr line ''URI'' in
         if uri = '''' then Inl MapWithoutURI
         else (case res uri of
                 None \<Rightarrow> Inl (BadReference uri)
               | Some absURI \<Rightarrow> Inr (p\<lparr>pa_pl := (pa_pl p)\<lparr>pl_MapURI := absURI\<rparr>, pa_map := absURI\<rparr>)))
      else if HasPrefix line ''#EXTINF:'' then
        (case ParseFloat (TrimSpace (takeWhile (\<lambda>c. c \<noteq> CHR '','') (TrimPrefix line ''#EXTINF:''))) of
           None \<Rightarrow> Inl BadExtinf
         | Some d \<Rightarrow> Inr (p\<lparr>pa_dur := d\<rparr>))
      else if HasPrefix line ''#EXT-X-ENDLIST'' then Inr (p\<lparr>pa_pl := (pa_pl p)\<lparr>pl_Ended := True\<rparr>\<rparr>)
      else if HasPrefix line ''#EXT-X-KEY'' then
        (let m = Attr line ''METHOD'' in if m \<noteq> '''' \<and> m \<noteq> ''NONE'' then Inl Encrypted else Inr p)
      else if HasPrefix line ''#'' then Inr p
      else parse_segment res line p)"

definition parse_line :: "(string \<Rightarrow> string option) \<Rightarrow> string \<Rightarrow> parser \<Rightarrow> hls_error + parser" where
  "parse_line res line p =
     (if line = '''' then Inr p
      else if pa_first p then (if line \<noteq> ''#EXTM3U'' then Inl NotM3U8 else Inr (p\<lparr>pa_first := False\<rparr>))
      else parse_tag res line p)"

fun parse_lines :: "(string \<Rightarrow> string option) \<Rightarrow> string list \<Rightarrow> parser \<Rightarrow> hls_error + parser" where
  "parse_lines res [] p = Inr p"
| "parse_lines res (l # ls) p = bindE (parse_line res (TrimSpace l) p) (parse_lines res ls)"

definition new_parser :: parser where
  "new_parser = \<lparr>pa_pl = zero_playlist, pa_dur = - 1, pa_disc = False, pa_pdt = zero_time, pa_map = '''', pa_first = True\<rparr>"

definition Parse :: "(string \<Rightarrow> string option) \<Rightarrow> string \<Rightarrow> hls_error + Playlist" where
  "Parse res text =
     (case scan_lines text of (ls, ok) \<Rightarrow>
        bindE (parse_lines res ls new_parser) (\<lambda>p.
          if \<not> ok then Inl ScanFailed
          else if pa_first p then Inl EmptyPlaylist
          else if pl_Segments (pa_pl p) = [] then Inl NoSegments
          else Inr (pa_pl p)))"

definition TotalDuration :: "Playlist \<Rightarrow> rat" where
  "TotalDuration p = foldl (\<lambda>t s. t + sg_Duration s) 0 (pl_Segments p)"

lemma parse_lines_append: "parse_lines res (xs @ ys) p = bindE (parse_lines res xs p) (parse_lines res ys)"
  by (induction xs arbitrary: p) (simp_all add: bindE_def split: sum.splits)

text \<open>What \<^verbatim>\<open>Parse\<close> promises to its callers: at least one segment, none with a negative duration.\<close>

definition segs_ok :: "parser \<Rightarrow> bool" where
  "segs_ok p \<longleftrightarrow> (\<forall>s \<in> set (pl_Segments (pa_pl p)). 0 \<le> sg_Duration s)"

lemma parse_line_segs:
  assumes "parse_line res line p = Inr p'" "segs_ok p"
  shows "segs_ok p'"
proof -
  have seg: "parse_segment res line p = Inr p' \<Longrightarrow> segs_ok p'"
    using assms(2) by (auto simp: parse_segment_def segs_ok_def split: if_splits option.splits)
  have "pl_Segments (pa_pl p') = pl_Segments (pa_pl p) \<or> parse_segment res line p = Inr p'"
    using assms(1) unfolding parse_line_def parse_tag_def parse_int_tag_def Let_def
    by (auto split: if_splits option.splits prod.splits)
  then show ?thesis using seg assms(2) by (auto simp: segs_ok_def)
qed

lemma parse_lines_segs: "parse_lines res ls p = Inr p' \<Longrightarrow> segs_ok p \<Longrightarrow> segs_ok p'"
  by (induction ls arbitrary: p) (auto simp: bindE_Inr_iff dest: parse_line_segs)

lemma Parse_segments: "Parse res text = Inr pl \<Longrightarrow> pl_Segments pl \<noteq> [] \<and> (\<forall>s \<in> set (pl_Segments pl). 0 \<le> sg_Duration s)"
  using parse_lines_segs [of res _ new_parser]
  by (auto simp: Parse_def bindE_Inr_iff segs_ok_def new_parser_def zero_playlist_def split: prod.splits if_splits)

end
