(* ===== verification/Stitch.thy ===== *)
theory Stitch
  imports Models Hls Fmp4 Scte35
begin

text \<open>
  \<^verbatim>\<open>services/engine/stitch.go\<close>, from the clip to the files: \<^verbatim>\<open>lookup\<close>, \<^verbatim>\<open>prepare\<close> and \<^verbatim>\<open>resolve\<close> find the source segment and put
  it on the timeline, the \<^verbatim>\<open>Window\<close> is the live playlist, and the \<^verbatim>\<open>stitcher\<close> keeps the continuity between clips, writes the
  segments, marks the breaks and deletes files that nobody uses any more. What the resolver downloads (playlists, init
  sections, segments) and whether the file system accepts a write are arguments of a call; the output directory is a map
  from names to contents. Durations are fractions: the source only compares and prints them.
\<close>

subsection \<open>Source playlists\<close>

record initEntry =
  ie_data :: "byte list"
  ie_parsed :: Init
  ie_name :: string

text \<open>What \<^verbatim>\<open>r.playlist\<close>, \<^verbatim>\<open>r.initSection\<close> and \<^verbatim>\<open>r.getCached\<close> answer at the moment of a call; an error is its text.\<close>

record sources =
  so_playlist :: "string \<Rightarrow> string + Playlist"
  so_init :: "string \<Rightarrow> string + initEntry"
  so_blob :: "string \<Rightarrow> string + byte list"

datatype src_error = FetchError string | OffsetError int string nat | DurationError int string rat int | FormatError string
  | TimelineError string | RetimeError string mp4_error

text \<open>The reason that goes with the error (the metrics label and the \<^verbatim>\<open>source.error\<close> event).\<close>

fun reason_of :: "src_error \<Rightarrow> string" where
  "reason_of (FetchError _) = ''fetch''"
| "reason_of (OffsetError _ _ _) = ''offset''"
| "reason_of (DurationError _ _ _ _) = ''duration''"
| "reason_of (FormatError _) = ''format''"
| "reason_of (TimelineError _) = ''timeline''"
| "reason_of (RetimeError _ _) = ''retime''"

subsection \<open>Segments of the live playlist\<close>

record SegmentMeta =
  sm_Seq :: int
  sm_Duration :: rat
  sm_ProgramDateTime :: gtime
  sm_Discontinuity :: bool
  sm_Tags :: "string list"
  sm_AvailStart :: gtime
  sm_AvailDur :: int
  sm_Kind :: string
  sm_Title :: string
  sm_EntryStart :: gtime
  sm_BreakStart :: gtime
  sm_BreakDurS :: int
  sm_URI :: string
  sm_MapURI :: string
  sm_src :: string
  sm_idx :: int

definition zero_meta :: SegmentMeta where
  "zero_meta = \<lparr>sm_Seq = 0, sm_Duration = 0, sm_ProgramDateTime = zero_time, sm_Discontinuity = False, sm_Tags = [],
     sm_AvailStart = zero_time, sm_AvailDur = 0, sm_Kind = '''', sm_Title = '''', sm_EntryStart = zero_time,
     sm_BreakStart = zero_time, sm_BreakDurS = 0, sm_URI = '''', sm_MapURI = '''', sm_src = '''', sm_idx = 0\<rparr>"

record retimed =
  rt_meta :: SegmentMeta
  rt_seg :: "byte list"
  rt_init :: "byte list"
  rt_initName :: string
  rt_slate :: bool

definition lookup :: "sources \<Rightarrow> string \<Rightarrow> int \<Rightarrow> bool \<Rightarrow> int \<Rightarrow> rat \<Rightarrow> src_error + SegmentMeta" where
  "lookup so uri offsetS loop segSec tol =
     (case so_playlist so uri of
        Inl err \<Rightarrow> Inl (FetchError err)
      | Inr pl \<Rightarrow>
          let n = int (length (pl_Segments pl));
              idx = go_div offsetS segSec;
              idx = (if loop then go_mod (go_mod idx n + n) n else idx)
          in if idx < 0 \<or> idx \<ge> n then Inl (OffsetError offsetS uri (length (pl_Segments pl)))
             else
               let seg = pl_Segments pl ! nat idx in
               if \<bar>sg_Duration seg - of_int segSec\<bar> > tol then Inl (DurationError idx uri (sg_Duration seg) segSec)
               else Inr (zero_meta\<lparr>sm_Duration := sg_Duration seg, sm_URI := sg_URI seg, sm_MapURI := pl_MapURI pl,
                      sm_src := uri, sm_idx := idx\<rparr>))"

definition gridTolerance :: rat where "gridTolerance = 1 / 4"
definition timelineEpoch :: int where "timelineEpoch = 1577836800"

definition prepare :: "sources \<Rightarrow> Config \<Rightarrow> string \<Rightarrow> int \<Rightarrow> bool \<Rightarrow> gtime \<Rightarrow> src_error + retimed" where
  "prepare so cfg uri offsetS loop startAt =
     bindE (lookup so uri offsetS loop (cfg_SegmentSec cfg) (cfg_DurationTolerance cfg)) (\<lambda>m.
       if sm_MapURI m = '''' then Inl (FormatError uri)
       else
         (case so_init so (sm_MapURI m) of
            Inl err \<Rightarrow> Inl (FetchError err)
          | Inr ini \<Rightarrow>
              (case so_blob so (sm_URI m) of
                 Inl err \<Rightarrow> Inl (FetchError err)
               | Inr raw \<Rightarrow>
                   (case Retime raw (ie_parsed ini) (word_of_int (Unix startAt - timelineEpoch))
                           (word_of_int (sm_idx m * cfg_SegmentSec cfg)) gridTolerance of
                      Inl err \<Rightarrow> Inl (if err = ErrOffGrid then TimelineError (sm_URI m) else RetimeError (sm_URI m) err)
                    | Inr out \<Rightarrow> Inr \<lparr>rt_meta = m, rt_seg = out, rt_init = ie_data ini, rt_initName = ie_name ini, rt_slate = False\<rparr>))))"

text \<open>A call of \<^verbatim>\<open>onFail\<close>: the reason, the source and the error.\<close>

type_synonym failure = "string \<times> string \<times> src_error"

definition resolve :: "sources \<Rightarrow> Config \<Rightarrow> ClipItem \<Rightarrow> retimed option \<times> failure list" where
  "resolve so cfg c =
     (case prepare so cfg (ci_URI c) (ci_OffsetS c) (ci_Type c = ''slate'') (ci_StartAt c) of
        Inr rt \<Rightarrow> (Some rt, [])
      | Inl err \<Rightarrow>
          let f = (reason_of err, ci_URI c, err) in
          if ci_Type c = ''slate'' \<or> cfg_SlateURI cfg = '''' \<or> ci_URI c = cfg_SlateURI cfg then (None, [f])
          else
            (case prepare so cfg (cfg_SlateURI cfg) (Unix (ci_StartAt c)) True (ci_StartAt c) of
               Inl err2 \<Rightarrow> (None, [f, (''slate_'' @ reason_of err2, cfg_SlateURI cfg, err2)])
             | Inr rt \<Rightarrow> (Some (rt\<lparr>rt_slate := True\<rparr>), [f])))"

subsection \<open>The live window\<close>

record Window =
  wi_Items :: "SegmentMeta list"
  wi_MaxSize :: int
  wi_DiscSeq :: int

fun trim_window :: "Window \<Rightarrow> SegmentMeta list \<Rightarrow> Window \<times> SegmentMeta list" where
  "trim_window w [] = (w\<lparr>wi_Items := []\<rparr>, [])"
| "trim_window w (it # rest) =
     (if int (length (it # rest)) > wi_MaxSize w then
        (case trim_window (if sm_Discontinuity it then w\<lparr>wi_DiscSeq := wi_DiscSeq w + 1\<rparr> else w) rest of
           (w', removed) \<Rightarrow> (w', it # removed))
      else (w\<lparr>wi_Items := it # rest\<rparr>, []))"

definition append_segment :: "SegmentMeta \<Rightarrow> Window \<Rightarrow> Window \<times> SegmentMeta list" where
  "append_segment m w = trim_window w (wi_Items w @ [m])"

definition maxDuration :: "Window \<Rightarrow> rat" where
  "maxDuration w = foldl (\<lambda>mx it. if sm_Duration it > mx then sm_Duration it else mx) 0 (wi_Items w)"

subsection \<open>Break markers\<close>

definition eventID :: "gtime \<Rightarrow> 32 word" where
  "eventID start = word_of_int (Unix start)"

definition dec32w :: "32 word \<Rightarrow> string" where
  "dec32w v = nat_dec (unat v)"

definition quote :: string where "quote = [CHR 0x22]"

definition hex_or_empty :: "scte_error + byte list \<Rightarrow> string" where
  "hex_or_empty r = (case r of Inl _ \<Rightarrow> '''' | Inr raw \<Rightarrow> Hex raw)"

definition given_payload :: "string \<Rightarrow> string" where
  "given_payload given =
     (case ParseSection given of
        Inl _ \<Rightarrow> ''''
      | Inr raw \<Rightarrow> if given \<noteq> '''' then (case Decode raw of Inl _ \<Rightarrow> '''' | Inr _ \<Rightarrow> Hex raw) else '''')"

definition daterange :: "gtime \<Rightarrow> string \<Rightarrow> int \<Rightarrow> string \<Rightarrow> string \<Rightarrow> string" where
  "daterange start durAttr secs scteAttr payload =
     ''#EXT-X-DATERANGE:ID='' @ quote @ ''break-'' @ dec32w (eventID start) @ quote @ '',START-DATE='' @ quote @ format_millis start @ quote
       @ '','' @ durAttr @ ''='' @ itoa secs @ ''.000,'' @ scteAttr @ ''='' @ payload"

definition startMarkers :: "string \<Rightarrow> gtime \<Rightarrow> int \<Rightarrow> string \<Rightarrow> string list" where
  "startMarkers mode start secs given =
     (if mode = ''daterange'' \<or> mode = ''both'' then
        let payload = given_payload given;
            payload = (if payload = '''' then hex_or_empty (Out (eventID start) secs) else payload)
        in [daterange start ''PLANNED-DURATION'' secs ''SCTE35-OUT'' payload]
      else []) @
     (if mode = ''cue'' \<or> mode = ''both'' then [''#EXT-X-CUE-OUT:'' @ itoa secs] else [])"

definition endMarkers :: "string \<Rightarrow> gtime \<Rightarrow> int \<Rightarrow> string list" where
  "endMarkers mode start secs =
     (if mode = ''daterange'' \<or> mode = ''both'' then
        [daterange start ''DURATION'' secs ''SCTE35-IN'' (hex_or_empty (In (eventID start)))]
      else []) @
     (if mode = ''cue'' \<or> mode = ''both'' then [''#EXT-X-CUE-IN''] else [])"

subsection \<open>The stitcher\<close>

record retiredFiles =
  rf_names :: "string list"
  rf_at :: gtime

record stitcher =
  st_win :: Window
  st_nextSeq :: int
  st_lastStart :: gtime
  st_prevSrc :: string
  st_prevIdx :: int
  st_prevEnd :: gtime
  st_initChanges :: int
  st_prevAvail :: gtime
  st_prevAvailDur :: int
  st_retired :: "retiredFiles list"
  st_files :: "string \<Rightarrow> byte list option"

definition newStitcher :: "Config \<Rightarrow> (string \<Rightarrow> byte list option) \<Rightarrow> stitcher" where
  "newStitcher cfg files =
     \<lparr>st_win = \<lparr>wi_Items = [], wi_MaxSize = cfg_PlaylistWindowMax cfg, wi_DiscSeq = 0\<rparr>, st_nextSeq = 0, st_lastStart = zero_time,
      st_prevSrc = '''', st_prevIdx = 0, st_prevEnd = zero_time, st_initChanges = 0, st_prevAvail = zero_time, st_prevAvailDur = 0,
      st_retired = [], st_files = files\<rparr>"

definition breakTags :: "Config \<Rightarrow> stitcher \<Rightarrow> ClipItem \<Rightarrow> string list" where
  "breakTags cfg s c =
     (let mode = cfg_SCTE35Tags cfg in
      if mode = '''' \<or> mode = ''off'' then []
      else
        (if \<not> IsZero (st_prevAvail s) \<and> st_prevAvail s \<noteq> ci_BreakStart c then endMarkers mode (st_prevAvail s) (st_prevAvailDur s) else []) @
        (if \<not> IsZero (ci_BreakStart c) \<and> ci_StartAt c = ci_BreakStart c then startMarkers mode (ci_BreakStart c) (ci_BreakDurS c) (ci_SCTE35 c) else []))"

text \<open>\<^verbatim>\<open>filepath.Base\<close> of a path: trailing slashes go, then everything up to the last slash.\<close>

definition Base :: "string \<Rightarrow> string" where
  "Base p =
     (if p = '''' then ''.''
      else
        let q = rev (dropWhile (\<lambda>c. c = CHR ''/'') (rev p)) in
        if q = '''' then ''/'' else rev (takeWhile (\<lambda>c. c \<noteq> CHR ''/'') (rev q)))"

text \<open>Whether \<^verbatim>\<open>MkdirAll\<close> and the two atomic writes work.\<close>

record io_result =
  io_mkdir :: bool
  io_init :: bool
  io_seg :: bool

definition writeFiles :: "io_result \<Rightarrow> string \<Rightarrow> retimed \<Rightarrow> (string \<Rightarrow> byte list option) \<Rightarrow> bool \<times> (string \<Rightarrow> byte list option)" where
  "writeFiles io segName rt files =
     (if \<not> io_mkdir io then (False, files)
      else
        let need = files (rt_initName rt) = None in
        if need \<and> \<not> io_init io then (False, files)
        else
          let files = (if need then files(rt_initName rt \<mapsto> rt_init rt) else files) in
          if io_seg io then (True, files(segName \<mapsto> rt_seg rt)) else (False, files))"

definition names_of :: "SegmentMeta \<Rightarrow> string list" where
  "names_of it = Base (sm_URI it) # (if sm_MapURI it \<noteq> '''' then [Base (sm_MapURI it)] else [])"

definition in_window :: "Window \<Rightarrow> string \<Rightarrow> bool" where
  "in_window w n \<longleftrightarrow> list_ex (\<lambda>it. n = Base (sm_URI it) \<or> n = Base (sm_MapURI it)) (wi_Items w)"

definition deleteRetired :: "retiredFiles \<Rightarrow> retiredFiles list \<Rightarrow> stitcher \<Rightarrow> stitcher" where
  "deleteRetired r others s =
     (let inUse = (\<lambda>n. in_window (st_win s) n \<or> list_ex (\<lambda>oth. n \<in> set (rf_names oth)) others) in
      s\<lparr>st_files := (\<lambda>n. if n \<in> set (rf_names r) \<and> \<not> inUse n then None else st_files s n)\<rparr>)"

fun expire :: "duration \<Rightarrow> gtime \<Rightarrow> retiredFiles list \<Rightarrow> stitcher \<Rightarrow> stitcher" where
  "expire keep now [] s = s\<lparr>st_retired := []\<rparr>"
| "expire keep now (r # rs) s =
     (if Sub now (rf_at r) \<ge> keep then expire keep now rs (deleteRetired r rs s) else s\<lparr>st_retired := r # rs\<rparr>)"

definition cleanup :: "Config \<Rightarrow> SegmentMeta list \<Rightarrow> gtime \<Rightarrow> stitcher \<Rightarrow> stitcher" where
  "cleanup cfg removed now s =
     (let s = (if removed \<noteq> [] then s\<lparr>st_retired := st_retired s @ [\<lparr>rf_names = concat (map names_of removed), rf_at = now\<rparr>]\<rparr> else s)
      in expire (seconds (cfg_RetainS cfg)) now (st_retired s) s)"

definition removeOrphans :: "stitcher \<Rightarrow> stitcher" where
  "removeOrphans s =
     s\<lparr>st_files := (\<lambda>n. if in_window (st_win s) n \<or> \<not> (HasPrefix n ''seg_'' \<or> HasPrefix n ''init_'') then st_files s n else None)\<rparr>"

definition is_disc :: "stitcher \<Rightarrow> SegmentMeta \<Rightarrow> ClipItem \<Rightarrow> bool" where
  "is_disc s m c =
     (let disc = (if length (wi_Items (st_win s)) = 0 then False
                  else if st_prevSrc s = '''' then True
                  else if sm_src m \<noteq> st_prevSrc s \<or> sm_idx m \<noteq> st_prevIdx s + 1 then True
                  else ci_Discontinuity c)
      in if \<not> IsZero (st_prevEnd s) \<and> \<bar>Sub (ci_StartAt c) (st_prevEnd s)\<bar> > 500 * millisecond then True else disc)"

definition meta_for :: "Config \<Rightarrow> stitcher \<Rightarrow> ClipItem \<Rightarrow> retimed \<Rightarrow> SegmentMeta" where
  "meta_for cfg s c rt =
     (let m = (rt_meta rt)\<lparr>sm_Kind := ci_Type c, sm_Title := ci_Title c, sm_EntryStart := ci_EntryStart c,
                sm_BreakStart := ci_BreakStart c, sm_BreakDurS := ci_BreakDurS c,
                sm_AvailStart := ci_BreakStart c, sm_AvailDur := ci_BreakDurS c, sm_Tags := breakTags cfg s c\<rparr>;
          m = (if rt_slate rt then m\<lparr>sm_Kind := ''slate'', sm_Title := ''slate'', sm_EntryStart := zero_time,
                 sm_BreakStart := zero_time, sm_BreakDurS := 0\<rparr> else m)
      in m\<lparr>sm_Discontinuity := is_disc s m c, sm_ProgramDateTime := ci_StartAt c,
           sm_Seq := (if st_nextSeq s = 0 then ci_Seq c else st_nextSeq s)\<rparr>)"

definition seg_name :: "int \<Rightarrow> string" where
  "seg_name n = ''seg_'' @ itoa n @ ''.m4s''"

definition add :: "sources \<Rightarrow> io_result \<Rightarrow> Config \<Rightarrow> ClipItem \<Rightarrow> stitcher \<Rightarrow> bool \<times> failure list \<times> stitcher" where
  "add so io cfg c s =
     (if \<not> IsZero (st_lastStart s) \<and> \<not> ci_StartAt c > st_lastStart s then (False, [], s)
      else
        (case resolve so cfg c of
           (None, fs) \<Rightarrow> (False, fs, s)
         | (Some rt, fs) \<Rightarrow>
             let m = meta_for cfg s c rt; segName = seg_name (sm_Seq m) in
             (case writeFiles io segName rt (st_files s) of
                (False, files) \<Rightarrow> (False, fs, s\<lparr>st_files := files\<rparr>)
              | (True, files) \<Rightarrow>
                  let s = s\<lparr>st_files := files\<rparr>;
                      m = m\<lparr>sm_URI := cfg_VariantID cfg @ ''/'' @ segName, sm_MapURI := cfg_VariantID cfg @ ''/'' @ rt_initName rt\<rparr>;
                      items = wi_Items (st_win s);
                      s = (if items \<noteq> [] \<and> Base (sm_MapURI (last items)) \<noteq> rt_initName rt then s\<lparr>st_initChanges := st_initChanges s + 1\<rparr> else s)
                  in case append_segment m (st_win s) of
                       (win, removed) \<Rightarrow>
                         let s = cleanup cfg removed (ci_StartAt c) (s\<lparr>st_win := win\<rparr>) in
                         (True, fs, s\<lparr>st_nextSeq := sm_Seq m + 1, st_lastStart := ci_StartAt c,
                           st_prevAvail := sm_AvailStart m, st_prevAvailDur := sm_AvailDur m, st_prevSrc := sm_src m, st_prevIdx := sm_idx m,
                           st_prevEnd := ci_StartAt c + seconds (ci_DurationS c)\<rparr>))))"

subsection \<open>The window\<close>

abbreviation discs :: "SegmentMeta list \<Rightarrow> nat" where
  "discs xs \<equiv> length (filter sm_Discontinuity xs)"

lemma trim_window_items: "trim_window w items = (w', removed) \<Longrightarrow> items = removed @ wi_Items w'"
  by (induction w items arbitrary: removed w' rule: trim_window.induct) (auto split: if_splits prod.splits)

lemma trim_window_disc:
  "trim_window w items = (w', removed) \<Longrightarrow> wi_DiscSeq w' = wi_DiscSeq w + int (discs removed) \<and> wi_MaxSize w' = wi_MaxSize w"
proof (induction w items arbitrary: removed w' rule: trim_window.induct)
  case (2 w it rest)
  show ?case
  proof (cases "int (length (it # rest)) > wi_MaxSize w")
    case True
    then obtain r where r: "removed = it # r"
        "trim_window (if sm_Discontinuity it then w\<lparr>wi_DiscSeq := wi_DiscSeq w + 1\<rparr> else w) rest = (w', r)"
      using 2(2) by (auto split: prod.splits)
    then show ?thesis using 2(1) [OF True r(2)] by (cases "sm_Discontinuity it") auto
  next
    case False
    then show ?thesis using 2(2) by auto
  qed
qed auto

lemma trim_window_length:
  "trim_window w items = (w', removed) \<Longrightarrow> 0 \<le> wi_MaxSize w \<Longrightarrow> int (length (wi_Items w')) = min (int (length items)) (wi_MaxSize w)"
proof (induction w items arbitrary: removed w' rule: trim_window.induct)
  case (2 w it rest)
  show ?case
  proof (cases "int (length (it # rest)) > wi_MaxSize w")
    case True
    then obtain r where r: "removed = it # r"
        "trim_window (if sm_Discontinuity it then w\<lparr>wi_DiscSeq := wi_DiscSeq w + 1\<rparr> else w) rest = (w', r)"
      using 2(2) by (auto split: prod.splits)
    then have "int (length (wi_Items w')) = min (int (length rest)) (wi_MaxSize w)" using 2(1) [OF True r(2)] 2(3) by (cases "sm_Discontinuity it") auto
    then show ?thesis using True by simp
  next
    case False
    then show ?thesis using 2(2) by auto
  qed
qed auto

lemma append_segment_spec:
  assumes "append_segment m w = (w', removed)"
  shows "wi_Items w @ [m] = removed @ wi_Items w'" "wi_DiscSeq w' = wi_DiscSeq w + int (discs removed)" "wi_MaxSize w' = wi_MaxSize w"
    "0 \<le> wi_MaxSize w \<Longrightarrow> int (length (wi_Items w')) = min (int (length (wi_Items w)) + 1) (wi_MaxSize w)"
proof -
  note t = assms [unfolded append_segment_def]
  show "wi_Items w @ [m] = removed @ wi_Items w'" by (rule trim_window_items [OF t])
  show "wi_DiscSeq w' = wi_DiscSeq w + int (discs removed)" "wi_MaxSize w' = wi_MaxSize w" using trim_window_disc [OF t] by blast+
  show "0 \<le> wi_MaxSize w \<Longrightarrow> int (length (wi_Items w')) = min (int (length (wi_Items w)) + 1) (wi_MaxSize w)"
    using trim_window_length [OF t] by (simp add: add.commute)
qed

lemma append_segment_last:
  assumes "append_segment m w = (w', removed)" "0 < wi_MaxSize w"
  shows "wi_Items w' \<noteq> [] \<and> last (wi_Items w') = m"
proof -
  have "length (wi_Items w') > 0" using append_segment_spec(4) [OF assms(1)] assms(2) by linarith
  then show ?thesis using append_segment_spec(1) [OF assms(1)] by (metis last_appendR last_snoc length_greater_0_conv)
qed

subsection \<open>Names of files\<close>

definition plain_name :: "string \<Rightarrow> bool" where
  "plain_name n \<longleftrightarrow> n \<noteq> '''' \<and> CHR ''/'' \<notin> set n"

lemma Base_join: "plain_name n \<Longrightarrow> Base (d @ ''/'' @ n) = n"
proof -
  assume n: "plain_name n"
  obtain x xs where rn: "rev n = x # xs" using n by (cases "rev n") (auto simp: plain_name_def)
  have x: "x \<noteq> CHR ''/''" "CHR ''/'' \<notin> set (rev n)" using n rn by (auto simp: plain_name_def dest: arg_cong [of _ _ set])
  have r: "rev (d @ ''/'' @ n) = rev n @ CHR ''/'' # rev d" by simp
  have "dropWhile (\<lambda>c. c = CHR ''/'') (rev (d @ ''/'' @ n)) = rev n @ CHR ''/'' # rev d" unfolding r using x(1) by (simp add: rn)
  moreover have "takeWhile (\<lambda>c. c \<noteq> CHR ''/'') (rev n @ CHR ''/'' # rev d) = rev n" using x(2) by (induction "rev n") (auto simp: takeWhile_append)
  ultimately show ?thesis unfolding Base_def Let_def by (simp del: rev_append)
qed

lemma seg_name_inj: "seg_name i = seg_name j \<Longrightarrow> i = j"
  by (auto simp: seg_name_def intro: itoa_inj)

lemma plain_seg_name [simp]: "plain_name (seg_name n)"
  using itoa_chars [of "CHR ''/''" n] by (auto simp: plain_name_def seg_name_def is_digit_def)

subsection \<open>Deleting files\<close>

lemma expire_fields [simp]:
  "st_win (expire keep now rs s) = st_win s" "st_nextSeq (expire keep now rs s) = st_nextSeq s" "st_lastStart (expire keep now rs s) = st_lastStart s"
  "st_initChanges (expire keep now rs s) = st_initChanges s"
  by (induction keep now rs s rule: expire.induct) (simp_all add: deleteRetired_def Let_def)

lemma expire_retired:
  "\<exists>gone. rs = gone @ st_retired (expire keep now rs s) \<and> (\<forall>r \<in> set gone. keep \<le> Sub now (rf_at r)) \<and>
     (st_retired (expire keep now rs s) = [] \<or> Sub now (rf_at (hd (st_retired (expire keep now rs s)))) < keep)"
proof (induction keep now rs s rule: expire.induct)
  case (2 keep now r rs s)
  show ?case
  proof (cases "Sub now (rf_at r) \<ge> keep")
    case True
    then obtain gone where "rs = gone @ st_retired (expire keep now rs (deleteRetired r rs s))" "\<forall>r \<in> set gone. keep \<le> Sub now (rf_at r)"
      "st_retired (expire keep now rs (deleteRetired r rs s)) = [] \<or> Sub now (rf_at (hd (st_retired (expire keep now rs (deleteRetired r rs s))))) < keep"
      using 2 by blast
    then show ?thesis using True by (intro exI [of _ "r # gone"]) auto
  qed simp
qed simp

text \<open>A file that the window or a remaining retirement names is left alone; no file appears.\<close>

lemma expire_files:
  "in_window (st_win s) n \<or> (\<exists>r \<in> set (st_retired (expire keep now rs s)). n \<in> set (rf_names r)) \<Longrightarrow> st_files (expire keep now rs s) n = st_files s n"
proof (induction keep now rs s rule: expire.induct)
  case (2 keep now r rs s)
  show ?case
  proof (cases "Sub now (rf_at r) \<ge> keep")
    case True
    let ?s = "deleteRetired r rs s"
    have "st_files (expire keep now rs ?s) n = st_files ?s n"
      using 2 True by (simp add: deleteRetired_def Let_def)
    moreover have "in_window (st_win s) n \<or> list_ex (\<lambda>oth. n \<in> set (rf_names oth)) rs"
      using "2.prems" True expire_retired [of rs keep now ?s] by (auto simp: list_ex_iff) (metis UnCI set_append)
    ultimately show ?thesis using True by (auto simp: deleteRetired_def Let_def)
  qed simp
qed simp

subsection \<open>The invariant of the stitcher\<close>

fun seqs_from :: "int \<Rightarrow> SegmentMeta list \<Rightarrow> bool" where
  "seqs_from n [] \<longleftrightarrow> True"
| "seqs_from n (m # ms) \<longleftrightarrow> sm_Seq m = n \<and> seqs_from (n + 1) ms"

lemma seqs_from_append [simp]: "seqs_from n (xs @ ys) \<longleftrightarrow> seqs_from n xs \<and> seqs_from (n + int (length xs)) ys"
  by (induction xs arbitrary: n) (simp_all add: algebra_simps)

lemma seqs_from_bound: "seqs_from n xs \<Longrightarrow> m \<in> set xs \<Longrightarrow> n \<le> sm_Seq m \<and> sm_Seq m < n + int (length xs)"
  by (induction xs arbitrary: n) fastforce+

definition init_name :: "string \<Rightarrow> bool" where
  "init_name n \<longleftrightarrow> plain_name n \<and> HasPrefix n ''init_''"

definition own_name :: "int \<Rightarrow> string \<Rightarrow> bool" where
  "own_name next n \<longleftrightarrow> init_name n \<or> (\<exists>k < next. n = seg_name k)"

text \<open>An entry of the playlist names its segment file by its sequence number, and an init section.\<close>

definition item_ok :: "Config \<Rightarrow> SegmentMeta \<Rightarrow> bool" where
  "item_ok cfg it \<longleftrightarrow> sm_URI it = cfg_VariantID cfg @ ''/'' @ seg_name (sm_Seq it) \<and>
     (\<exists>i. init_name i \<and> sm_MapURI it = cfg_VariantID cfg @ ''/'' @ i)"

definition window_ok :: "Config \<Rightarrow> stitcher \<Rightarrow> bool" where
  "window_ok cfg s \<longleftrightarrow>
     (let items = wi_Items (st_win s) in
      wi_MaxSize (st_win s) = cfg_PlaylistWindowMax cfg \<and> int (length items) \<le> cfg_PlaylistWindowMax cfg \<and>
      0 \<le> st_nextSeq s \<and> seqs_from (st_nextSeq s - int (length items)) items \<and>
      sorted_wrt (\<lambda>a b. sm_ProgramDateTime a < sm_ProgramDateTime b) items \<and>
      (items \<noteq> [] \<longrightarrow> sm_ProgramDateTime (last items) = st_lastStart s \<and> 0 < st_nextSeq s \<and> zero_time < st_lastStart s) \<and>
      (\<forall>it \<in> set items. item_ok cfg it))"

definition files_ok :: "stitcher \<Rightarrow> bool" where
  "files_ok s \<longleftrightarrow>
     (\<forall>it \<in> set (wi_Items (st_win s)). \<forall>n \<in> set (names_of it). st_files s n \<noteq> None) \<and>
     (\<forall>r \<in> set (st_retired s). \<forall>n \<in> set (rf_names r). st_files s n \<noteq> None \<and> own_name (st_nextSeq s) n)"

lemma init_not_seg: "init_name n \<Longrightarrow> n \<noteq> seg_name k"
  by (auto simp: init_name_def seg_name_def HasPrefix_def)

lemma item_ok_names: "item_ok cfg it \<Longrightarrow> Base (sm_URI it) = seg_name (sm_Seq it) \<and> (\<exists>i. init_name i \<and> Base (sm_MapURI it) = i \<and> names_of it = [seg_name (sm_Seq it), i])"
  using Base_join [of _ "cfg_VariantID cfg"] by (auto simp: item_ok_def names_of_def init_name_def)

lemma item_ok_own: "item_ok cfg it \<Longrightarrow> sm_Seq it < next \<Longrightarrow> n \<in> set (names_of it) \<Longrightarrow> own_name next n"
  using item_ok_names [of cfg it] by (auto simp: own_name_def)

lemma in_window_names: "\<forall>it \<in> set (wi_Items w). item_ok cfg it \<Longrightarrow> in_window w n \<longleftrightarrow> (\<exists>it \<in> set (wi_Items w). n \<in> set (names_of it))"
  using item_ok_names [of cfg] by (fastforce simp: in_window_def list_ex_iff)

subsection \<open>One clip\<close>

text \<open>A clip of the planner and the sources of a call: positive sequence numbers, real times, init sections named by their hash.\<close>

definition clip_ok :: "ClipItem \<Rightarrow> bool" where
  "clip_ok c \<longleftrightarrow> 0 < ci_Seq c \<and> zero_time < ci_StartAt c \<and> ci_DurationS c = SegmentSec"

definition sources_ok :: "sources \<Rightarrow> bool" where
  "sources_ok so \<longleftrightarrow> (\<forall>u ie. so_init so u = Inr ie \<longrightarrow> init_name (ie_name ie))"

definition final_meta :: "Config \<Rightarrow> stitcher \<Rightarrow> ClipItem \<Rightarrow> retimed \<Rightarrow> SegmentMeta" where
  "final_meta cfg s c rt =
     (let m = meta_for cfg s c rt in
      m\<lparr>sm_URI := cfg_VariantID cfg @ ''/'' @ seg_name (sm_Seq m), sm_MapURI := cfg_VariantID cfg @ ''/'' @ rt_initName rt\<rparr>)"

definition put_files :: "string \<Rightarrow> retimed \<Rightarrow> (string \<Rightarrow> byte list option) \<Rightarrow> string \<Rightarrow> byte list option" where
  "put_files segName rt files =
     (if files (rt_initName rt) = None then files(rt_initName rt \<mapsto> rt_init rt) else files)(segName \<mapsto> rt_seg rt)"

lemma cleanup_fields [simp]:
  "st_win (cleanup cfg removed now s) = st_win s" "st_nextSeq (cleanup cfg removed now s) = st_nextSeq s"
  by (simp_all add: cleanup_def Let_def)

lemma writeFiles_True: "writeFiles io segName rt files = (True, files') \<Longrightarrow> files' = put_files segName rt files"
  by (auto simp: writeFiles_def put_files_def Let_def split: if_splits)

lemma add_True:
  assumes "add so io cfg c s = (True, fs, s')"
  obtains rt win removed s1 where "resolve so cfg c = (Some rt, fs)" "IsZero (st_lastStart s) \<or> st_lastStart s < ci_StartAt c"
    "append_segment (final_meta cfg s c rt) (st_win s) = (win, removed)"
    "st_files s1 = put_files (seg_name (sm_Seq (final_meta cfg s c rt))) rt (st_files s)" "st_win s1 = win" "st_retired s1 = st_retired s"
    "st_files s' = st_files (cleanup cfg removed (ci_StartAt c) s1)" "st_retired s' = st_retired (cleanup cfg removed (ci_StartAt c) s1)"
    "st_win s' = win" "st_nextSeq s' = sm_Seq (final_meta cfg s c rt) + 1" "st_lastStart s' = ci_StartAt c"
    "st_prevSrc s' = sm_src (rt_meta rt)" "st_prevIdx s' = sm_idx (rt_meta rt)" "st_prevEnd s' = ci_StartAt c + seconds (ci_DurationS c)"
    "st_prevAvail s' = ci_BreakStart c" "st_prevAvailDur s' = ci_BreakDurS c"
proof -
  obtain rt where g: "IsZero (st_lastStart s) \<or> st_lastStart s < ci_StartAt c" "resolve so cfg c = (Some rt, fs)"
    using assms by (auto simp: add_def Let_def split: if_splits option.splits prod.splits bool.splits)
  let ?m = "final_meta cfg s c rt"
  obtain files where w: "writeFiles io (seg_name (sm_Seq (meta_for cfg s c rt))) rt (st_files s) = (True, files)"
    using assms g by (cases "writeFiles io (seg_name (sm_Seq (meta_for cfg s c rt))) rt (st_files s)")
      (auto simp: add_def Let_def split: if_splits bool.splits prod.splits)
  obtain win removed where a: "append_segment ?m (st_win s) = (win, removed)" by (metis surj_pair)
  let ?s1 = "(if wi_Items (st_win s) \<noteq> [] \<and> Base (sm_MapURI (last (wi_Items (st_win s)))) \<noteq> rt_initName rt
      then s\<lparr>st_files := files, st_initChanges := st_initChanges s + 1\<rparr> else s\<lparr>st_files := files\<rparr>)\<lparr>st_win := win\<rparr>"
  have s': "s' = (cleanup cfg removed (ci_StartAt c) ?s1)\<lparr>st_nextSeq := sm_Seq ?m + 1, st_lastStart := ci_StartAt c,
      st_prevAvail := sm_AvailStart ?m, st_prevAvailDur := sm_AvailDur ?m, st_prevSrc := sm_src ?m, st_prevIdx := sm_idx ?m,
      st_prevEnd := ci_StartAt c + seconds (ci_DurationS c)\<rparr>"
    using assms g w a unfolding add_def final_meta_def Let_def by (auto split: if_splits prod.splits)
  have m: "sm_src ?m = sm_src (rt_meta rt)" "sm_idx ?m = sm_idx (rt_meta rt)" "sm_Seq ?m = sm_Seq (meta_for cfg s c rt)"
      "sm_AvailStart ?m = ci_BreakStart c" "sm_AvailDur ?m = ci_BreakDurS c"
    by (simp_all add: final_meta_def meta_for_def Let_def)
  show thesis
    by (rule that [OF g(2,1) a, of ?s1]) (use s' m writeFiles_True [OF w] w in \<open>auto simp: writeFiles_def Let_def split: if_splits\<close>)
qed

lemma prepare_init: "sources_ok so \<Longrightarrow> prepare so cfg uri offsetS lp startAt = Inr rt \<Longrightarrow> init_name (rt_initName rt)"
  by (auto simp: prepare_def bindE_Inr_iff sources_ok_def split: if_splits sum.splits)

lemma resolve_init: "sources_ok so \<Longrightarrow> resolve so cfg c = (Some rt, fs) \<Longrightarrow> init_name (rt_initName rt)"
  by (auto simp: resolve_def Let_def split: sum.splits if_splits dest: prepare_init)

lemma final_meta_fields [simp]:
  "sm_Seq (final_meta cfg s c rt) = (if st_nextSeq s = 0 then ci_Seq c else st_nextSeq s)"
  "sm_ProgramDateTime (final_meta cfg s c rt) = ci_StartAt c"
  "sm_AvailStart (final_meta cfg s c rt) = ci_BreakStart c" "sm_AvailDur (final_meta cfg s c rt) = ci_BreakDurS c"
  "sm_Tags (final_meta cfg s c rt) = breakTags cfg s c"
  by (simp_all add: final_meta_def meta_for_def Let_def)

lemma final_meta_ok: "init_name (rt_initName rt) \<Longrightarrow> item_ok cfg (final_meta cfg s c rt)"
  by (auto simp: item_ok_def final_meta_def meta_for_def Let_def)

lemma sorted_wrt_suffix: "sorted_wrt P (xs @ ys) \<Longrightarrow> sorted_wrt P ys"
  by (simp add: sorted_wrt_append)

lemma add_window_ok:
  assumes "window_ok cfg s" "add so io cfg c s = (True, fs, s')" "clip_ok c" "sources_ok so" "0 < cfg_PlaylistWindowMax cfg"
  shows "window_ok cfg s'"
  using assms(2)
proof (rule add_True)
  fix rt win removed s1
  assume res: "resolve so cfg c = (Some rt, fs)" and later: "IsZero (st_lastStart s) \<or> st_lastStart s < ci_StartAt c"
    and app: "append_segment (final_meta cfg s c rt) (st_win s) = (win, removed)"
    and s': "st_win s' = win" "st_nextSeq s' = sm_Seq (final_meta cfg s c rt) + 1" "st_lastStart s' = ci_StartAt c"
  let ?m = "final_meta cfg s c rt" and ?items = "wi_Items (st_win s)"
  note w = assms(1) [unfolded window_ok_def Let_def]
  note a = append_segment_spec [OF app]
  have pos: "0 < sm_Seq ?m" using w assms(3) by (auto simp: clip_ok_def)
  have next_pos: "?items \<noteq> [] \<Longrightarrow> 0 < st_nextSeq s" using w by blast
  have mseq: "seqs_from (sm_Seq ?m - int (length ?items)) (?items @ [?m])"
  proof (cases "?items = []")
    case False
    then show ?thesis using w next_pos [OF False] by simp
  qed simp
  have srt: "sorted_wrt (\<lambda>a b. sm_ProgramDateTime a < sm_ProgramDateTime b) (?items @ [?m])"
  proof (cases "?items = []")
    case False
    then have l: "sm_ProgramDateTime (last ?items) < ci_StartAt c" using w later by auto
    have "sm_ProgramDateTime it \<le> sm_ProgramDateTime (last ?items)" if "it \<in> set ?items" for it
    proof -
      have "?items = butlast ?items @ [last ?items]" using False by simp
      then have "sorted_wrt (\<lambda>a b. sm_ProgramDateTime a < sm_ProgramDateTime b) (butlast ?items @ [last ?items])" using w by metis
      moreover have "it \<in> set (butlast ?items) \<or> it = last ?items" using that \<open>?items = _\<close> by (metis in_set_butlastD rotate1.simps(2) set_ConsD set_rotate1)
      ultimately show ?thesis by (auto simp: sorted_wrt_append)
    qed
    then show ?thesis using w l by (fastforce simp: sorted_wrt_append)
  qed simp
  have "seqs_from (sm_Seq ?m - int (length ?items) + int (length removed)) (wi_Items win)" using mseq unfolding a(1) by simp
  moreover have "sm_Seq ?m - int (length ?items) + int (length removed) = sm_Seq ?m + 1 - int (length (wi_Items win))"
    using arg_cong [OF a(1), of "\<lambda>l. int (length l)"] by simp
  ultimately have seqs: "seqs_from (sm_Seq ?m + 1 - int (length (wi_Items win))) (wi_Items win)" by (simp only:)
  have last: "wi_Items win \<noteq> []" "last (wi_Items win) = ?m" using append_segment_last [OF app] w assms(5) by auto
  have ok: "\<forall>it \<in> set (wi_Items win). item_ok cfg it"
  proof
    fix it assume "it \<in> set (wi_Items win)"
    then have "it \<in> set (?items @ [?m])" unfolding a(1) by simp
    then show "item_ok cfg it" using w final_meta_ok [OF resolve_init [OF assms(4) res]] by auto
  qed
  have len: "wi_MaxSize win = cfg_PlaylistWindowMax cfg" "int (length (wi_Items win)) \<le> cfg_PlaylistWindowMax cfg"
    using a(3,4) w assms(5) by simp_all
  have "sorted_wrt (\<lambda>a b. sm_ProgramDateTime a < sm_ProgramDateTime b) (wi_Items win)" using srt unfolding a(1) by (rule sorted_wrt_suffix)
  then show "window_ok cfg s'" unfolding window_ok_def Let_def s'
    using seqs len last pos ok assms(3) by (simp add: clip_ok_def)
qed

definition retire :: "SegmentMeta list \<Rightarrow> gtime \<Rightarrow> retiredFiles list \<Rightarrow> retiredFiles list" where
  "retire removed now rs = rs @ (if removed \<noteq> [] then [\<lparr>rf_names = concat (map names_of removed), rf_at = now\<rparr>] else [])"

lemma cleanup_alt:
  "cleanup cfg removed now s = expire (seconds (cfg_RetainS cfg)) now (retire removed now (st_retired s)) (s\<lparr>st_retired := retire removed now (st_retired s)\<rparr>)"
  by (simp add: cleanup_def retire_def Let_def)

lemma put_files_other: "n \<noteq> segName \<Longrightarrow> files n \<noteq> None \<Longrightarrow> put_files segName rt files n = files n"
  by (auto simp: put_files_def)

lemma put_files_new: "put_files segName rt files segName = Some (rt_seg rt)" "put_files segName rt files (rt_initName rt) \<noteq> None"
  by (auto simp: put_files_def)

lemma own_name_mono: "own_name k n \<Longrightarrow> k \<le> l \<Longrightarrow> own_name l n"
  unfolding own_name_def using order_less_le_trans by blast

lemma own_not_new: "own_name k n \<Longrightarrow> k \<le> q \<Longrightarrow> n \<noteq> seg_name q"
  using init_not_seg [of n q] by (auto simp: own_name_def dest: seg_name_inj)

lemma window_own:
  assumes "window_ok cfg s" "it \<in> set (wi_Items (st_win s))" "n \<in> set (names_of it)"
  shows "own_name (st_nextSeq s) n"
proof -
  have "sm_Seq it < st_nextSeq s" "item_ok cfg it"
    using assms(1,2) seqs_from_bound [of "st_nextSeq s - int (length (wi_Items (st_win s)))" "wi_Items (st_win s)" it] by (auto simp: window_ok_def Let_def)
  then show ?thesis using item_ok_own assms(3) by blast
qed

text \<open>The step of a successful call, as far as files go.\<close>

lemma add_files:
  assumes "window_ok cfg s" "files_ok s" "add so io cfg c s = (True, fs, s')" "clip_ok c" "sources_ok so" "0 < cfg_PlaylistWindowMax cfg"
  shows "files_ok s'"
    and "own_name (st_nextSeq s) n \<Longrightarrow> st_files s n \<noteq> None \<Longrightarrow> in_window (st_win s') n \<or> (\<exists>r \<in> set (st_retired s'). n \<in> set (rf_names r))
      \<Longrightarrow> st_files s' n = st_files s n"
    and "\<exists>gone removed. wi_Items (st_win s) @ [last (wi_Items (st_win s'))] = removed @ wi_Items (st_win s') \<and>
      retire removed (ci_StartAt c) (st_retired s) = gone @ st_retired s' \<and> (\<forall>r \<in> set gone. seconds (cfg_RetainS cfg) \<le> Sub (ci_StartAt c) (rf_at r))"
proof -
  obtain rt win removed s1 where res: "resolve so cfg c = (Some rt, fs)"
    and app: "append_segment (final_meta cfg s c rt) (st_win s) = (win, removed)"
    and s1: "st_files s1 = put_files (seg_name (sm_Seq (final_meta cfg s c rt))) rt (st_files s)" "st_win s1 = win" "st_retired s1 = st_retired s"
    and s': "st_files s' = st_files (cleanup cfg removed (ci_StartAt c) s1)" "st_retired s' = st_retired (cleanup cfg removed (ci_StartAt c) s1)"
      "st_win s' = win" "st_nextSeq s' = sm_Seq (final_meta cfg s c rt) + 1"
    using assms(3) by (rule add_True)
  let ?m = "final_meta cfg s c rt"
  define q where "q = sm_Seq ?m"
  define L where "L = retire removed (ci_StartAt c) (st_retired s)"
  define s2 where "s2 = s1\<lparr>st_retired := L\<rparr>"
  have cl: "cleanup cfg removed (ci_StartAt c) s1 = expire (seconds (cfg_RetainS cfg)) (ci_StartAt c) L s2"
    by (simp add: cleanup_alt s1 L_def s2_def)
  have s2: "st_files s2 = put_files (seg_name q) rt (st_files s)" "st_win s2 = win" by (simp_all add: s2_def s1 q_def)
  have q: "st_nextSeq s \<le> q" using assms(1,4) by (auto simp: q_def window_ok_def Let_def clip_ok_def)
  have keep: "st_files s' n = put_files (seg_name q) rt (st_files s) n"
    if "in_window win n \<or> (\<exists>r \<in> set (st_retired s'). n \<in> set (rf_names r))" for n
    unfolding s'(1) cl using expire_files [of s2 n "seconds (cfg_RetainS cfg)" "ci_StartAt c" L] that s'(2) cl by (simp add: s2)
  show "own_name (st_nextSeq s) n \<Longrightarrow> st_files s n \<noteq> None \<Longrightarrow> in_window (st_win s') n \<or> (\<exists>r \<in> set (st_retired s'). n \<in> set (rf_names r))
      \<Longrightarrow> st_files s' n = st_files s n"
    using keep [of n] own_not_new q s'(3) put_files_other by metis
  obtain gone where gone: "L = gone @ st_retired s'" "\<forall>r \<in> set gone. seconds (cfg_RetainS cfg) \<le> Sub (ci_StartAt c) (rf_at r)"
    using expire_retired [of L "seconds (cfg_RetainS cfg)" "ci_StartAt c" s2] s'(2) cl by auto
  have mx: "0 < wi_MaxSize (st_win s)" using assms(1,6) by (simp add: window_ok_def Let_def)
  show "\<exists>gone removed. wi_Items (st_win s) @ [last (wi_Items (st_win s'))] = removed @ wi_Items (st_win s') \<and>
      retire removed (ci_StartAt c) (st_retired s) = gone @ st_retired s' \<and> (\<forall>r \<in> set gone. seconds (cfg_RetainS cfg) \<le> Sub (ci_StartAt c) (rf_at r))"
    using gone append_segment_spec(1) [OF app] append_segment_last [OF app mx] s'(3) unfolding L_def by metis
  have mok: "item_ok cfg ?m" and ini: "init_name (rt_initName rt)" using final_meta_ok resolve_init [OF assms(5) res] by blast+
  have mnames: "names_of ?m = [seg_name q, rt_initName rt]"
    using item_ok_names [OF mok] ini Base_join [of "rt_initName rt" "cfg_VariantID cfg"] unfolding q_def
    by (auto simp: names_of_def final_meta_def Let_def init_name_def)
  have known: "put_files (seg_name q) rt (st_files s) n \<noteq> None \<and> own_name (q + 1) n"
    if "it \<in> set (wi_Items (st_win s) @ [?m])" "n \<in> set (names_of it)" for it n
  proof (cases "it = ?m")
    case True
    then show ?thesis using that mnames put_files_new ini by (auto simp: own_name_def)
  next
    case False
    then have it: "it \<in> set (wi_Items (st_win s))" using that(1) by simp
    have own: "own_name (st_nextSeq s) n" using window_own [OF assms(1) it that(2)] .
    have "st_files s n \<noteq> None" using assms(2) it that(2) by (simp add: files_ok_def)
    then have "put_files (seg_name q) rt (st_files s) n \<noteq> None" using put_files_other [OF own_not_new [OF own q]] by simp
    then show ?thesis using own_name_mono [OF own, of "q + 1"] q by simp
  qed
  have sub: "set (wi_Items win) \<subseteq> set (wi_Items (st_win s) @ [?m])" "set removed \<subseteq> set (wi_Items (st_win s) @ [?m])"
    using append_segment_spec(1) [OF app] by auto
  have Lnames: "put_files (seg_name q) rt (st_files s) n \<noteq> None \<and> own_name (q + 1) n" if r: "r \<in> set L" "n \<in> set (rf_names r)" for r n
  proof (cases "r \<in> set (st_retired s)")
    case True
    then have "st_files s n \<noteq> None" and own: "own_name (st_nextSeq s) n" using assms(2) r(2) by (auto simp: files_ok_def)
    then have "put_files (seg_name q) rt (st_files s) n \<noteq> None" using put_files_other [OF own_not_new [OF own q]] by simp
    then show ?thesis using own_name_mono [OF own, of "q + 1"] q by simp
  next
    case False
    then obtain it where "it \<in> set removed" "n \<in> set (names_of it)" using r by (auto simp: L_def retire_def split: if_splits)
    then show ?thesis using known sub(2) by blast
  qed
  have win_ok: "\<forall>it \<in> set (wi_Items win). item_ok cfg it"
    using sub(1) mok assms(1) by (auto simp: window_ok_def Let_def)
  show "files_ok s'"
    unfolding files_ok_def s'(3,4)
  proof (intro conjI ballI)
    fix it n assume it: "it \<in> set (wi_Items win)" "n \<in> set (names_of it)"
    then have "in_window win n" using in_window_names [OF win_ok] by blast
    then have "st_files s' n = put_files (seg_name q) rt (st_files s) n" by (intro keep) blast
    moreover have "put_files (seg_name q) rt (st_files s) n \<noteq> None" using known [of it n] sub(1) it by blast
    ultimately show "st_files s' n \<noteq> None" by simp
  next
    fix r n assume r: "r \<in> set (st_retired s')" "n \<in> set (rf_names r)"
    then have "r \<in> set L" using gone(1) by simp
    then have k: "put_files (seg_name q) rt (st_files s) n \<noteq> None" "own_name (q + 1) n" using Lnames r(2) by blast+
    have "st_files s' n = put_files (seg_name q) rt (st_files s) n" using r by (intro keep) blast
    then show "st_files s' n \<noteq> None" "own_name (sm_Seq ?m + 1) n" using k unfolding q_def by (simp_all only: simp_thms)
  qed
qed

lemma writeFiles_False: "writeFiles io segName rt files = (False, files') \<Longrightarrow> files n \<noteq> None \<Longrightarrow> files' n = files n"
  by (auto simp: writeFiles_def Let_def split: if_splits)

text \<open>A call that fails leaves the window alone; at most an init section was written.\<close>

lemma add_False:
  assumes "add so io cfg c s = (False, fs, s')"
  obtains files where "s' = s\<lparr>st_files := files\<rparr>" "\<And>n. st_files s n \<noteq> None \<Longrightarrow> files n = st_files s n"
proof -
  have "s' = s \<or> (\<exists>rt io segName files. s' = s\<lparr>st_files := files\<rparr> \<and> writeFiles io segName rt (st_files s) = (False, files))"
    using assms by (auto simp: add_def Let_def split: if_splits option.splits prod.splits bool.splits)
  then show thesis
  proof
    assume "s' = s"
    then show thesis using that [of "st_files s"] by (cases s) simp
  next
    assume "\<exists>rt io segName files. s' = s\<lparr>st_files := files\<rparr> \<and> writeFiles io segName rt (st_files s) = (False, files)"
    then obtain rt io segName files where w: "s' = s\<lparr>st_files := files\<rparr>" "writeFiles io segName rt (st_files s) = (False, files)" by blast
    show thesis using that [OF w(1)] writeFiles_False [OF w(2)] by blast
  qed
qed

lemma add_False_ok:
  assumes "add so io cfg c s = (False, fs, s')"
  shows "window_ok cfg s \<Longrightarrow> window_ok cfg s'" "files_ok s \<Longrightarrow> files_ok s'"
  using assms by (auto elim!: add_False simp: window_ok_def files_ok_def Let_def)

end
