(* ===== verification/LivePlaylist.thy ===== *)
theory LivePlaylist
  imports Stitch
begin

text \<open>
  Runs of the stitcher: what holds of the live playlist and of the output directory after any sequence of clips, answers
  of the sources and results of the file system. The files of an entry stay what they were while the entry is in the
  playlist and for the retention time after it left; numbers of an entry do not change; every splice and every break is
  marked.
\<close>

subsection \<open>Runs of the stitcher\<close>

inductive stitch_run :: "Config \<Rightarrow> stitcher \<Rightarrow> stitcher \<Rightarrow> bool" for cfg :: Config and s :: stitcher where
  stitch_start: "stitch_run cfg s s"
| stitch_add: "stitch_run cfg s s1 \<Longrightarrow> clip_ok c \<Longrightarrow> sources_ok so \<Longrightarrow> add so io cfg c s1 = (ok, fs, s2) \<Longrightarrow> stitch_run cfg s s2"

lemma new_stitcher_ok: "0 \<le> cfg_PlaylistWindowMax cfg \<Longrightarrow> window_ok cfg (newStitcher cfg files) \<and> files_ok (newStitcher cfg files)"
  by (simp add: window_ok_def files_ok_def newStitcher_def)

lemma stitch_run_ok:
  assumes "stitch_run cfg s s'" "window_ok cfg s" "files_ok s" "0 < cfg_PlaylistWindowMax cfg"
  shows "window_ok cfg s' \<and> files_ok s'"
  using assms(1)
proof (induction rule: stitch_run.induct)
  case (stitch_add s1 c so io ok fs s2)
  show ?case
  proof (cases ok)
    case True
    then have t: "add so io cfg c s1 = (True, fs, s2)" using stitch_add.hyps(4) by simp
    show ?thesis using add_window_ok [OF _ t stitch_add.hyps(2,3) assms(4)] add_files(1) [OF _ _ t stitch_add.hyps(2,3) assms(4)] stitch_add.IH by blast
  next
    case False
    then have f: "add so io cfg c s1 = (False, fs, s2)" using stitch_add.hyps(4) by simp
    show ?thesis using add_False_ok [OF f] stitch_add.IH by blast
  qed
qed (use assms in blast)

text \<open>Sequence numbers and times only grow.\<close>

lemma add_mono:
  assumes "window_ok cfg s" "add so io cfg c s = (ok, fs, s')" "clip_ok c"
  shows "st_nextSeq s \<le> st_nextSeq s' \<and> (wi_Items (st_win s) \<noteq> [] \<longrightarrow> st_lastStart s \<le> st_lastStart s')"
proof (cases ok)
  case True
  then show ?thesis using assms(2) by (auto elim!: add_True) (use assms(1,3) in \<open>auto simp: window_ok_def clip_ok_def Let_def\<close>)
next
  case False
  then show ?thesis using assms(2) by (auto elim!: add_False)
qed

lemma stitch_run_mono:
  assumes "stitch_run cfg s s'" "window_ok cfg s" "files_ok s" "0 < cfg_PlaylistWindowMax cfg"
  shows "st_nextSeq s \<le> st_nextSeq s' \<and> (wi_Items (st_win s) \<noteq> [] \<longrightarrow> wi_Items (st_win s') \<noteq> [] \<and> st_lastStart s \<le> st_lastStart s')"
  using assms(1)
proof (induction rule: stitch_run.induct)
  case (stitch_add s1 c so io ok fs s2)
  have w1: "window_ok cfg s1" "files_ok s1" using stitch_run_ok [OF stitch_add.hyps(1) assms(2-4)] by blast+
  have "wi_Items (st_win s2) \<noteq> []" if "wi_Items (st_win s1) \<noteq> []"
  proof (cases ok)
    case True
    have "0 < wi_MaxSize (st_win s1)" using w1(1) assms(4) by (simp add: window_ok_def Let_def)
    then show ?thesis using stitch_add.hyps(4) True append_segment_last by (auto elim!: add_True)
  next
    case False
    then show ?thesis using stitch_add.hyps(4) that by (auto elim!: add_False)
  qed
  then show ?case using stitch_add.IH add_mono [OF w1(1) stitch_add.hyps(4,2)] by auto
qed simp

text \<open>An entry that is in the window later was there before, unless it is newer.\<close>

lemma add_items_old:
  assumes "window_ok cfg s" "add so io cfg c s = (ok, fs, s')" "clip_ok c" "it \<in> set (wi_Items (st_win s'))" "sm_Seq it < st_nextSeq s"
  shows "it \<in> set (wi_Items (st_win s))"
proof (cases ok)
  case True
  have "0 \<le> st_nextSeq s" using assms(1) by (simp add: window_ok_def Let_def)
  obtain rt win removed where app: "append_segment (final_meta cfg s c rt) (st_win s) = (win, removed)" and s': "st_win s' = win"
    using assms(2) True by (auto elim!: add_True)
  have "it \<in> set (wi_Items (st_win s) @ [final_meta cfg s c rt])" using assms(4) s' append_segment_spec(1) [OF app] by simp
  moreover have "it \<noteq> final_meta cfg s c rt" using assms(3,5) by (auto simp: clip_ok_def split: if_splits)
  ultimately show ?thesis by simp
next
  case False
  then show ?thesis using assms(2,4) by (auto elim!: add_False)
qed

lemma add_keeps_file:
  assumes "window_ok cfg s" "files_ok s" "add so io cfg c s = (ok, fs, s')" "clip_ok c" "sources_ok so" "0 < cfg_PlaylistWindowMax cfg"
    and "own_name (st_nextSeq s) n" "st_files s n \<noteq> None"
    and "in_window (st_win s') n \<or> (\<exists>r \<in> set (st_retired s'). n \<in> set (rf_names r))"
  shows "st_files s' n = st_files s n"
proof (cases ok)
  case True
  then have t: "add so io cfg c s = (True, fs, s')" using assms(3) by simp
  show ?thesis by (rule add_files(2) [OF assms(1,2) t assms(4-9)])
next
  case False
  then show ?thesis using assms(3,8) by (auto elim!: add_False)
qed

lemma window_in_window: "window_ok cfg s \<Longrightarrow> it \<in> set (wi_Items (st_win s)) \<Longrightarrow> n \<in> set (names_of it) \<Longrightarrow> in_window (st_win s) n"
  using in_window_names [of "st_win s" cfg n] by (auto simp: window_ok_def Let_def)

lemma window_seq: "window_ok cfg s \<Longrightarrow> it \<in> set (wi_Items (st_win s)) \<Longrightarrow> sm_Seq it < st_nextSeq s"
  using seqs_from_bound [of "st_nextSeq s - int (length (wi_Items (st_win s)))" "wi_Items (st_win s)" it] by (auto simp: window_ok_def Let_def)

lemma run_file_in_window:
  assumes "stitch_run cfg s s'" "window_ok cfg s" "files_ok s" "0 < cfg_PlaylistWindowMax cfg"
    and "it \<in> set (wi_Items (st_win s))" "n \<in> set (names_of it)"
  shows "it \<in> set (wi_Items (st_win s')) \<Longrightarrow> st_files s' n = st_files s n"
  using assms(1)
proof (induction rule: stitch_run.induct)
  case (stitch_add s1 c so io ok fs s2)
  have w1: "window_ok cfg s1" "files_ok s1" using stitch_run_ok [OF stitch_add.hyps(1) assms(2-4)] by blast+
  have w2: "window_ok cfg s2" using stitch_run_ok [OF stitch_run.stitch_add [OF stitch_add.hyps] assms(2-4)] by blast
  have "sm_Seq it < st_nextSeq s1" using window_seq [OF assms(2,5)] stitch_run_mono [OF stitch_add.hyps(1) assms(2-4)] by linarith
  then have it1: "it \<in> set (wi_Items (st_win s1))" using add_items_old [OF w1(1) stitch_add.hyps(4,2) stitch_add.prems] by blast
  have "st_files s1 n \<noteq> None" using w1(2) it1 assms(6) by (simp add: files_ok_def)
  then have "st_files s2 n = st_files s1 n"
    using add_keeps_file [OF w1 stitch_add.hyps(4,2,3) assms(4)] window_own [OF w1(1) it1 assms(6)] window_in_window [OF w2 stitch_add.prems assms(6)] by blast
  then show ?case using stitch_add.IH it1 by simp
qed simp

text \<open>A retirement stays as long as its time has not come.\<close>

lemma Sub_less: "y \<le> x \<Longrightarrow> x < y + k \<Longrightarrow> k < 2 ^ 63 \<Longrightarrow> Sub x y < k"
  by (simp add: Sub_def)

lemma add_keeps_retired:
  assumes "window_ok cfg s" "files_ok s" "add so io cfg c s = (ok, fs, s')" "clip_ok c" "sources_ok so" "0 < cfg_PlaylistWindowMax cfg"
    and "r \<in> set (st_retired s)" "rf_at r \<le> st_lastStart s'" "st_lastStart s' < rf_at r + seconds (cfg_RetainS cfg)" "seconds (cfg_RetainS cfg) < 2 ^ 63"
  shows "r \<in> set (st_retired s')"
proof (cases ok)
  case True
  then have t: "add so io cfg c s = (True, fs, s')" using assms(3) by simp
  have last: "st_lastStart s' = ci_StartAt c" using t by (auto elim!: add_True)
  obtain gone removed where "retire removed (ci_StartAt c) (st_retired s) = gone @ st_retired s'"
      "\<forall>r \<in> set gone. seconds (cfg_RetainS cfg) \<le> Sub (ci_StartAt c) (rf_at r)"
    using add_files(3) [OF assms(1,2) t assms(4-6)] by blast
  moreover have "r \<in> set (retire removed (ci_StartAt c) (st_retired s))" using assms(7) by (simp add: retire_def)
  moreover have "Sub (ci_StartAt c) (rf_at r) < seconds (cfg_RetainS cfg)" using Sub_less assms(8-10) last by simp
  ultimately show ?thesis by (metis Un_iff linorder_not_less set_append)
next
  case False
  then show ?thesis using assms(3,7) by (auto elim!: add_False)
qed

lemma run_file_retired:
  assumes "stitch_run cfg s s'" "window_ok cfg s" "files_ok s" "0 < cfg_PlaylistWindowMax cfg" "wi_Items (st_win s) \<noteq> []"
    and "r \<in> set (st_retired s)" "n \<in> set (rf_names r)" "rf_at r \<le> st_lastStart s" "seconds (cfg_RetainS cfg) < 2 ^ 63"
  shows "st_lastStart s' < rf_at r + seconds (cfg_RetainS cfg) \<Longrightarrow> r \<in> set (st_retired s') \<and> st_files s' n = st_files s n"
  using assms(1)
proof (induction rule: stitch_run.induct)
  case stitch_start
  then show ?case using assms(6) by simp
next
  case (stitch_add s1 c so io ok fs s2)
  have w1: "window_ok cfg s1" "files_ok s1" using stitch_run_ok [OF stitch_add.hyps(1) assms(2-4)] by blast+
  have m1: "st_lastStart s \<le> st_lastStart s1" "wi_Items (st_win s1) \<noteq> []" using stitch_run_mono [OF stitch_add.hyps(1) assms(2-4)] assms(5) by blast+
  have m2: "st_lastStart s1 \<le> st_lastStart s2" using add_mono [OF w1(1) stitch_add.hyps(4,2)] m1(2) by blast
  then have r1: "r \<in> set (st_retired s1)" "st_files s1 n = st_files s n" using stitch_add.IH stitch_add.prems by simp_all
  have r2: "r \<in> set (st_retired s2)"
    using add_keeps_retired [OF w1 stitch_add.hyps(4,2,3) assms(4) r1(1)] stitch_add.prems assms(8,9) m1(1) m2 by simp
  have "own_name (st_nextSeq s1) n" "st_files s1 n \<noteq> None" using w1(2) r1(1) assms(7) by (auto simp: files_ok_def)
  then have "st_files s2 n = st_files s1 n" using add_keeps_file [OF w1 stitch_add.hyps(4,2,3) assms(4)] r2 assms(7) by blast
  then show ?case using r1(2) r2 by simp
qed

subsection \<open>Splices\<close>

definition follows :: "SegmentMeta \<Rightarrow> SegmentMeta \<Rightarrow> bool" where
  "follows a b \<longleftrightarrow> sm_src b = sm_src a \<and> sm_idx b = sm_idx a + 1 \<and>
     \<bar>sm_ProgramDateTime b - (sm_ProgramDateTime a + second)\<bar> \<le> 500 * millisecond"

definition splices_marked :: "stitcher \<Rightarrow> bool" where
  "splices_marked s \<longleftrightarrow>
     successively (\<lambda>a b. sm_Discontinuity b \<or> follows a b) (wi_Items (st_win s)) \<and>
     (wi_Items (st_win s) \<noteq> [] \<longrightarrow>
        (let l = last (wi_Items (st_win s)) in
         st_prevSrc s = sm_src l \<and> st_prevIdx s = sm_idx l \<and> st_prevEnd s = sm_ProgramDateTime l + second \<and> zero_time < sm_ProgramDateTime l))"

lemma Sub_small: "\<bar>Sub x y\<bar> \<le> 500 * millisecond \<Longrightarrow> \<bar>x - y\<bar> \<le> 500 * millisecond"
  by (auto simp: Sub_def max_def min_def split: if_splits)

lemma is_disc_follows:
  assumes "splices_marked s" "wi_Items (st_win s) \<noteq> []" "\<not> is_disc s m c"
  shows "follows (last (wi_Items (st_win s))) (m\<lparr>sm_ProgramDateTime := ci_StartAt c\<rparr>)"
proof -
  let ?l = "last (wi_Items (st_win s))"
  have l: "st_prevSrc s = sm_src ?l" "st_prevIdx s = sm_idx ?l" "st_prevEnd s = sm_ProgramDateTime ?l + second" "\<not> IsZero (st_prevEnd s)"
    using assms(1,2) by (auto simp: splices_marked_def Let_def)
  have d: "sm_src m = sm_src ?l" "sm_idx m = sm_idx ?l + 1" "\<bar>Sub (ci_StartAt c) (st_prevEnd s)\<bar> \<le> 500 * millisecond"
    using assms(2,3) l by (auto simp: is_disc_def Let_def split: if_splits)
  then show ?thesis using Sub_small [OF d(3)] l(3) by (simp add: follows_def)
qed

lemma is_disc_cong: "sm_src m = sm_src m' \<Longrightarrow> sm_idx m = sm_idx m' \<Longrightarrow> is_disc s m c = is_disc s m' c"
  by (simp add: is_disc_def)

lemma final_meta_disc: "sm_Discontinuity (final_meta cfg s c rt) = is_disc s (rt_meta rt) c"
  by (cases "rt_slate rt") (auto simp: final_meta_def meta_for_def Let_def intro!: is_disc_cong)

lemma add_splices:
  assumes "splices_marked s" "window_ok cfg s" "add so io cfg c s = (True, fs, s')" "clip_ok c" "0 < cfg_PlaylistWindowMax cfg"
  shows "splices_marked s'"
  using assms(3)
proof (rule add_True)
  fix rt win removed s1
  assume app: "append_segment (final_meta cfg s c rt) (st_win s) = (win, removed)"
    and s': "st_win s' = win" "st_prevSrc s' = sm_src (rt_meta rt)" "st_prevIdx s' = sm_idx (rt_meta rt)"
      "st_prevEnd s' = ci_StartAt c + seconds (ci_DurationS c)"
  let ?m = "final_meta cfg s c rt" and ?items = "wi_Items (st_win s)"
  have m: "sm_src ?m = sm_src (rt_meta rt)" "sm_idx ?m = sm_idx (rt_meta rt)" by (simp_all add: final_meta_def meta_for_def Let_def)
  have "sm_Discontinuity ?m \<or> follows (last ?items) ?m" if "?items \<noteq> []"
    using is_disc_follows [OF assms(1) that, of "rt_meta rt" c] m by (auto simp: follows_def final_meta_disc)
  then have "successively (\<lambda>a b. sm_Discontinuity b \<or> follows a b) (?items @ [?m])"
    using assms(1) by (auto simp: splices_marked_def successively_append_iff)
  then have "successively (\<lambda>a b. sm_Discontinuity b \<or> follows a b) (wi_Items win)"
    unfolding append_segment_spec(1) [OF app] by (simp add: successively_append_iff)
  moreover have "last (wi_Items win) = ?m" "wi_Items win \<noteq> []" using append_segment_last [OF app] assms(2,5) by (auto simp: window_ok_def Let_def)
  ultimately show "splices_marked s'" using s' m assms(4) by (simp add: splices_marked_def Let_def clip_ok_def SegmentSec_def)
qed


lemma add_False_splices: "splices_marked s \<Longrightarrow> add so io cfg c s = (False, fs, s') \<Longrightarrow> splices_marked s'"
  by (auto elim!: add_False simp: splices_marked_def Let_def)

subsection \<open>Break markers\<close>

text \<open>The markers an entry carries, given the entry before it: the end of the break that is over and the start of the break
  that begins with this second.\<close>

definition marked :: "Config \<Rightarrow> SegmentMeta \<Rightarrow> SegmentMeta \<Rightarrow> bool" where
  "marked cfg a b \<longleftrightarrow>
     (\<exists>given. sm_Tags b =
        (if \<not> IsZero (sm_AvailStart a) \<and> sm_AvailStart a \<noteq> sm_AvailStart b then endMarkers (cfg_SCTE35Tags cfg) (sm_AvailStart a) (sm_AvailDur a) else []) @
        (if \<not> IsZero (sm_AvailStart b) \<and> sm_ProgramDateTime b = sm_AvailStart b
         then startMarkers (cfg_SCTE35Tags cfg) (sm_AvailStart b) (sm_AvailDur b) given else []))"

definition breaks_marked :: "Config \<Rightarrow> stitcher \<Rightarrow> bool" where
  "breaks_marked cfg s \<longleftrightarrow>
     successively (marked cfg) (wi_Items (st_win s)) \<and>
     (wi_Items (st_win s) \<noteq> [] \<longrightarrow>
        st_prevAvail s = sm_AvailStart (last (wi_Items (st_win s))) \<and> st_prevAvailDur s = sm_AvailDur (last (wi_Items (st_win s))))"

lemma no_markers: "mode = '''' \<or> mode = ''off'' \<Longrightarrow> endMarkers mode t d = [] \<and> startMarkers mode t d g = []"
  by (auto simp: endMarkers_def startMarkers_def)

lemma breakTags_alt:
  "breakTags cfg s c =
     (if \<not> IsZero (st_prevAvail s) \<and> st_prevAvail s \<noteq> ci_BreakStart c then endMarkers (cfg_SCTE35Tags cfg) (st_prevAvail s) (st_prevAvailDur s) else []) @
     (if \<not> IsZero (ci_BreakStart c) \<and> ci_StartAt c = ci_BreakStart c
      then startMarkers (cfg_SCTE35Tags cfg) (ci_BreakStart c) (ci_BreakDurS c) (ci_SCTE35 c) else [])"
  using no_markers [of "cfg_SCTE35Tags cfg"] by (auto simp: breakTags_def Let_def)

lemma add_breaks:
  assumes "breaks_marked cfg s" "window_ok cfg s" "add so io cfg c s = (True, fs, s')" "0 < cfg_PlaylistWindowMax cfg"
  shows "breaks_marked cfg s'"
  using assms(3)
proof (rule add_True)
  fix rt win removed s1
  assume app: "append_segment (final_meta cfg s c rt) (st_win s) = (win, removed)"
    and s': "st_win s' = win" "st_prevAvail s' = ci_BreakStart c" "st_prevAvailDur s' = ci_BreakDurS c"
  let ?m = "final_meta cfg s c rt" and ?items = "wi_Items (st_win s)"
  have "marked cfg (last ?items) ?m" if "?items \<noteq> []"
    using assms(1) that unfolding breaks_marked_def marked_def by (intro exI [of _ "ci_SCTE35 c"]) (simp add: breakTags_alt)
  then have "successively (marked cfg) (?items @ [?m])"
    using assms(1) by (auto simp: breaks_marked_def successively_append_iff)
  then have "successively (marked cfg) (wi_Items win)"
    unfolding append_segment_spec(1) [OF app] by (simp add: successively_append_iff)
  moreover have "last (wi_Items win) = ?m" "wi_Items win \<noteq> []" using append_segment_last [OF app] assms(2,4) by (auto simp: window_ok_def Let_def)
  ultimately show "breaks_marked cfg s'" using s' by (simp add: breaks_marked_def)
qed

lemma add_False_breaks: "breaks_marked cfg s \<Longrightarrow> add so io cfg c s = (False, fs, s') \<Longrightarrow> breaks_marked cfg s'"
  by (auto elim!: add_False simp: breaks_marked_def)

lemma stitch_run_marked:
  assumes "stitch_run cfg s s'" "window_ok cfg s" "files_ok s" "splices_marked s" "breaks_marked cfg s" "0 < cfg_PlaylistWindowMax cfg"
  shows "splices_marked s' \<and> breaks_marked cfg s'"
  using assms(1)
proof (induction rule: stitch_run.induct)
  case (stitch_add s1 c so io ok fs s2)
  have w: "window_ok cfg s1" using stitch_run_ok [OF stitch_add.hyps(1) assms(2,3,6)] by blast
  show ?case
  proof (cases ok)
    case True
    then have t: "add so io cfg c s1 = (True, fs, s2)" using stitch_add.hyps(4) by simp
    show ?thesis using add_splices [OF _ w t stitch_add.hyps(2) assms(6)] add_breaks [OF _ w t assms(6)] stitch_add.IH by blast
  next
    case False
    then have f: "add so io cfg c s1 = (False, fs, s2)" using stitch_add.hyps(4) by simp
    show ?thesis using add_False_splices [OF _ f] add_False_breaks [OF _ f] stitch_add.IH by blast
  qed
qed (use assms in blast)

lemma new_stitcher_marked: "splices_marked (newStitcher cfg files) \<and> breaks_marked cfg (newStitcher cfg files)"
  by (simp add: splices_marked_def breaks_marked_def newStitcher_def)


subsection \<open>Properties of the playlist\<close>

lemma new_run_ok:
  assumes "stitch_run cfg (newStitcher cfg files) s" "0 < cfg_PlaylistWindowMax cfg"
  shows "window_ok cfg s" "files_ok s" "splices_marked s" "breaks_marked cfg s"
  using stitch_run_ok [OF assms(1)] stitch_run_marked [OF assms(1)] new_stitcher_ok [of cfg files] new_stitcher_marked [of cfg files] assms(2) by auto

text \<open>C8. Whatever clips come, whatever the sources answer and whichever writes fail, the playlist of a stitcher that started
  empty has at most the configured number of entries, numbered one by one, at increasing times, each named by its own
  number; all the segments and init sections that it names, and the ones of entries that left not long ago, are on disk.\<close>

theorem playlist_invariant:
  assumes "stitch_run cfg (newStitcher cfg files) s" and "0 < cfg_PlaylistWindowMax cfg"
  shows "window_ok cfg s \<and> files_ok s"
  using new_run_ok [OF assms] by blast

text \<open>C11. Every splice and every break of the playlist is marked: of two neighbours the second one carries a discontinuity unless
  it is the next segment of the same source, half a second at most from where the first one ends; it carries the end
  markers exactly of a break that the first one was in and it is not, and the start markers exactly when it is the first
  second of its break.\<close>

theorem playlist_marks:
  assumes "stitch_run cfg (newStitcher cfg files) s" and "0 < cfg_PlaylistWindowMax cfg" and "Suc i < length (wi_Items (st_win s))"
  shows "let a = wi_Items (st_win s) ! i; b = wi_Items (st_win s) ! Suc i
    in (sm_Discontinuity b \<or> sm_src b = sm_src a \<and> sm_idx b = sm_idx a + 1 \<and>
          \<bar>sm_ProgramDateTime b - (sm_ProgramDateTime a + second)\<bar> \<le> 500 * millisecond) \<and>
       (\<exists>given. sm_Tags b =
          (if \<not> IsZero (sm_AvailStart a) \<and> sm_AvailStart a \<noteq> sm_AvailStart b then endMarkers (cfg_SCTE35Tags cfg) (sm_AvailStart a) (sm_AvailDur a) else []) @
          (if \<not> IsZero (sm_AvailStart b) \<and> sm_ProgramDateTime b = sm_AvailStart b
           then startMarkers (cfg_SCTE35Tags cfg) (sm_AvailStart b) (sm_AvailDur b) given else []))"
  using new_run_ok(3,4) [OF assms(1,2)] assms(3)
  unfolding splices_marked_def breaks_marked_def follows_def marked_def successively_conv_nth Let_def by blast

text \<open>C9. The files of an entry do not change while the entry is in the playlist.\<close>

theorem playlist_files_stable:
  assumes "stitch_run cfg (newStitcher cfg files) s" and "stitch_run cfg s s'" and "0 < cfg_PlaylistWindowMax cfg"
    and "it \<in> set (wi_Items (st_win s))" and "it \<in> set (wi_Items (st_win s'))" and "n \<in> set (names_of it)"
  shows "st_files s' n = st_files s n \<and> st_files s n \<noteq> None"
  using run_file_in_window [OF assms(2) new_run_ok(1,2) [OF assms(1,3)] assms(3,4,6,5)] new_run_ok(2) [OF assms(1,3)] assms(4,6)
  by (simp add: files_ok_def)

lemma leaves_retired:
  assumes "window_ok cfg s" "files_ok s" "add so io cfg c s = (ok, fs, s1)" "clip_ok c" "sources_ok so" "0 < cfg_PlaylistWindowMax cfg"
    and "it \<in> set (wi_Items (st_win s))" "it \<notin> set (wi_Items (st_win s1))" "n \<in> set (names_of it)" "0 < seconds (cfg_RetainS cfg)"
  shows "\<exists>r \<in> set (st_retired s1). n \<in> set (rf_names r) \<and> rf_at r = st_lastStart s1"
proof (cases ok)
  case True
  then have t: "add so io cfg c s = (True, fs, s1)" using assms(3) by simp
  have last: "st_lastStart s1 = ci_StartAt c" using t by (auto elim!: add_True)
  obtain gone removed where r: "wi_Items (st_win s) @ [last (wi_Items (st_win s1))] = removed @ wi_Items (st_win s1)"
      "retire removed (ci_StartAt c) (st_retired s) = gone @ st_retired s1" "\<forall>r \<in> set gone. seconds (cfg_RetainS cfg) \<le> Sub (ci_StartAt c) (rf_at r)"
    using add_files(3) [OF assms(1,2) t assms(4-6)] by blast
  have "it \<in> set (removed @ wi_Items (st_win s1))" using assms(7) r(1) by (metis Un_iff set_append)
  then have it: "it \<in> set removed" using assms(8) by simp
  let ?r = "\<lparr>rf_names = concat (map names_of removed), rf_at = ci_StartAt c\<rparr>"
  have "?r \<in> set (gone @ st_retired s1)" using it unfolding r(2) [symmetric] retire_def by auto
  moreover have "?r \<notin> set gone" using r(3) assms(10) by (auto simp: Sub_def)
  ultimately show ?thesis using it assms(9) last by (intro bexI [of _ ?r]) auto
next
  case False
  then show ?thesis using assms(3,7,8) by (auto elim!: add_False)
qed

text \<open>C10. The files of an entry that leaves the playlist stay, unchanged, for the retention time of the stream.\<close>

theorem retained_files:
  assumes "stitch_run cfg (newStitcher cfg files) s" and "0 < cfg_PlaylistWindowMax cfg"
    and "clip_ok c" and "sources_ok so" and "add so io cfg c s = (ok, fs, s1)" and "stitch_run cfg s1 s'"
    and "it \<in> set (wi_Items (st_win s))" and "it \<notin> set (wi_Items (st_win s1))" and "n \<in> set (names_of it)"
    and "0 < cfg_RetainS cfg" "cfg_RetainS cfg \<le> max_seconds" and "st_lastStart s' < st_lastStart s1 + cfg_RetainS cfg * second"
  shows "st_files s' n = st_files s n \<and> st_files s n \<noteq> None"
proof -
  note ok = new_run_ok(1,2) [OF assms(1,2)]
  note run1 = stitch_add [OF assms(1,3-5)]
  note ok1 = new_run_ok(1,2) [OF run1 assms(2)]
  have keep: "seconds (cfg_RetainS cfg) = cfg_RetainS cfg * second" "0 < seconds (cfg_RetainS cfg)" "seconds (cfg_RetainS cfg) < 2 ^ 63"
    using assms(10,11) by simp_all
  obtain r where r: "r \<in> set (st_retired s1)" "n \<in> set (rf_names r)" "rf_at r = st_lastStart s1"
    using leaves_retired [OF ok assms(5,3,4,2,7-9) keep(2)] by blast
  have some: "st_files s n \<noteq> None" and own: "own_name (st_nextSeq s) n"
    using ok assms(7,9) window_own [OF ok(1)] by (auto simp: files_ok_def)
  have ne: "wi_Items (st_win s1) \<noteq> []"
    using stitch_run_mono [OF stitch_add [OF stitch_start assms(3-5)] ok assms(2)] assms(7) by (cases "wi_Items (st_win s)") auto
  have "st_files s' n = st_files s1 n"
    using run_file_retired [OF assms(6) ok1 assms(2) ne r(1,2) _ keep(3)] assms(12) r(3) keep(1) by simp
  moreover have "st_files s1 n = st_files s n" using add_keeps_file [OF ok assms(5,3,4,2) own some] r(1,2) by blast
  ultimately show ?thesis using some by simp
qed

text \<open>The numbers that a player derives for an entry do not change when the window moves on: the media sequence number
  of the first entry plus the position, and the discontinuity sequence number plus the discontinuities up to the entry.\<close>

theorem append_keeps_numbers:
  assumes "append_segment m w = (w', removed)" and "seqs_from n (wi_Items w @ [m])" and "i < length (wi_Items w')"
  shows "(wi_Items w @ [m]) ! (length removed + i) = wi_Items w' ! i \<and>
    sm_Seq (hd (wi_Items w')) + int i = n + int (length removed + i) \<and>
    wi_DiscSeq w' + int (discs (take (Suc i) (wi_Items w'))) = wi_DiscSeq w + int (discs (take (Suc (length removed + i)) (wi_Items w @ [m])))"
proof -
  note a = append_segment_spec [OF assms(1)]
  have "seqs_from (n + int (length removed)) (wi_Items w')" using assms(2) unfolding a(1) by simp
  then have "sm_Seq (hd (wi_Items w')) = n + int (length removed)" using assms(3) by (cases "wi_Items w'") auto
  then show ?thesis unfolding a(1,2) by (simp add: nth_append)
qed

lemma add_ok_iff:
  "fst (add so io cfg c s) \<longleftrightarrow>
     (IsZero (st_lastStart s) \<or> st_lastStart s < ci_StartAt c) \<and>
     (\<exists>rt. (prepare so cfg (ci_URI c) (ci_OffsetS c) (ci_Type c = ''slate'') (ci_StartAt c) = Inr rt \<or>
            isl (prepare so cfg (ci_URI c) (ci_OffsetS c) (ci_Type c = ''slate'') (ci_StartAt c)) \<and>
            ci_Type c \<noteq> ''slate'' \<and> cfg_SlateURI cfg \<notin> {'''', ci_URI c} \<and>
            prepare so cfg (cfg_SlateURI cfg) (Unix (ci_StartAt c)) True (ci_StartAt c) = Inr rt) \<and>
           io_mkdir io \<and> io_seg io \<and> (rt_initName rt \<in> dom (st_files s) \<or> io_init io))"
proof -
  have res: "fst (add so io cfg c s) \<longleftrightarrow> (IsZero (st_lastStart s) \<or> st_lastStart s < ci_StartAt c) \<and>
      (\<exists>rt. fst (resolve so cfg c) = Some rt \<and> io_mkdir io \<and> io_seg io \<and> (st_files s (rt_initName rt) \<noteq> None \<or> io_init io))"
    by (auto simp: add_def writeFiles_def Let_def split: if_splits prod.splits option.splits)
  show ?thesis unfolding res
    by (cases "prepare so cfg (ci_URI c) (ci_OffsetS c) (ci_Type c = ''slate'') (ci_StartAt c)";
        cases "prepare so cfg (cfg_SlateURI cfg) (Unix (ci_StartAt c)) True (ci_StartAt c)")
      (auto simp: resolve_def domIff Let_def)
qed


text \<open>When a clip gets on the air: the call succeeds exactly for a clip that is later than the last one, that can be prepared
  or, unless it is the slate itself, be replaced by the slate, and whose files can be written.\<close>

theorem add_succeeds_iff:
  "fst (add so io cfg c s) \<longleftrightarrow>
     (IsZero (st_lastStart s) \<or> st_lastStart s < ci_StartAt c) \<and>
     (\<exists>rt. (prepare so cfg (ci_URI c) (ci_OffsetS c) (ci_Type c = ''slate'') (ci_StartAt c) = Inr rt \<or>
            isl (prepare so cfg (ci_URI c) (ci_OffsetS c) (ci_Type c = ''slate'') (ci_StartAt c)) \<and>
            ci_Type c \<noteq> ''slate'' \<and> cfg_SlateURI cfg \<notin> {'''', ci_URI c} \<and>
            prepare so cfg (cfg_SlateURI cfg) (Unix (ci_StartAt c)) True (ci_StartAt c) = Inr rt) \<and>
           io_mkdir io \<and> io_seg io \<and> (rt_initName rt \<in> dom (st_files s) \<or> io_init io))"
  by (rule add_ok_iff)

subsection \<open>Two clips of one source in a window of one entry\<close>

definition w_sources :: sources where
  "w_sources = \<lparr>so_playlist = (\<lambda>u. if u = ''a.m3u8'' then Inr (zero_playlist\<lparr>pl_MapURI := ''init.mp4'', pl_Segments := replicate 10 \<lparr>sg_URI = ''5.m4s'', sg_Duration = 1, sg_Discontinuity = False, sg_ProgramDateTime = zero_time, sg_MapURI = ''init.mp4''\<rparr>\<rparr>) else Inl ''404''),
     so_init = (\<lambda>u. Inr \<lparr>ie_data = [7], ie_parsed = w_init, ie_name = ''init_ab.mp4''\<rparr>), so_blob = (\<lambda>u. Inr w_seg)\<rparr>"

definition w_cfg :: Config where
  "w_cfg = default_config\<lparr>cfg_PlaylistWindowMax := 1, cfg_SCTE35Tags := ''cue''\<rparr>"

definition w_clip :: "int \<Rightarrow> ClipItem" where
  "w_clip k = zero_clip\<lparr>ci_Seq := k, ci_URI := ''a.m3u8'', ci_OffsetS := 5, ci_Type := ''content'', ci_DurationS := 1,
     ci_StartAt := (1767836800 + k) * second\<rparr>"

definition w_io :: io_result where
  "w_io = \<lparr>io_mkdir = True, io_init = True, io_seg = True\<rparr>"

definition w_step :: "Config \<Rightarrow> int \<Rightarrow> stitcher \<Rightarrow> stitcher" where
  "w_step cfg k s = snd (snd (add w_sources w_io cfg (w_clip k) s))"

abbreviation w_ok :: "Config \<Rightarrow> bool" where "w_ok cfg \<equiv> cfg_SegmentSec cfg = 1 \<and> 0 \<le> cfg_DurationTolerance cfg"

lemma w_retime:
  assumes "k = 1 \<or> k = 2"
  shows "\<exists>out. Retime w_seg w_init (word_of_int (190000000 + k)) 5 gridTolerance = Inr out"
proof -
  have t1: "new_time w_traf 190000001 5 (1 / 4) 5020 = Inr 190000001020" by (simp add: new_time_def w_traf_def Let_def)
  have t2: "new_time w_traf 190000002 5 (1 / 4) 5020 = Inr 190000002020" by (simp add: new_time_def w_traf_def Let_def)
  have loop: "\<exists>out. Retime w_seg w_init a 5 gridTolerance = Inr out" if "new_time w_traf a 5 (1 / 4) 5020 = Inr v" for a v
  proof -
    have f: "tf_version w_traf = 1" "tf_tfdtBase w_traf = 40" by (simp_all add: w_traf_def)
    show ?thesis unfolding Retime_def w_walk bindE_simps gridTolerance_def retime_loop.simps f by (simp add: w_old w_length that bindE_simps)
  qed
  have "word_of_int (190000000 + k) \<in> {190000001, 190000002 :: 64 word}" using assms by auto
  then show ?thesis using loop [OF t1] loop [OF t2] by (elim insertE emptyE) simp_all
qed

lemma w_prepare:
  assumes "k = 1 \<or> k = 2" "w_ok cfg"
  obtains out where "prepare w_sources cfg ''a.m3u8'' 5 False (ci_StartAt (w_clip k)) =
    Inr \<lparr>rt_meta = zero_meta\<lparr>sm_Duration := 1, sm_URI := ''5.m4s'', sm_MapURI := ''init.mp4'', sm_src := ''a.m3u8'', sm_idx := 5\<rparr>,
         rt_seg = out, rt_init = [7], rt_initName = ''init_ab.mp4'', rt_slate = False\<rparr>"
proof -
  obtain out where out: "Retime w_seg w_init (word_of_int (190000000 + k)) 5 gridTolerance = Inr out" using w_retime [OF assms(1)] by blast
  have "Unix (ci_StartAt (w_clip k)) - timelineEpoch = 190000000 + k" by (simp add: Unix_def w_clip_def timelineEpoch_def)
  moreover have "lookup w_sources ''a.m3u8'' 5 False (cfg_SegmentSec cfg) (cfg_DurationTolerance cfg) =
      Inr (zero_meta\<lparr>sm_Duration := 1, sm_URI := ''5.m4s'', sm_MapURI := ''init.mp4'', sm_src := ''a.m3u8'', sm_idx := 5\<rparr>)"
    using assms(2) by (simp add: lookup_def w_sources_def go_div_def Let_def)
  ultimately show thesis using out assms(2) that [of out] unfolding prepare_def by (simp add: w_sources_def zero_meta_def)
qed

lemma w_add:
  assumes "k = 1 \<or> k = 2" "w_ok cfg" "IsZero (st_lastStart s) \<or> st_lastStart s < ci_StartAt (w_clip k)"
  shows "add w_sources w_io cfg (w_clip k) s = (True, [], w_step cfg k s)"
proof -
  obtain rt where "prepare w_sources cfg ''a.m3u8'' 5 False (ci_StartAt (w_clip k)) = Inr rt" using w_prepare [OF assms(1,2)] by blast
  then have "resolve w_sources cfg (w_clip k) = (Some rt, [])" by (simp add: resolve_def w_clip_def)
  then have "fst (add w_sources w_io cfg (w_clip k) s) \<and> fst (snd (add w_sources w_io cfg (w_clip k) s)) = []"
    using assms(3) by (auto simp: add_def w_io_def writeFiles_def Let_def split: prod.splits)
  then show ?thesis unfolding w_step_def by (metis prod.collapse)
qed

lemma w_clip_ok: "0 < k \<Longrightarrow> clip_ok (w_clip k)" and w_sources_ok: "sources_ok w_sources"
  by (simp_all add: clip_ok_def w_clip_def zero_time_def SegmentSec_def sources_ok_def w_sources_def init_name_def plain_name_def HasPrefix_def)

lemma w_step_lastStart:
  assumes "k = 1 \<or> k = 2" "w_ok cfg" "IsZero (st_lastStart s) \<or> st_lastStart s < ci_StartAt (w_clip k)"
  shows "st_lastStart (w_step cfg k s) = ci_StartAt (w_clip k)"
  using w_add [OF assms] by (auto elim!: add_True)

lemma w_add_run:
  assumes "stitch_run cfg s0 s" "k = 1 \<or> k = 2" "w_ok cfg" "IsZero (st_lastStart s) \<or> st_lastStart s < ci_StartAt (w_clip k)"
  shows "stitch_run cfg s0 (w_step cfg k s)"
  using stitch_add [OF assms(1) w_clip_ok w_sources_ok w_add [OF assms(2-4)]] assms(2) by auto

abbreviation w_start :: "Config \<Rightarrow> stitcher" where "w_start cfg \<equiv> newStitcher cfg (\<lambda>n. None)"
abbreviation w_one :: "Config \<Rightarrow> stitcher" where "w_one cfg \<equiv> w_step cfg 1 (w_start cfg)"
abbreviation w_two :: "Config \<Rightarrow> stitcher" where "w_two cfg \<equiv> w_step cfg 2 (w_one cfg)"

lemma w_later:
  assumes "w_ok cfg"
  shows "IsZero (st_lastStart (w_start cfg))" "st_lastStart (w_one cfg) < ci_StartAt (w_clip 2)" "st_lastStart (w_two cfg) = ci_StartAt (w_clip 2)"
proof -
  show z: "IsZero (st_lastStart (w_start cfg))" by (simp add: newStitcher_def)
  show l: "st_lastStart (w_one cfg) < ci_StartAt (w_clip 2)" using w_step_lastStart [of 1 cfg "w_start cfg"] assms z by (simp add: w_clip_def)
  show "st_lastStart (w_two cfg) = ci_StartAt (w_clip 2)" using w_step_lastStart [of 2 cfg "w_one cfg"] assms l by simp
qed

lemma w_runs:
  assumes "w_ok cfg"
  shows "stitch_run cfg (w_start cfg) (w_one cfg)" "stitch_run cfg (w_one cfg) (w_two cfg)" "stitch_run cfg (w_start cfg) (w_two cfg)"
    "add w_sources w_io cfg (w_clip 2) (w_one cfg) = (True, [], w_two cfg)"
  using w_later [OF assms] assms w_add [of 2 cfg "w_one cfg"] by (auto intro!: w_add_run stitch_start)

lemma add_append: "add so io cfg c s = (True, fs, s') \<Longrightarrow> \<exists>m removed. append_segment m (st_win s) = (st_win s', removed)"
  by (elim add_True) (metis (no_types))

lemma w_items:
  assumes "w_ok cfg" "0 < cfg_PlaylistWindowMax cfg"
  shows "\<exists>a. wi_Items (st_win (w_one cfg)) = [a]"
    and "\<exists>b. wi_Items (st_win (w_two cfg)) = (if cfg_PlaylistWindowMax cfg = 1 then [b] else [hd (wi_Items (st_win (w_one cfg))), b])"
proof -
  have one: "add w_sources w_io cfg (w_clip 1) (w_start cfg) = (True, [], w_one cfg)" using w_add [of 1 cfg "w_start cfg"] w_later(1) assms(1) by simp
  show a: "\<exists>a. wi_Items (st_win (w_one cfg)) = [a]"
    using add_append [OF one] assms(2) by (auto simp: append_segment_def newStitcher_def dest!: sym [of _ "st_win _"] split: if_splits)
  have m: "wi_MaxSize (st_win (w_one cfg)) = cfg_PlaylistWindowMax cfg"
    using new_run_ok(1) [OF w_runs(1) [OF assms(1)] assms(2)] by (simp add: window_ok_def Let_def)
  obtain m removed where "append_segment m (st_win (w_one cfg)) = (st_win (w_two cfg), removed)"
    using add_append [OF w_runs(4) [OF assms(1)]] by blast
  then show "\<exists>b. wi_Items (st_win (w_two cfg)) = (if cfg_PlaylistWindowMax cfg = 1 then [b] else [hd (wi_Items (st_win (w_one cfg))), b])"
    using a m assms(2) by (auto simp: append_segment_def dest!: sym [of _ "st_win _"] split: if_splits)
qed

lemma w_cfgs [simp]: "cfg_SegmentSec w_cfg = 1" "cfg_SegmentSec default_config = 1" "0 \<le> cfg_DurationTolerance w_cfg" "0 \<le> cfg_DurationTolerance default_config" "cfg_PlaylistWindowMax w_cfg = 1" "cfg_PlaylistWindowMax default_config = 180"
    "cfg_RetainS w_cfg = 30" "cfg_RetainS default_config = 30"
  by (simp_all add: w_cfg_def default_config_def SegmentSec_def)

theorem playlist_invariant_witness: "window_ok w_cfg (w_two w_cfg) \<and> files_ok (w_two w_cfg)"
  by (rule playlist_invariant [OF w_runs(3)]) simp_all

theorem playlist_marks_witness:
  "\<exists>a b. wi_Items (st_win (w_two default_config)) = [a, b] \<and> (sm_Discontinuity b \<or> sm_src b = sm_src a)"
proof -
  obtain a b where ab: "wi_Items (st_win (w_two default_config)) = [a, b]" using w_items [of default_config] by auto
  then show ?thesis using playlist_marks [OF w_runs(3), of default_config 0] by (auto simp: Let_def)
qed

theorem playlist_files_stable_witness:
  "st_files (w_two default_config) (seg_name 1) = st_files (w_one default_config) (seg_name 1)"
proof -
  obtain a b where ab: "wi_Items (st_win (w_one default_config)) = [a]" "wi_Items (st_win (w_two default_config)) = [a, b]"
    using w_items [of default_config] by auto
  have "add w_sources w_io default_config (w_clip 1) (w_start default_config) = (True, [], w_one default_config)"
    using w_add [of 1 default_config "w_start default_config"] w_later(1) by simp
  then have "st_nextSeq (w_one default_config) = 2" by (auto elim!: add_True simp: newStitcher_def w_clip_def)
  then have "sm_Seq a = 1" "item_ok default_config a"
    using new_run_ok(1) [OF w_runs(1), of default_config] ab(1) by (simp_all add: window_ok_def Let_def)
  then have "seg_name 1 \<in> set (names_of a)" using item_ok_names [of default_config a] by auto
  then show ?thesis using playlist_files_stable [OF w_runs(1,2), of default_config a] ab by simp
qed

theorem retained_files_witness:
  "\<exists>a n. a \<in> set (wi_Items (st_win (w_one w_cfg))) \<and> a \<notin> set (wi_Items (st_win (w_two w_cfg))) \<and> n \<in> set (names_of a) \<and>
     st_files (w_two w_cfg) n = st_files (w_one w_cfg) n"
proof -
  obtain a b where ab: "wi_Items (st_win (w_one w_cfg)) = [a]" "wi_Items (st_win (w_two w_cfg)) = [b]" using w_items [of w_cfg] by auto
  have "sm_ProgramDateTime a = st_lastStart (w_one w_cfg)" "sm_ProgramDateTime b = st_lastStart (w_two w_cfg)"
    using new_run_ok(1) [OF w_runs(1), of w_cfg] new_run_ok(1) [OF w_runs(3), of w_cfg] ab by (simp_all add: window_ok_def Let_def)
  then have ne: "a \<noteq> b" using w_later(2,3) [of w_cfg] by auto
  have n: "hd (names_of a) \<in> set (names_of a)" by (simp add: names_of_def)
  have "st_files (w_two w_cfg) (hd (names_of a)) = st_files (w_one w_cfg) (hd (names_of a)) \<and> st_files (w_one w_cfg) (hd (names_of a)) \<noteq> None"
    by (rule retained_files [OF w_runs(1) _ w_clip_ok w_sources_ok w_runs(4) stitch_start]) (use ab ne n in simp_all)
  then show ?thesis using ab ne n by auto
qed

theorem append_keeps_numbers_witness:
  "\<exists>w' removed. append_segment (zero_meta\<lparr>sm_Seq := 8\<rparr>) \<lparr>wi_Items = [zero_meta\<lparr>sm_Seq := 7, sm_Discontinuity := True\<rparr>], wi_MaxSize = 1, wi_DiscSeq = 3\<rparr> = (w', removed)
     \<and> sm_Seq (hd (wi_Items w')) = 8 \<and> wi_DiscSeq w' = 4"
proof -
  let ?w = "\<lparr>wi_Items = [zero_meta\<lparr>sm_Seq := 7, sm_Discontinuity := True\<rparr>], wi_MaxSize = 1, wi_DiscSeq = 3\<rparr>" and ?m = "zero_meta\<lparr>sm_Seq := 8\<rparr>"
  obtain w' removed where a: "append_segment ?m ?w = (w', removed)" by (cases "append_segment ?m ?w")
  then have "length removed = 1" "wi_Items w' = [?m]" by (auto simp: append_segment_def)
  then show ?thesis using a append_keeps_numbers [OF a, of 7 0] by (auto simp: zero_meta_def)
qed

end
