(* ===== verification/Media.thy ===== *)
theory Media
  imports LivePlaylist
begin

text \<open>
  The media playlist of \<^verbatim>\<open>services/engine/stitch.go\<close>: \<^verbatim>\<open>renderMediaPlaylist\<close> writes the window, \<^verbatim>\<open>restoreWindow\<close> reads it back
  after a restart. What a restart gives back is the window with the fields that are not written reset, and a player that
  parses the text (\<^verbatim>\<open>pkg/hls\<close>) sees exactly the entries of the window.
\<close>

subsection \<open>Writing\<close>

fun render_items :: "bool \<Rightarrow> string \<Rightarrow> SegmentMeta list \<Rightarrow> string list" where
  "render_items first curMap [] = []"
| "render_items first curMap (it # rest) =
     (let newMap = (sm_MapURI it \<noteq> '''' \<and> (sm_MapURI it \<noteq> curMap \<or> sm_Discontinuity it \<or> first)) in
      (if sm_Discontinuity it then [''#EXT-X-DISCONTINUITY''] else []) @
      (if newMap then [''#EXT-X-MAP:URI='' @ quote @ sm_MapURI it @ quote] else []) @
      sm_Tags it @
      [''#EXT-X-PROGRAM-DATE-TIME:'' @ format_millis (sm_ProgramDateTime it),
       ''#EXTINF:'' @ fmt3 (sm_Duration it) @ '','',
       sm_URI it] @
      render_items False (if newMap then sm_MapURI it else curMap) rest)"

declare render_items.simps(2) [simp del]

definition target_duration :: "Config \<Rightarrow> Window \<Rightarrow> int" where
  "target_duration cfg w = (let td = \<lceil>maxDuration w\<rceil> in if td < cfg_TargetDurationFloor cfg then cfg_TargetDurationFloor cfg else td)"

text \<open>Every \<^verbatim>\<open>Fprintln\<close> (and \<^verbatim>\<open>Fprintf\<close> with a line feed) is one line.\<close>

definition render_lines :: "Config \<Rightarrow> Window \<Rightarrow> string list" where
  "render_lines cfg w =
     [''#EXTM3U'', ''#EXT-X-VERSION:7'', ''#EXT-X-TARGETDURATION:'' @ itoa (target_duration cfg w),
      ''#EXT-X-MEDIA-SEQUENCE:'' @ itoa (sm_Seq (hd (wi_Items w))), ''#EXT-X-DISCONTINUITY-SEQUENCE:'' @ itoa (wi_DiscSeq w)] @
     render_items True '''' (wi_Items w)"

definition renderMediaPlaylist :: "Config \<Rightarrow> Window \<Rightarrow> string" where
  "renderMediaPlaylist cfg w = concat (map (\<lambda>l. l @ [NL]) (render_lines cfg w))"

subsection \<open>Reading back\<close>

record restorer =
  re_seqBase :: int
  re_curMap :: string
  re_dur :: rat
  re_pdt :: gtime
  re_disc :: bool
  re_idx :: int
  re_tags :: "string list"
  re_st :: stitcher

definition restore_segment :: "string \<Rightarrow> restorer \<Rightarrow> restorer" where
  "restore_segment line r =
     (if IsZero (re_pdt r) \<or> re_dur r \<le> 0 then r
      else
        let s = re_st r; w = st_win s;
            it = zero_meta\<lparr>sm_Seq := re_seqBase r + re_idx r, sm_Duration := re_dur r, sm_ProgramDateTime := re_pdt r,
                   sm_Discontinuity := re_disc r, sm_URI := line, sm_MapURI := re_curMap r, sm_Tags := re_tags r\<rparr>
        in r\<lparr>re_tags := [], re_idx := re_idx r + 1, re_disc := False, re_pdt := zero_time, re_dur := 0,
             re_st := s\<lparr>st_win := w\<lparr>wi_Items := wi_Items w @ [it]\<rparr>, st_lastStart := re_pdt r,
               st_prevEnd := re_pdt r + \<lfloor>re_dur r * of_int second\<rfloor>, st_nextSeq := re_seqBase r + (re_idx r + 1)\<rparr>\<rparr>)"

definition restore_line :: "string \<Rightarrow> restorer \<Rightarrow> restorer" where
  "restore_line line r =
     (if HasPrefix line ''#EXT-X-MEDIA-SEQUENCE:'' then r\<lparr>re_seqBase := fst (ParseInt64 (TrimPrefix line ''#EXT-X-MEDIA-SEQUENCE:''))\<rparr>
      else if HasPrefix line ''#EXT-X-DISCONTINUITY-SEQUENCE:'' then
        r\<lparr>re_st := (re_st r)\<lparr>st_win := (st_win (re_st r))\<lparr>wi_DiscSeq := fst (ParseInt64 (TrimPrefix line ''#EXT-X-DISCONTINUITY-SEQUENCE:''))\<rparr>\<rparr>\<rparr>
      else if HasPrefix line ''#EXT-X-MAP:'' then r\<lparr>re_curMap := Attr line ''URI''\<rparr>
      else if HasPrefix line ''#EXT-X-DATERANGE:'' \<or> HasPrefix line ''#EXT-X-CUE-'' then r\<lparr>re_tags := re_tags r @ [line]\<rparr>
      else if HasPrefix line ''#EXT-X-DISCONTINUITY'' then r\<lparr>re_disc := True\<rparr>
      else if HasPrefix line ''#EXT-X-PROGRAM-DATE-TIME:'' then
        r\<lparr>re_pdt := (case parse_time (TrimPrefix line ''#EXT-X-PROGRAM-DATE-TIME:'') of None \<Rightarrow> zero_time | Some t \<Rightarrow> t)\<rparr>
      else if HasPrefix line ''#EXTINF:'' then
        r\<lparr>re_dur := (case ParseFloat (takeWhile (\<lambda>c. c \<noteq> CHR '','') (TrimPrefix line ''#EXTINF:'')) of None \<Rightarrow> 0 | Some d \<Rightarrow> d)\<rparr>
      else if line \<noteq> '''' \<and> \<not> HasPrefix line ''#'' then restore_segment line r
      else r)"

definition restore_raw :: "string \<Rightarrow> restorer \<Rightarrow> restorer" where
  "restore_raw l = restore_line (TrimSpace l)"

text \<open>The text of the playlist, or that it cannot be opened; the result says whether there was no error.\<close>

definition restoreWindow :: "string option \<Rightarrow> stitcher \<Rightarrow> bool \<times> stitcher" where
  "restoreWindow file s =
     (case file of
        None \<Rightarrow> (False, s)
      | Some text \<Rightarrow>
          (case scan_lines text of (ls, ok) \<Rightarrow>
             (ok, re_st (fold restore_raw ls
                \<lparr>re_seqBase = 0, re_curMap = '''', re_dur = 0, re_pdt = zero_time, re_disc = False, re_idx = 0, re_tags = [], re_st = s\<rparr>))))"

subsection \<open>What can be written and read back\<close>

definition plain_line :: "string \<Rightarrow> bool" where
  "plain_line l \<longleftrightarrow> l \<noteq> '''' \<and> NL \<notin> set l \<and> length l < max_line - 100 \<and> \<not> is_space (hd l) \<and> \<not> is_space (last l)"

definition tag_ok :: "string \<Rightarrow> bool" where
  "tag_ok t \<longleftrightarrow> plain_line t \<and> (HasPrefix t ''#EXT-X-DATERANGE:'' \<or> HasPrefix t ''#EXT-X-CUE-'')"

text \<open>The duration that \<^verbatim>\<open>%.3f\<close> leaves.\<close>

definition printed :: "rat \<Rightarrow> rat" where
  "printed x = of_int (round_even (x * 1000)) / 1000"

text \<open>Times in whole milliseconds, durations of at least half a thousandth, names that fit on a line.\<close>

definition text_ok :: "SegmentMeta \<Rightarrow> bool" where
  "text_ok it \<longleftrightarrow>
     time_ok (sm_ProgramDateTime it) \<and> 0 \<le> sm_Duration it \<and> 0 < printed (sm_Duration it) \<and> printed (sm_Duration it) < 10 ^ 9 \<and> list_all tag_ok (sm_Tags it) \<and>
     plain_line (sm_URI it) \<and> hd (sm_URI it) \<noteq> CHR ''#'' \<and>
     plain_line (sm_MapURI it) \<and> CHR 0x22 \<notin> set (sm_MapURI it)"

text \<open>An entry after a restart: what the playlist does not hold is gone.\<close>

definition written :: "SegmentMeta \<Rightarrow> SegmentMeta" where
  "written it = zero_meta\<lparr>sm_Seq := sm_Seq it, sm_Duration := printed (sm_Duration it), sm_ProgramDateTime := sm_ProgramDateTime it,
     sm_Discontinuity := sm_Discontinuity it, sm_URI := sm_URI it, sm_MapURI := sm_MapURI it, sm_Tags := sm_Tags it\<rparr>"

lemma text_ok_dur:
  assumes "text_ok it"
  obtains k where "0 < k" "k < 10 ^ 12" "fmt3 (sm_Duration it) = fmt3 (of_int k / 1000)" "printed (sm_Duration it) = of_int k / 1000"
proof (rule that [of "round_even (sm_Duration it * 1000)"])
  show k: "0 < round_even (sm_Duration it * 1000)" using assms by (simp add: text_ok_def printed_def)
  have "of_int (round_even (sm_Duration it * 1000)) < (10 ^ 12 :: rat)" using assms by (simp add: text_ok_def printed_def)
  then show "round_even (sm_Duration it * 1000) < 10 ^ 12" by (metis of_int_less_iff of_int_numeral of_int_power)
  show "fmt3 (sm_Duration it) = fmt3 (of_int (round_even (sm_Duration it * 1000)) / 1000)"
    using k assms by (simp add: fmt3_def Let_def text_ok_def)
qed (simp add: printed_def)

lemma HasPrefix_hash: "s \<noteq> [] \<Longrightarrow> hd s \<noteq> CHR ''#'' \<Longrightarrow> \<not> HasPrefix s (CHR ''#'' # p)"
  by (cases s) (auto simp: HasPrefix_def)

lemma TrimSpace_plain: "plain_line l \<Longrightarrow> TrimSpace l = l"
  by (simp add: plain_line_def TrimSpace_id)

lemma TrimSpace_tag: "\<not> is_space (last (p @ v)) \<Longrightarrow> TrimSpace (CHR ''#'' # p @ v) = CHR ''#'' # p @ v"
  by (rule TrimSpace_id) (auto simp: is_space_def split: if_splits)

lemma restore_tags:
  "list_all tag_ok ts \<Longrightarrow> fold restore_raw ts r = r\<lparr>re_tags := re_tags r @ ts\<rparr>"
proof (induction ts arbitrary: r)
  case (Cons t ts)
  then have t: "plain_line t" "HasPrefix t ''#EXT-X-DATERANGE:'' \<or> HasPrefix t ''#EXT-X-CUE-''" by (simp_all add: tag_ok_def)
  then have "restore_line t r = r\<lparr>re_tags := re_tags r @ [t]\<rparr>" by (auto simp: restore_line_def HasPrefix_iff)
  then show ?case using Cons t(1) by (simp add: restore_raw_def TrimSpace_plain)
qed simp

lemma Attr_map: "CHR 0x22 \<notin> set u \<Longrightarrow> Attr (''#EXT-X-MAP:URI='' @ quote @ u @ quote) ''URI'' = u"
  by (simp add: Attr_def quote_def HasPrefix_def takeWhile_append)

lemma restore_map:
  "CHR 0x22 \<notin> set u \<Longrightarrow> restore_raw (''#EXT-X-MAP:URI='' @ quote @ u @ quote) r = r\<lparr>re_curMap := u\<rparr>"
  using Attr_map [of u] TrimSpace_tag [of "''EXT-X-MAP:URI='' @ quote @ u" quote]
  by (simp add: restore_raw_def restore_line_def HasPrefix_def quote_def is_space_def)

lemma restore_disc: "restore_raw (''#EXT-X-DISCONTINUITY'') r = r\<lparr>re_disc := True\<rparr>"
  using TrimSpace_tag [of "''EXT-X-DISCONTINUITY''" "''''"] by (simp add: restore_raw_def restore_line_def HasPrefix_def is_space_def)

lemma restore_pdt:
  assumes "time_ok t"
  shows "restore_raw (''#EXT-X-PROGRAM-DATE-TIME:'' @ format_millis t) r = r\<lparr>re_pdt := t\<rparr>"
proof -
  have "last (format_millis t) = CHR ''Z''" by (simp add: format_millis_def)
  moreover have "format_millis t \<noteq> []" by (simp add: format_millis_def)
  ultimately have "TrimSpace (''#EXT-X-PROGRAM-DATE-TIME:'' @ format_millis t) = ''#EXT-X-PROGRAM-DATE-TIME:'' @ format_millis t"
    using TrimSpace_tag [of "''EXT-X-PROGRAM-DATE-TIME:''" "format_millis t"] by (simp add: is_space_def)
  then show ?thesis using parse_format_millis(1) [OF assms] by (simp add: restore_raw_def restore_line_def HasPrefix_def TrimPrefix_def)
qed

lemma fmt3_comma: "CHR '','' \<notin> set (fmt3 x)"
  using itoa_chars [of "CHR '',''"] by (auto simp: fmt3_def pad_def Let_def is_digit_def)

lemma takeWhile_comma: "takeWhile (\<lambda>c. c \<noteq> CHR '','') (fmt3 x @ '','') = fmt3 x"
  using fmt3_comma [of x] by (subst takeWhile_append2) auto

lemma restore_extinf:
  "0 \<le> k \<Longrightarrow> restore_raw (''#EXTINF:'' @ fmt3 (of_int k / 1000) @ '','') r = r\<lparr>re_dur := of_int k / 1000\<rparr>"
  using TrimSpace_tag [of "''EXTINF:'' @ fmt3 (of_int k / 1000)" "'',''"] ParseFloat_fmt3 [of k] takeWhile_comma [of "of_int k / 1000"]
  by (simp add: restore_raw_def restore_line_def HasPrefix_def TrimPrefix_def is_space_def)

lemma restore_uri:
  assumes "plain_line u" "hd u \<noteq> CHR ''#''"
  shows "restore_raw u r = restore_segment u r"
  using assms HasPrefix_hash [of u] unfolding restore_raw_def TrimSpace_plain [OF assms(1)] by (simp add: restore_raw_def restore_line_def plain_line_def)

definition after_item :: "SegmentMeta \<Rightarrow> restorer \<Rightarrow> restorer" where
  "after_item it r = restore_segment (sm_URI it)
     (r\<lparr>re_disc := sm_Discontinuity it, re_curMap := sm_MapURI it, re_tags := sm_Tags it, re_pdt := sm_ProgramDateTime it, re_dur := printed (sm_Duration it)\<rparr>)"

lemma text_ok_time: "text_ok it \<Longrightarrow> \<not> IsZero (sm_ProgramDateTime it) \<and> 0 < printed (sm_Duration it)"
  by (auto simp: text_ok_def time_ok_def zero_time_def)

lemma after_item_fields:
  assumes "text_ok it"
  shows "re_disc (after_item it r) = False" "re_tags (after_item it r) = []" "re_curMap (after_item it r) = sm_MapURI it"
    "re_seqBase (after_item it r) = re_seqBase r" "re_idx (after_item it r) = re_idx r + 1"
  using text_ok_time [OF assms] by (simp_all add: after_item_def restore_segment_def Let_def)

lemma restore_item:
  assumes "text_ok it" "re_disc r = False" "re_tags r = []" "first \<or> re_curMap r = curMap"
  shows "fold restore_raw (render_items first curMap (it # rest)) r =
    fold restore_raw (render_items False (sm_MapURI it) rest) (after_item it r)"
proof -
  obtain k where k: "0 < k" "k < 10 ^ 12" "fmt3 (sm_Duration it) = fmt3 (of_int k / 1000)" "printed (sm_Duration it) = of_int k / 1000" using assms(1) by (rule text_ok_dur)
  have t: "time_ok (sm_ProgramDateTime it)" "list_all tag_ok (sm_Tags it)" "plain_line (sm_URI it)" "hd (sm_URI it) \<noteq> CHR ''#''"
    "sm_MapURI it \<noteq> ''''" "CHR 0x22 \<notin> set (sm_MapURI it)" using assms(1) by (auto simp: text_ok_def plain_line_def)
  let ?new = "sm_MapURI it \<noteq> curMap \<or> sm_Discontinuity it \<or> first"
  have cur: "(if ?new then sm_MapURI it else curMap) = sm_MapURI it" by auto
  define A where "A = (if sm_Discontinuity it then [''#EXT-X-DISCONTINUITY''] else []) @
      (if ?new then [''#EXT-X-MAP:URI='' @ quote @ sm_MapURI it @ quote] else [])"
  define B where "B = [''#EXT-X-PROGRAM-DATE-TIME:'' @ format_millis (sm_ProgramDateTime it), ''#EXTINF:'' @ fmt3 (sm_Duration it) @ '','', sm_URI it]"
  define r1 where "r1 = r\<lparr>re_disc := sm_Discontinuity it, re_curMap := sm_MapURI it\<rparr>"
  have split: "render_items first curMap (it # rest) = A @ sm_Tags it @ B @ render_items False (sm_MapURI it) rest"
    using t(5) by (simp only: render_items.simps Let_def A_def B_def cur append_assoc simp_thms)
  have "fold restore_raw A r = r1"
    using assms(2,4) unfolding A_def by (cases r) (auto simp: restore_disc restore_map [OF t(6), simplified] r1_def)
  moreover have "fold restore_raw B (r1\<lparr>re_tags := re_tags r1 @ sm_Tags it\<rparr>) = after_item it r"
    unfolding B_def k(3) fold_simps comp_apply restore_pdt [OF t(1)] restore_uri [OF t(3,4)] restore_extinf [OF order.strict_implies_order [OF k(1)]]
    using assms(3) by (simp add: after_item_def r1_def k(4))
  ultimately show ?thesis unfolding split fold_append comp_apply by (simp only: restore_tags [OF t(2)])
qed

lemma restore_items:
  assumes "list_all text_ok items" "re_disc r = False" "re_tags r = []" "first \<or> re_curMap r = curMap"
  shows "fold restore_raw (render_items first curMap items) r = fold after_item items r"
  using assms
proof (induction items arbitrary: first curMap r)
  case (Cons it rest)
  then have "text_ok it" by simp
  note a = after_item_fields [OF this]
  have "fold restore_raw (render_items first curMap (it # rest)) r =
      fold restore_raw (render_items False (sm_MapURI it) rest) (after_item it r)"
    by (rule restore_item [OF \<open>text_ok it\<close> Cons.prems(2-4)])
  also have "\<dots> = fold after_item rest (after_item it r)" by (rule Cons.IH) (use Cons.prems(1) a in simp_all)
  finally show ?case by simp
qed simp

lemma after_items:
  assumes "list_all text_ok items" "seqs_from (re_seqBase r + re_idx r) items" "items \<noteq> []"
  shows "re_st (fold after_item items r) = (let s = re_st r; l = last items in
    s\<lparr>st_win := (st_win s)\<lparr>wi_Items := wi_Items (st_win s) @ map written items\<rparr>, st_lastStart := sm_ProgramDateTime l,
      st_prevEnd := sm_ProgramDateTime l + \<lfloor>printed (sm_Duration l) * of_int second\<rfloor>, st_nextSeq := sm_Seq l + 1\<rparr>)"
  using assms
proof (induction items arbitrary: r)
  case (Cons it rest)
  then have ok: "text_ok it" and sq: "sm_Seq it = re_seqBase r + re_idx r" by simp_all
  note a = after_item_fields [OF ok, of r]
  have st: "re_st (after_item it r) = (let s = re_st r in s\<lparr>st_win := (st_win s)\<lparr>wi_Items := wi_Items (st_win s) @ [written it]\<rparr>,
      st_lastStart := sm_ProgramDateTime it, st_prevEnd := sm_ProgramDateTime it + \<lfloor>printed (sm_Duration it) * of_int second\<rfloor>, st_nextSeq := sm_Seq it + 1\<rparr>)"
    using text_ok_time [OF ok] sq by (simp add: after_item_def restore_segment_def Let_def written_def)
  show ?case
  proof (cases "rest = []")
    case True
    then show ?thesis using st by (simp add: Let_def)
  next
    case False
    have "seqs_from (re_seqBase (after_item it r) + re_idx (after_item it r)) rest" using Cons.prems(2) a by (simp add: algebra_simps)
    then show ?thesis using Cons.IH [of "after_item it r"] Cons.prems(1) False st by (simp add: Let_def)
  qed
qed simp

subsection \<open>Every line can be scanned\<close>

definition line_ok :: "string \<Rightarrow> bool" where
  "line_ok l \<longleftrightarrow> NL \<notin> set l \<and> length l < max_line"

lemma line_ok_tag: "plain_line v \<Longrightarrow> length p + length q \<le> 100 \<Longrightarrow> NL \<notin> set p \<Longrightarrow> NL \<notin> set q \<Longrightarrow> line_ok (p @ v @ q)"
  by (auto simp: line_ok_def plain_line_def)

lemma not_NL_digit: "is_digit c \<Longrightarrow> c \<noteq> NL"
  by (auto simp: is_digit_def)

lemma itoa_line:
  assumes "- (10 ^ 30) < i" "i < 10 ^ 30"
  shows "NL \<notin> set (itoa i)" "length (itoa i) \<le> 31"
proof -
  show "NL \<notin> set (itoa i)" using itoa_chars [of NL i] not_NL_digit by auto
  have "nat \<bar>i\<bar> < 10 ^ 30" using assms by (simp add: nat_less_iff)
  then show "length (itoa i) \<le> 31" using nat_dec_length [of "nat \<bar>i\<bar>" 30] by (auto simp: itoa_def)
qed

lemma fmt3_line:
  assumes "0 < k" "k < 10 ^ 12"
  shows "NL \<notin> set (fmt3 (of_int k / 1000))" "length (fmt3 (of_int k / 1000)) \<le> 40"
proof -
  have f: "fmt3 (of_int k / 1000) = itoa (k div 1000) @ CHR ''.'' # pad 3 (k mod 1000)" using assms by (simp add: fmt3_def Let_def)
  note p = pad_spec [of "k mod 1000" 3]
  have r: "- (10 ^ 30) < k div 1000" "k div 1000 < 10 ^ 30" using assms by (simp_all add: order_less_le_trans [OF _ pos_imp_zdiv_nonneg_iff [THEN iffD2]])
  show "NL \<notin> set (fmt3 (of_int k / 1000))" unfolding f using itoa_line(1) [OF r] p(2) not_NL_digit by (auto simp: list_all_iff)
  show "length (fmt3 (of_int k / 1000)) \<le> 40" unfolding f using itoa_line(2) [OF r] p(1) by simp
qed

lemma line_ok_time: "time_ok t \<Longrightarrow> line_ok (''#EXT-X-PROGRAM-DATE-TIME:'' @ format_millis t)"
  using parse_format_millis(2,3) [of t] not_NL_digit by (auto simp: line_ok_def max_line_def)

lemma render_items_ok: "list_all text_ok items \<Longrightarrow> list_all line_ok (render_items first curMap items)"
proof (induction items arbitrary: first curMap)
  case (Cons it rest)
  then have it: "text_ok it" by simp
  obtain k where k: "0 < k" "k < 10 ^ 12" "fmt3 (sm_Duration it) = fmt3 (of_int k / 1000)" using it by (rule text_ok_dur)
  have "line_ok (''#EXTINF:'' @ fmt3 (sm_Duration it) @ '','')" using fmt3_line [OF k(1,2)] unfolding k(3) by (simp add: line_ok_def max_line_def)
  moreover have "line_ok (''#EXT-X-MAP:URI='' @ quote @ sm_MapURI it @ quote)"
    using line_ok_tag [of "sm_MapURI it" "''#EXT-X-MAP:URI='' @ quote" quote] it by (simp add: quote_def text_ok_def)
  moreover have "line_ok (sm_URI it)" "list_all line_ok (sm_Tags it)" "line_ok ''#EXT-X-DISCONTINUITY''"
    using it line_ok_tag [of _ "[]" "[]"] by (auto simp: text_ok_def tag_ok_def list_all_iff line_ok_def max_line_def)
  moreover have "line_ok (''#EXT-X-PROGRAM-DATE-TIME:'' @ format_millis (sm_ProgramDateTime it))" using line_ok_time it by (simp add: text_ok_def)
  moreover have "list_all line_ok (render_items False m rest)" for m using Cons by simp
  ultimately show ?case unfolding render_items.simps Let_def list_all_append by (simp only: list.pred_inject if_splits simp_thms split: if_split)
qed simp

definition window_text_ok :: "Config \<Rightarrow> Window \<Rightarrow> bool" where
  "window_text_ok cfg w \<longleftrightarrow>
     wi_Items w \<noteq> [] \<and> list_all text_ok (wi_Items w) \<and> seqs_from (sm_Seq (hd (wi_Items w))) (wi_Items w) \<and>
     - (2 ^ 63) \<le> sm_Seq (hd (wi_Items w)) \<and> sm_Seq (hd (wi_Items w)) < 2 ^ 63 \<and> - (2 ^ 63) \<le> wi_DiscSeq w \<and> wi_DiscSeq w < 2 ^ 63 \<and>
     - (2 ^ 63) \<le> target_duration cfg w \<and> target_duration cfg w < 2 ^ 63"

lemma int64_line: "- (2 ^ 63) \<le> i \<Longrightarrow> i < 2 ^ 63 \<Longrightarrow> NL \<notin> set (itoa i) \<and> length (itoa i) \<le> 31"
  using itoa_line [of i] by simp

lemma scan_render:
  assumes "window_text_ok cfg w"
  shows "scan_lines (renderMediaPlaylist cfg w) = (render_lines cfg w, True)"
proof -
  have "list_all line_ok (render_items True '''' (wi_Items w))" using assms by (intro render_items_ok) (simp add: window_text_ok_def)
  moreover have "line_ok ''#EXTM3U''" "line_ok ''#EXT-X-VERSION:7''" by (simp_all add: line_ok_def max_line_def)
  moreover have "line_ok (''#EXT-X-TARGETDURATION:'' @ itoa (target_duration cfg w))" "line_ok (''#EXT-X-MEDIA-SEQUENCE:'' @ itoa (sm_Seq (hd (wi_Items w))))"
      "line_ok (''#EXT-X-DISCONTINUITY-SEQUENCE:'' @ itoa (wi_DiscSeq w))"
    using assms int64_line [of "target_duration cfg w"] int64_line [of "sm_Seq (hd (wi_Items w))"] int64_line [of "wi_DiscSeq w"]
    by (simp_all add: window_text_ok_def line_ok_def max_line_def)
  ultimately have "list_all line_ok (render_lines cfg w)" unfolding render_lines_def by (simp only: list.pred_inject list_all_append simp_thms)
  then show ?thesis unfolding renderMediaPlaylist_def by (intro scan_lines_of) (auto simp: list_all_iff line_ok_def)
qed

lemma TrimSpace_int_tag: "TrimSpace (CHR ''#'' # p @ itoa i) = CHR ''#'' # p @ itoa i"
proof (rule TrimSpace_tag)
  have "itoa i \<noteq> []" by (simp add: itoa_def)
  then have "last (p @ itoa i) \<in> set (itoa i)" by simp
  then show "\<not> is_space (last (p @ itoa i))" using itoa_chars [of "last (p @ itoa i)" i] by (auto simp: is_digit_def is_space_def)
qed

lemma restore_header:
  assumes "- (2 ^ 63) \<le> n" "n < 2 ^ 63" "- (2 ^ 63) \<le> d" "d < 2 ^ 63"
  shows "restore_raw ''#EXTM3U'' r = r" "restore_raw ''#EXT-X-VERSION:7'' r = r" "restore_raw (''#EXT-X-TARGETDURATION:'' @ itoa t) r = r"
    "restore_raw (''#EXT-X-MEDIA-SEQUENCE:'' @ itoa n) r = r\<lparr>re_seqBase := n\<rparr>"
    "restore_raw (''#EXT-X-DISCONTINUITY-SEQUENCE:'' @ itoa d) r = r\<lparr>re_st := (re_st r)\<lparr>st_win := (st_win (re_st r))\<lparr>wi_DiscSeq := d\<rparr>\<rparr>\<rparr>"
  using TrimSpace_tag [of "''EXTM3U''" "[]"] TrimSpace_tag [of "''EXT-X-VERSION:7''" "[]"] TrimSpace_int_tag [of "''EXT-X-TARGETDURATION:''" t]
    TrimSpace_int_tag [of "''EXT-X-MEDIA-SEQUENCE:''" n] TrimSpace_int_tag [of "''EXT-X-DISCONTINUITY-SEQUENCE:''" d]
    ParseInt64_itoa [OF assms(1,2)] ParseInt64_itoa [OF assms(3,4)]
  by (simp_all add: restore_raw_def restore_line_def HasPrefix_def TrimPrefix_def is_space_def)

lemma restore_render_eq:
  assumes "window_text_ok cfg w" "wi_Items (st_win s) = []"
  shows "restoreWindow (Some (renderMediaPlaylist cfg w)) s =
    (True, let l = last (wi_Items w) in
       s\<lparr>st_win := (st_win s)\<lparr>wi_Items := map written (wi_Items w), wi_DiscSeq := wi_DiscSeq w\<rparr>, st_lastStart := sm_ProgramDateTime l,
         st_prevEnd := sm_ProgramDateTime l + \<lfloor>printed (sm_Duration l) * of_int second\<rfloor>, st_nextSeq := sm_Seq l + 1\<rparr>)"
proof -
  let ?items = "wi_Items w" and ?n = "sm_Seq (hd (wi_Items w))"
  let ?r0 = "\<lparr>re_seqBase = 0, re_curMap = '''', re_dur = 0, re_pdt = zero_time, re_disc = False, re_idx = 0, re_tags = [], re_st = s\<rparr>"
  let ?r1 = "?r0\<lparr>re_seqBase := ?n, re_st := s\<lparr>st_win := (st_win s)\<lparr>wi_DiscSeq := wi_DiscSeq w\<rparr>\<rparr>\<rparr>"
  note w = assms(1) [unfolded window_text_ok_def]
  have "- (2 ^ 63) \<le> ?n" "?n < 2 ^ 63" "- (2 ^ 63) \<le> wi_DiscSeq w" "wi_DiscSeq w < 2 ^ 63" using w by blast+
  note hdr = restore_header [OF this]
  have "fold restore_raw (render_lines cfg w) ?r0 = fold restore_raw (render_items True '''' ?items) ?r1"
    unfolding render_lines_def fold_append fold_simps comp_apply hdr by simp
  also have "\<dots> = fold after_item ?items ?r1" using w by (intro restore_items) simp_all
  finally have f: "fold restore_raw (render_lines cfg w) ?r0 = fold after_item ?items ?r1" .
  have "re_st (fold after_item ?items ?r1) = (let s = re_st ?r1; l = last ?items in
    s\<lparr>st_win := (st_win s)\<lparr>wi_Items := wi_Items (st_win s) @ map written ?items\<rparr>, st_lastStart := sm_ProgramDateTime l,
      st_prevEnd := sm_ProgramDateTime l + \<lfloor>printed (sm_Duration l) * of_int second\<rfloor>, st_nextSeq := sm_Seq l + 1\<rparr>)"
    by (rule after_items) (use w in simp_all)
  then show ?thesis unfolding restoreWindow_def option.case scan_render [OF assms(1)] prod.case f using assms(2) by (simp add: Let_def)
qed

subsection \<open>What a player reads\<close>

definition segment_of :: "(string \<Rightarrow> string) \<Rightarrow> SegmentMeta \<Rightarrow> Segment" where
  "segment_of f it = \<lparr>sg_URI = f (sm_URI it), sg_Duration = printed (sm_Duration it), sg_Discontinuity = sm_Discontinuity it,
     sg_ProgramDateTime = sm_ProgramDateTime it, sg_MapURI = f (sm_MapURI it)\<rparr>"

abbreviation resolves :: "(string \<Rightarrow> string) \<Rightarrow> string \<Rightarrow> string option" where "resolves f \<equiv> (\<lambda>u. Some (f u))"

definition parse_raw :: "(string \<Rightarrow> string option) \<Rightarrow> string \<Rightarrow> parser \<Rightarrow> hls_error + parser" where
  "parse_raw res l p = parse_line res (TrimSpace l) p"

lemma parse_lines_Cons: "parse_lines res (l # ls) p = bindE (parse_raw res l p) (parse_lines res ls)"
  by (simp add: parse_raw_def)

lemma parse_raw_tags: "list_all tag_ok ts \<Longrightarrow> \<not> pa_first p \<Longrightarrow> parse_lines res ts p = Inr p"
proof (induction ts)
  case (Cons t ts)
  then have t: "plain_line t" "HasPrefix t ''#EXT-X-DATERANGE:'' \<or> HasPrefix t ''#EXT-X-CUE-''" by (simp_all add: tag_ok_def)
  obtain v where "t = ''#EXT-X-DATERANGE:'' @ v \<or> t = ''#EXT-X-CUE-'' @ v" using t(2) by (auto simp only: HasPrefix_iff)
  then have "parse_line res t p = Inr p" using Cons.prems(2) by (elim disjE) (simp_all add: parse_line_def parse_tag_def HasPrefix_def)
  then show ?case using Cons t(1) by (simp add: TrimSpace_plain)
qed simp

lemma parse_raw_map:
  assumes "CHR 0x22 \<notin> set u" "u \<noteq> ''''" "\<not> pa_first p"
  shows "parse_raw (resolves f) (''#EXT-X-MAP:URI='' @ quote @ u @ quote) p = Inr (p\<lparr>pa_pl := (pa_pl p)\<lparr>pl_MapURI := f u\<rparr>, pa_map := f u\<rparr>)"
  using Attr_map [OF assms(1)] TrimSpace_tag [of "''EXT-X-MAP:URI='' @ quote @ u" quote] assms
  by (simp add: parse_raw_def parse_line_def parse_tag_def HasPrefix_def quote_def is_space_def)

lemma parse_raw_disc: "\<not> pa_first p \<Longrightarrow> parse_raw res ''#EXT-X-DISCONTINUITY'' p = Inr (p\<lparr>pa_disc := True\<rparr>)"
  using TrimSpace_tag [of "''EXT-X-DISCONTINUITY''" "''''"] by (simp add: parse_raw_def parse_line_def parse_tag_def HasPrefix_def is_space_def)

lemma parse_raw_pdt:
  assumes "time_ok t" "\<not> pa_first p"
  shows "parse_raw res (''#EXT-X-PROGRAM-DATE-TIME:'' @ format_millis t) p = Inr (p\<lparr>pa_pdt := t\<rparr>)"
proof -
  have "last (format_millis t) = CHR ''Z''" "format_millis t \<noteq> []" by (simp_all add: format_millis_def)
  then have "TrimSpace (''#EXT-X-PROGRAM-DATE-TIME:'' @ format_millis t) = ''#EXT-X-PROGRAM-DATE-TIME:'' @ format_millis t"
    using TrimSpace_tag [of "''EXT-X-PROGRAM-DATE-TIME:''" "format_millis t"] by (simp add: is_space_def)
  then show ?thesis using parse_format_millis(1) [OF assms(1)] assms(2)
    by (simp add: parse_raw_def parse_line_def parse_tag_def HasPrefix_def TrimPrefix_def)
qed

lemma TrimSpace_fmt3: "0 \<le> k \<Longrightarrow> TrimSpace (fmt3 (of_int k / 1000)) = fmt3 (of_int k / 1000)"
proof -
  assume k: "0 \<le> k"
  have f: "fmt3 (of_int k / 1000) = nat_dec (nat (k div 1000)) @ CHR ''.'' # pad 3 (k mod 1000)"
    using k by (simp add: fmt3_def Let_def itoa_nonneg pos_imp_zdiv_nonneg_iff)
  note p = pad_spec [of "k mod 1000" 3]
  have "pad 3 (k mod 1000) \<noteq> []" using p(1) by auto
  then have "is_digit (last (pad 3 (k mod 1000)))" using p(2) by (simp add: list_all_iff)
  moreover have "is_digit (hd (nat_dec (nat (k div 1000))))" using nat_dec_digits [OF hd_in_set [OF nat_dec_not_Nil]] .
  ultimately show ?thesis unfolding f using \<open>pad 3 (k mod 1000) \<noteq> []\<close> by (intro TrimSpace_id) (auto simp: is_digit_def is_space_def)
qed

lemma parse_raw_extinf:
  "0 \<le> k \<Longrightarrow> \<not> pa_first p \<Longrightarrow> parse_raw res (''#EXTINF:'' @ fmt3 (of_int k / 1000) @ '','') p = Inr (p\<lparr>pa_dur := of_int k / 1000\<rparr>)"
  using TrimSpace_tag [of "''EXTINF:'' @ fmt3 (of_int k / 1000)" "'',''"] ParseFloat_fmt3 [of k] takeWhile_comma [of "of_int k / 1000"] TrimSpace_fmt3 [of k]
  by (simp add: parse_raw_def parse_line_def parse_tag_def HasPrefix_def TrimPrefix_def is_space_def)

lemma parse_raw_uri:
  assumes "plain_line u" "hd u \<noteq> CHR ''#''" "\<not> pa_first p"
  shows "parse_raw res u p = parse_segment res u p"
proof -
  have "u \<noteq> []" using assms(1) by (simp add: plain_line_def)
  then have "u \<noteq> ''#EXT-X-DISCONTINUITY''" "\<not> HasPrefix u (CHR ''#'' # q)" for q using assms(2) HasPrefix_hash [of u] by auto
  then show ?thesis using assms(3) \<open>u \<noteq> []\<close> unfolding parse_raw_def TrimSpace_plain [OF assms(1)] by (simp add: parse_line_def parse_tag_def)
qed

definition read_item :: "(string \<Rightarrow> string) \<Rightarrow> SegmentMeta \<Rightarrow> parser \<Rightarrow> parser" where
  "read_item f it p =
     p\<lparr>pa_pl := (pa_pl p)\<lparr>pl_MapURI := f (sm_MapURI it), pl_Segments := pl_Segments (pa_pl p) @ [segment_of f it]\<rparr>,
       pa_dur := - 1, pa_disc := False, pa_pdt := zero_time, pa_map := f (sm_MapURI it)\<rparr>"

lemma parse_item:
  assumes "text_ok it" "\<not> pa_first p" "\<not> pa_disc p" "first \<or> pa_map p = f curMap \<and> pl_MapURI (pa_pl p) = f curMap"
  shows "parse_lines (resolves f) (render_items first curMap (it # rest)) p =
    parse_lines (resolves f) (render_items False (sm_MapURI it) rest) (read_item f it p)"
proof -
  obtain k where k: "0 < k" "k < 10 ^ 12" "fmt3 (sm_Duration it) = fmt3 (of_int k / 1000)" "printed (sm_Duration it) = of_int k / 1000" using assms(1) by (rule text_ok_dur)
  have t: "time_ok (sm_ProgramDateTime it)" "list_all tag_ok (sm_Tags it)" "plain_line (sm_URI it)" "hd (sm_URI it) \<noteq> CHR ''#''"
    "sm_MapURI it \<noteq> ''''" "CHR 0x22 \<notin> set (sm_MapURI it)" using assms(1) by (auto simp: text_ok_def plain_line_def)
  let ?new = "sm_MapURI it \<noteq> curMap \<or> sm_Discontinuity it \<or> first"
  have cur: "(if ?new then sm_MapURI it else curMap) = sm_MapURI it" by auto
  define A1 where "A1 = (if sm_Discontinuity it then [''#EXT-X-DISCONTINUITY''] else [])"
  define A2 where "A2 = (if ?new then [''#EXT-X-MAP:URI='' @ quote @ sm_MapURI it @ quote] else [])"
  define B where "B = [''#EXT-X-PROGRAM-DATE-TIME:'' @ format_millis (sm_ProgramDateTime it), ''#EXTINF:'' @ fmt3 (sm_Duration it) @ '','', sm_URI it]"
  define p1 where "p1 = p\<lparr>pa_disc := sm_Discontinuity it\<rparr>"
  define p2 where "p2 = p1\<lparr>pa_pl := (pa_pl p)\<lparr>pl_MapURI := f (sm_MapURI it)\<rparr>, pa_map := f (sm_MapURI it)\<rparr>"
  have split: "render_items first curMap (it # rest) = A1 @ A2 @ sm_Tags it @ B @ render_items False (sm_MapURI it) rest"
    using t(5) by (simp only: render_items.simps Let_def A1_def A2_def B_def cur append_assoc simp_thms)
  have p12: "\<not> pa_first p1" "\<not> pa_first p2" using assms(2) by (simp_all add: p1_def p2_def)
  have a1: "parse_lines (resolves f) A1 p = Inr p1"
  proof (cases "sm_Discontinuity it")
    case True
    then show ?thesis unfolding A1_def if_P [OF True] parse_lines_Cons parse_raw_disc [OF assms(2)] by (simp add: p1_def)
  next
    case False
    then show ?thesis using assms(3) by (cases p) (simp add: A1_def p1_def)
  qed
  have a2: "parse_lines (resolves f) A2 p1 = Inr p2"
  proof (cases ?new)
    case True
    then show ?thesis unfolding A2_def if_P [OF True] parse_lines_Cons parse_raw_map [OF t(6,5) p12(1)] by (simp add: p1_def p2_def)
  next
    case False
    then have "pa_map p = f (sm_MapURI it)" "pl_MapURI (pa_pl p) = f (sm_MapURI it)" using assms(4) by auto
    then show ?thesis using False by (cases p; cases "pa_pl p") (auto simp: A2_def p1_def p2_def)
  qed
  have b: "parse_lines (resolves f) B p2 = Inr (read_item f it p)"
    unfolding B_def k(3) parse_lines_Cons parse_raw_pdt [OF t(1) p12(2)]
    using k p12(2) by (simp add: parse_raw_extinf parse_raw_uri [OF t(3,4)] parse_segment_def read_item_def segment_of_def p1_def p2_def del: append.simps)
  show ?thesis unfolding split parse_lines_append a1 a2 bindE_simps parse_raw_tags [OF t(2) p12(2)] b ..
qed

lemma parse_items:
  assumes "list_all text_ok items" "\<not> pa_first p" "\<not> pa_disc p" "first \<or> pa_map p = f curMap \<and> pl_MapURI (pa_pl p) = f curMap"
  shows "parse_lines (resolves f) (render_items first curMap items) p = Inr (fold (read_item f) items p)"
  using assms
proof (induction items arbitrary: first curMap p)
  case (Cons it rest)
  then have "text_ok it" by simp
  have "parse_lines (resolves f) (render_items first curMap (it # rest)) p =
      parse_lines (resolves f) (render_items False (sm_MapURI it) rest) (read_item f it p)"
    by (rule parse_item) (rule \<open>text_ok it\<close> Cons.prems)+
  also have "\<dots> = Inr (fold (read_item f) rest (read_item f it p))" by (rule Cons.IH) (use Cons.prems in \<open>simp_all add: read_item_def\<close>)
  finally show ?case by simp
qed simp

lemma read_items: "items \<noteq> [] \<Longrightarrow> pa_pl (fold (read_item f) items p) =
    (pa_pl p)\<lparr>pl_MapURI := f (sm_MapURI (last items)), pl_Segments := pl_Segments (pa_pl p) @ map (segment_of f) items\<rparr> \<and> pa_first (fold (read_item f) items p) = pa_first p"
proof (induction items arbitrary: p)
  case (Cons it rest)
  then show ?case by (cases "rest = []") (simp_all add: read_item_def)
qed simp

lemma parse_header:
  assumes "- (2 ^ 63) \<le> n" "n < 2 ^ 63" "- (2 ^ 63) \<le> d" "d < 2 ^ 63"
  shows "parse_raw res ''#EXTM3U'' new_parser = Inr (new_parser\<lparr>pa_first := False\<rparr>)" "\<not> pa_first p \<Longrightarrow> parse_raw res ''#EXT-X-VERSION:7'' p = Inr p"
    "\<not> pa_first p \<Longrightarrow> parse_raw res (''#EXT-X-MEDIA-SEQUENCE:'' @ itoa n) p = Inr (p\<lparr>pa_pl := (pa_pl p)\<lparr>pl_MediaSequence := n\<rparr>\<rparr>)"
    "\<not> pa_first p \<Longrightarrow> parse_raw res (''#EXT-X-DISCONTINUITY-SEQUENCE:'' @ itoa d) p = Inr (p\<lparr>pa_pl := (pa_pl p)\<lparr>pl_DiscontinuitySequence := d\<rparr>\<rparr>)"
  using TrimSpace_tag [of "''EXTM3U''" "[]"] TrimSpace_tag [of "''EXT-X-VERSION:7''" "[]"]
    TrimSpace_int_tag [of "''EXT-X-MEDIA-SEQUENCE:''" n] TrimSpace_int_tag [of "''EXT-X-DISCONTINUITY-SEQUENCE:''" d]
    ParseInt64_itoa [OF assms(1,2)] ParseInt64_itoa [OF assms(3,4)]
  by (simp_all add: parse_raw_def parse_line_def parse_tag_def parse_int_tag_def HasPrefix_def TrimPrefix_def is_space_def new_parser_def)

lemma ParseFloat_int: "ParseFloat (itoa i) = Some (of_int i)"
proof -
  have digits: "takeWhile is_digit (nat_dec n) = nat_dec n" "dropWhile is_digit (nat_dec n) = []" for n using all_digits_take [OF all_digits_nat_dec] by blast+
  have cs: "cut_sign (nat_dec n) = (False, nat_dec n)" for n using nat_dec_digits [of "hd (nat_dec n)" n] by (intro cut_sign_digit) simp_all
  have neg: "cut_sign (CHR ''-'' # r) = (True, r)" for r by (simp add: cut_sign_def)
  show ?thesis by (auto simp: ParseFloat_def itoa_def cs neg digits Let_def parse_exponent_def pow10_def)
qed

lemma parse_target: "\<not> pa_first p \<Longrightarrow> parse_raw res (''#EXT-X-TARGETDURATION:'' @ itoa i) p = Inr (p\<lparr>pa_pl := (pa_pl p)\<lparr>pl_TargetDuration := of_int i\<rparr>\<rparr>)"
  using TrimSpace_int_tag [of "''EXT-X-TARGETDURATION:''" i] ParseFloat_int [of i]
  by (simp add: parse_raw_def parse_line_def parse_tag_def HasPrefix_def TrimPrefix_def)

lemma Parse_render_eq:
  assumes "window_text_ok cfg w"
  shows "Parse (resolves f) (renderMediaPlaylist cfg w) =
    Inr \<lparr>pl_MapURI = f (sm_MapURI (last (wi_Items w))), pl_TargetDuration = of_int (target_duration cfg w), pl_MediaSequence = sm_Seq (hd (wi_Items w)),
         pl_DiscontinuitySequence = wi_DiscSeq w, pl_Segments = map (segment_of f) (wi_Items w), pl_Ended = False\<rparr>"
proof -
  let ?items = "wi_Items w" and ?n = "sm_Seq (hd (wi_Items w))"
  note w = assms [unfolded window_text_ok_def]
  have "- (2 ^ 63) \<le> ?n" "?n < 2 ^ 63" "- (2 ^ 63) \<le> wi_DiscSeq w" "wi_DiscSeq w < 2 ^ 63" using w by blast+
  note hdr = parse_header [OF this]
  define p where "p = new_parser\<lparr>pa_first := False, pa_pl := zero_playlist\<lparr>pl_TargetDuration := of_int (target_duration cfg w), pl_MediaSequence := ?n,
      pl_DiscontinuitySequence := wi_DiscSeq w\<rparr>\<rparr>"
  have "parse_lines (resolves f) (render_lines cfg w) new_parser = parse_lines (resolves f) (render_items True '''' ?items) p"
    unfolding render_lines_def parse_lines_append parse_lines_Cons hdr(1) bindE_simps
    by (simp add: hdr(2-4) parse_target p_def new_parser_def del: append.simps)
  also have "\<dots> = Inr (fold (read_item f) ?items p)" using w by (intro parse_items) (simp_all add: p_def new_parser_def)
  finally have f: "parse_lines (resolves f) (render_lines cfg w) new_parser = Inr (fold (read_item f) ?items p)" .
  show ?thesis unfolding Parse_def scan_render [OF assms] prod.case f bindE_simps
    using read_items [of ?items f p] w by (simp add: p_def new_parser_def zero_playlist_def)
qed

subsection \<open>Properties\<close>

text \<open>C16. A player that reads the playlist sees the window: \<^verbatim>\<open>hls.Parse\<close> of what \<^verbatim>\<open>renderMediaPlaylist\<close> writes gives the entries of the
  window one by one, with their address, time, duration (in thousandths), discontinuity and init section, and the two
  sequence numbers.\<close>

theorem player_reads_window:
  assumes "window_text_ok cfg w"
  shows "Parse (\<lambda>u. Some (f u)) (renderMediaPlaylist cfg w) =
    Inr \<lparr>pl_MapURI = f (sm_MapURI (last (wi_Items w))), pl_TargetDuration = of_int (target_duration cfg w), pl_MediaSequence = sm_Seq (hd (wi_Items w)),
         pl_DiscontinuitySequence = wi_DiscSeq w, pl_Segments = map (segment_of f) (wi_Items w), pl_Ended = False\<rparr>"
  by (rule Parse_render_eq [OF assms])

lemma written_fields [simp]:
  "sm_Seq (written it) = sm_Seq it" "sm_ProgramDateTime (written it) = sm_ProgramDateTime it" "sm_URI (written it) = sm_URI it"
  "sm_MapURI (written it) = sm_MapURI it" "item_ok cfg (written it) = item_ok cfg it" "names_of (written it) = names_of it"
  by (simp_all add: written_def item_ok_def names_of_def)

lemma seqs_from_written [simp]: "seqs_from n (map written xs) = seqs_from n xs"
  by (induction xs arbitrary: n) simp_all

lemma seqs_from_last: "seqs_from n xs \<Longrightarrow> xs \<noteq> [] \<Longrightarrow> sm_Seq (last xs) = n + int (length xs) - 1"
  by (induction xs arbitrary: n) auto

text \<open>The part of \<^verbatim>\<open>engine.prepare\<close> that takes over the output of an earlier run: a playlist that cannot be read is left alone and
  the stitcher starts fresh.\<close>

definition restart :: "Config \<Rightarrow> string option \<Rightarrow> stitcher \<Rightarrow> stitcher" where
  "restart cfg file s0 =
     (case restoreWindow file s0 of
        (ok, s) \<Rightarrow> removeOrphans (if \<not> ok \<and> file \<noteq> None then newStitcher cfg (st_files s) else s))"

lemma restart_written:
  assumes "window_text_ok cfg w"
  shows "\<exists>e. restart cfg (Some (renderMediaPlaylist cfg w)) (newStitcher cfg files) =
    removeOrphans ((newStitcher cfg files)\<lparr>st_win := \<lparr>wi_Items = map written (wi_Items w), wi_MaxSize = cfg_PlaylistWindowMax cfg, wi_DiscSeq = wi_DiscSeq w\<rparr>,
      st_lastStart := sm_ProgramDateTime (last (wi_Items w)), st_prevEnd := e, st_nextSeq := sm_Seq (last (wi_Items w)) + 1\<rparr>)"
  using restore_render_eq [OF assms, of "newStitcher cfg files"] by (auto simp: restart_def Let_def newStitcher_def)

lemma restart_facts:
  assumes "window_ok cfg s" "files_ok s" "window_text_ok cfg (st_win s)"
  defines "s' \<equiv> restart cfg (Some (renderMediaPlaylist cfg (st_win s))) (newStitcher cfg (st_files s))"
  shows "window_ok cfg s' \<and> files_ok s' \<and> wi_Items (st_win s') = map written (wi_Items (st_win s)) \<and>
    wi_DiscSeq (st_win s') = wi_DiscSeq (st_win s) \<and> st_nextSeq s' = st_nextSeq s \<and> st_lastStart s' = st_lastStart s \<and>
    (\<forall>it \<in> set (wi_Items (st_win s)). \<forall>n \<in> set (names_of it). st_files s' n = st_files s n) \<and> is_disc s' m c"
proof -
  note ok = assms(1,2)
  note w = ok(1) [unfolded window_ok_def Let_def] and t = assms(3) [unfolded window_text_ok_def]
  let ?items = "wi_Items (st_win s)"
  obtain e where e: "s' = removeOrphans ((newStitcher cfg (st_files s))\<lparr>st_win := \<lparr>wi_Items = map written ?items, wi_MaxSize = cfg_PlaylistWindowMax cfg,
      wi_DiscSeq = wi_DiscSeq (st_win s)\<rparr>, st_lastStart := sm_ProgramDateTime (last ?items), st_prevEnd := e, st_nextSeq := sm_Seq (last ?items) + 1\<rparr>)"
    using restart_written [OF assms(3)] unfolding s'_def by blast
  have s': "st_win s' = \<lparr>wi_Items = map written ?items, wi_MaxSize = cfg_PlaylistWindowMax cfg, wi_DiscSeq = wi_DiscSeq (st_win s)\<rparr>"
      "st_lastStart s' = st_lastStart s" "st_nextSeq s' = st_nextSeq s" "st_prevSrc s' = ''''" "st_retired s' = []"
      "st_files s' = (\<lambda>n. if in_window (st_win s') n \<or> \<not> (HasPrefix n ''seg_'' \<or> HasPrefix n ''init_'') then st_files s n else None)"
    using w t seqs_from_last [of "st_nextSeq s - int (length ?items)" ?items] unfolding e by (simp_all add: removeOrphans_def newStitcher_def cong: if_cong)
  have srt: "sorted_wrt (\<lambda>a b. sm_ProgramDateTime a < sm_ProgramDateTime b) (map written ?items)" using w by (simp add: sorted_wrt_map)
  have wok: "window_ok cfg s'" using w t srt by (auto simp: window_ok_def Let_def s' last_map)
  have keep: "st_files s' n = st_files s n" if "it \<in> set ?items" "n \<in> set (names_of it)" for it n
  proof -
    have "in_window (st_win s') n" using window_in_window [OF wok, of "written it" n] that by (simp add: s'(1))
    then show ?thesis unfolding s'(6) by simp
  qed
  have fok: "files_ok s'" using ok(2) keep by (auto simp: files_ok_def s'(1,5))
  have "is_disc s' m c" using t by (simp add: is_disc_def s'(1,4) Let_def)
  then show ?thesis using wok fok keep s' by simp
qed

text \<open>A restart continues the stream: the window that is read back is well-formed, all its files are still there, and numbers and
  times go on where they were. The next entry is a discontinuity, because the source before it is not known.\<close>

theorem restart_continues:
  assumes "stitch_run cfg (newStitcher cfg files) s" and "0 < cfg_PlaylistWindowMax cfg" and "window_text_ok cfg (st_win s)"
  defines "s' \<equiv> restart cfg (Some (renderMediaPlaylist cfg (st_win s))) (newStitcher cfg (st_files s))"
  shows "window_ok cfg s' \<and> files_ok s' \<and> wi_Items (st_win s') = map written (wi_Items (st_win s)) \<and>
    wi_DiscSeq (st_win s') = wi_DiscSeq (st_win s) \<and> st_nextSeq s' = st_nextSeq s \<and> st_lastStart s' = st_lastStart s \<and>
    (\<forall>it \<in> set (wi_Items (st_win s)). \<forall>n \<in> set (names_of it). st_files s' n = st_files s n) \<and> is_disc s' m c"
  unfolding s'_def by (rule restart_facts [OF new_run_ok(1,2) [OF assms(1,2)] assms(3)])

subsection \<open>A window of two entries\<close>

definition w_item :: "int \<Rightarrow> SegmentMeta" where
  "w_item k = zero_meta\<lparr>sm_Seq := k, sm_Duration := 1, sm_ProgramDateTime := k * second, sm_Tags := [''#EXT-X-CUE-IN''], sm_URI := ''v720/seg_7.m4s'', sm_MapURI := ''v720/init_ab.mp4''\<rparr>"

definition w_window :: Window where
  "w_window = \<lparr>wi_Items = [w_item 7, w_item 8], wi_MaxSize = 180, wi_DiscSeq = 3\<rparr>"

lemma printed_one: "printed 1 = 1"
  using round_even_int [of 1000] by (simp add: printed_def)

lemma w_item_text: "0 \<le> k \<Longrightarrow> k < 1000 \<Longrightarrow> text_ok (w_item k)"
  by (simp add: text_ok_def w_item_def time_ok_def printed_one tag_ok_def plain_line_def max_line_def is_space_def HasPrefix_def zero_meta_def)

lemma w_window_text: "window_text_ok default_config w_window"
  using w_item_text by (simp add: window_text_ok_def w_window_def target_duration_def maxDuration_def default_config_def) (simp add: w_item_def zero_meta_def)

theorem player_reads_window_witness:
  "\<exists>pl. Parse (\<lambda>u. Some (''http://h/'' @ u)) (renderMediaPlaylist default_config w_window) = Inr pl \<and> length (pl_Segments pl) = 2 \<and> pl_MediaSequence pl = 7"
  using player_reads_window [OF w_window_text, of "\<lambda>u. ''http://h/'' @ u"] by (simp add: w_window_def w_item_def)

lemma w_one_text: "window_text_ok default_config (st_win (w_one default_config))"
proof -
  have add: "add w_sources w_io default_config (w_clip 1) (w_start default_config) = (True, [], w_one default_config)"
    using w_add [of 1 default_config "w_start default_config"] w_later(1) by simp
  obtain out where prep: "prepare w_sources default_config ''a.m3u8'' 5 False (ci_StartAt (w_clip 1)) =
    Inr \<lparr>rt_meta = zero_meta\<lparr>sm_Duration := 1, sm_URI := ''5.m4s'', sm_MapURI := ''init.mp4'', sm_src := ''a.m3u8'', sm_idx := 5\<rparr>,
         rt_seg = out, rt_init = [7], rt_initName = ''init_ab.mp4'', rt_slate = False\<rparr>"
    by (rule w_prepare [of 1 default_config]) simp_all
  obtain rt where rt: "resolve w_sources default_config (w_clip 1) = (Some rt, [])"
      "append_segment (final_meta default_config (w_start default_config) (w_clip 1) rt) (st_win (w_start default_config)) = (st_win (w_one default_config), [])"
    using add by (rule add_True) (simp add: newStitcher_def append_segment_def)
  have rt': "rt = \<lparr>rt_meta = zero_meta\<lparr>sm_Duration := 1, sm_URI := ''5.m4s'', sm_MapURI := ''init.mp4'', sm_src := ''a.m3u8'', sm_idx := 5\<rparr>,
         rt_seg = out, rt_init = [7], rt_initName = ''init_ab.mp4'', rt_slate = False\<rparr>"
    using rt(1) prep by (simp add: resolve_def w_clip_def)
  let ?m = "final_meta default_config (w_start default_config) (w_clip 1) rt"
  have win: "st_win (w_one default_config) = \<lparr>wi_Items = [?m], wi_MaxSize = 180, wi_DiscSeq = 0\<rparr>"
    using rt(2) by (simp add: newStitcher_def append_segment_def)
  have c1: "char_of (49 :: nat) = CHR ''1''" by code_simp
  have uri: "sm_URI ?m = ''v720/seg_1.m4s''" "sm_MapURI ?m = ''v720/init_ab.mp4''" "sm_Duration ?m = 1" "sm_ProgramDateTime ?m = 1767836801 * second"
      "sm_Tags ?m = []" "sm_Seq ?m = 1"
    by (simp_all add: final_meta_def meta_for_def rt' Let_def newStitcher_def w_clip_def seg_name_def itoa_def nat_dec_def digits_rev.simps default_config_def breakTags_def zero_clip_def c1)
  then have "text_ok ?m"
    unfolding text_ok_def uri by (simp add: time_ok_def printed_one tag_ok_def plain_line_def max_line_def is_space_def)
  then show ?thesis unfolding win using uri by (simp add: window_text_ok_def target_duration_def maxDuration_def default_config_def)
qed

theorem restart_continues_witness:
  "files_ok (restart default_config (Some (renderMediaPlaylist default_config (st_win (w_one default_config)))) (newStitcher default_config (st_files (w_one default_config))))"
  using restart_continues [OF w_runs(1) _ w_one_text] by simp

end
