(* ===== verification/OnAir.thy ===== *)
theory OnAir
  imports Hub Media "HOL-Library.AList"
begin

text \<open>
  \<^verbatim>\<open>services/engine/events.go\<close>: what the engine tells the world. \<^verbatim>\<open>announce\<close> turns the entries of the playlist whose time
  has come into events, \<^verbatim>\<open>transition\<close> is one step of it, \<^verbatim>\<open>sourceFailed\<close> limits how often a failing source is reported. An
  operation returns the events it publishes, in order; \<open>send\<close> puts one into the hub. \<open>clock i\<close> is the wall clock
  when the event with number \<open>i\<close> is published. The abstract view is \<open>air\<close>: what a listener believes is on the air.
\<close>

subsection \<open>Publishing\<close>

type_synonym notice = "string \<times> data"

definition publish :: "Config \<Rightarrow> (int \<Rightarrow> gtime) \<Rightarrow> notice \<Rightarrow> Hub \<Rightarrow> Hub" where
  "publish cfg clock n h = snd (Publish (fst n) (cfg_ChannelID cfg) (snd n) (clock (hb_nextID h)) h)"

text \<open>The hub of the engine, together with the list of everything that was published so far (which the code does not keep; the
  statements about sequences of events are about this list).\<close>

record outbox =
  ob_log :: "notice list"
  ob_hub :: Hub

definition send :: "Config \<Rightarrow> (int \<Rightarrow> gtime) \<Rightarrow> notice \<Rightarrow> outbox \<Rightarrow> outbox" where
  "send cfg clock n ob = \<lparr>ob_log = ob_log ob @ [n], ob_hub = publish cfg clock n (ob_hub ob)\<rparr>"

lemma fold_send_log [simp]: "ob_log (fold (send cfg clock) ns ob) = ob_log ob @ ns"
  by (induction ns arbitrary: ob) (simp_all add: send_def)

subsection \<open>Transitions\<close>

record onAir =
  oa_kind :: string
  oa_title :: string
  oa_entry :: gtime
  oa_brk :: gtime

definition zero_onAir :: onAir where
  "zero_onAir = \<lparr>oa_kind = '''', oa_title = '''', oa_entry = zero_time, oa_brk = zero_time\<rparr>"

definition sameProgram :: "onAir \<Rightarrow> onAir \<Rightarrow> bool" where
  "sameProgram a b \<longleftrightarrow> oa_kind a = oa_kind b \<and> oa_title a = oa_title b \<and> oa_entry a = oa_entry b"

definition transition :: "SegmentMeta \<Rightarrow> onAir \<Rightarrow> notice list \<times> onAir" where
  "transition it prev =
     (let cur = \<lparr>oa_kind = sm_Kind it, oa_title = sm_Title it, oa_entry = sm_EntryStart it, oa_brk = sm_BreakStart it\<rparr> in
      if (if oa_kind cur = ''ad'' then oa_kind prev = ''ad'' \<and> oa_brk prev = oa_brk cur else sameProgram cur prev) then ([], prev)
      else
        let t = sm_ProgramDateTime it in
        ((if oa_kind prev = ''ad'' \<and> (oa_kind cur \<noteq> ''ad'' \<or> oa_brk prev \<noteq> oa_brk cur)
          then [(''break.ended'', [(''at'', ATime t), (''break_start'', ATime (oa_brk prev))])] else []) @
         (if oa_kind prev = ''slate'' \<and> oa_kind cur \<noteq> ''slate'' then [(''slate.ended'', [(''at'', ATime t)])] else []) @
         (if oa_kind cur = ''ad'' then
            [(''break.started'', [(''at'', ATime t), (''break_start'', ATime (oa_brk cur)), (''duration'', AInt (sm_BreakDurS it))])]
          else if oa_kind cur = ''slate'' then
            (if oa_kind prev \<noteq> ''slate'' then [(''slate.started'', [(''at'', ATime t)])] else [])
          else
            [(''program.started'', [(''at'', ATime t), (''kind'', AStr (oa_kind cur)), (''title'', AStr (oa_title cur)), (''entry_start'', ATime (oa_entry cur))])]),
         cur))"

text \<open>The loop of \<^verbatim>\<open>announce\<close>: it stops at the first entry of the future and skips what was announced before.\<close>

fun announce :: "gtime \<Rightarrow> SegmentMeta list \<Rightarrow> gtime \<times> onAir \<Rightarrow> notice list \<times> gtime \<times> onAir" where
  "announce now [] st = ([], st)"
| "announce now (it # its) (announcedTo, cur) =
     (if sm_ProgramDateTime it > now then ([], (announcedTo, cur))
      else if \<not> sm_ProgramDateTime it > announcedTo then announce now its (announcedTo, cur)
      else if sm_Kind it = '''' then announce now its (sm_ProgramDateTime it, cur)
      else
        (case transition it cur of (ns, cur') \<Rightarrow>
           (case announce now its (sm_ProgramDateTime it, cur') of (ms, st) \<Rightarrow> (ns @ ms, st))))"

text \<open>\<^verbatim>\<open>failedAt\<close> as an association list; \<open>msg\<close> is the text of the error.\<close>

definition sourceFailed :: "string \<Rightarrow> string \<Rightarrow> ClipItem \<Rightarrow> string \<Rightarrow> (string \<times> gtime) list \<Rightarrow> notice list \<times> (string \<times> gtime) list" where
  "sourceFailed reason uri c msg failedAt =
     (let key = reason @ ''|'' @ uri in
      if (case map_of failedAt key of Some lastAt \<Rightarrow> Sub (ci_StartAt c) lastAt < 10 * second | None \<Rightarrow> False) then ([], failedAt)
      else
        let failedAt = (if length failedAt > 1000 then [] else failedAt) in
        ([(''source.error'', [(''reason'', AStr reason), (''uri'', AStr uri), (''at'', ATime (ci_StartAt c)), (''error'', AStr msg)])],
         AList.update key (ci_StartAt c) failedAt))"

subsection \<open>What a listener believes\<close>

datatype air = Off | Program string string gtime | InBreak gtime | InSlate

text \<open>The grammar of the events: a break or a slate that started has to end before anything else starts. Events of other types do
  not change what is on the air.\<close>

definition air_types :: "string list" where
  "air_types = [''break.started'', ''break.ended'', ''slate.started'', ''slate.ended'', ''program.started'']"

fun hear :: "notice \<Rightarrow> air \<Rightarrow> air option" where
  "hear (typ, dat) a =
     (if typ \<notin> set air_types then Some a
      else if typ = ''break.ended'' then
        (case a of InBreak b \<Rightarrow> if map_of dat ''break_start'' = Some (ATime b) then Some Off else None | _ \<Rightarrow> None)
      else if typ = ''slate.ended'' then (case a of InSlate \<Rightarrow> Some Off | _ \<Rightarrow> None)
      else if (case a of InBreak b \<Rightarrow> True | InSlate \<Rightarrow> True | _ \<Rightarrow> False) then None
      else if typ = ''break.started'' then (case map_of dat ''break_start'' of Some (ATime b) \<Rightarrow> Some (InBreak b) | _ \<Rightarrow> None)
      else if typ = ''slate.started'' then Some InSlate
      else
        (case (map_of dat ''kind'', map_of dat ''title'', map_of dat ''entry_start'') of
           (Some (AStr k), Some (AStr t), Some (ATime e)) \<Rightarrow> Some (Program k t e)
         | _ \<Rightarrow> None))"

fun hear_all :: "notice list \<Rightarrow> air \<Rightarrow> air option" where
  "hear_all [] a = Some a"
| "hear_all (n # ns) a = Option.bind (hear n a) (hear_all ns)"

definition air_of :: "onAir \<Rightarrow> air" where
  "air_of c =
     (if oa_kind c = '''' then Off
      else if oa_kind c = ''ad'' then InBreak (oa_brk c)
      else if oa_kind c = ''slate'' then InSlate
      else Program (oa_kind c) (oa_title c) (oa_entry c))"

lemma hear_all_append: "hear_all (xs @ ys) a = Option.bind (hear_all xs a) (hear_all ys)"
  by (induction xs arbitrary: a) (auto split: Option.bind_split)

lemma hear_events:
  "hear (''break.ended'', dat) (InBreak b) = (if map_of dat ''break_start'' = Some (ATime b) then Some Off else None)"
  "hear (''slate.ended'', dat) InSlate = Some Off"
  "hear (''break.started'', (''at'', t) # (''break_start'', ATime b) # dat) Off = Some (InBreak b)"
  "hear (''break.started'', (''at'', t) # (''break_start'', ATime b) # dat) (Program k ti e) = Some (InBreak b)"
  "hear (''slate.started'', dat) Off = Some InSlate"
  "hear (''slate.started'', dat) (Program k ti e) = Some InSlate"
  "hear (''program.started'', [(''at'', t), (''kind'', AStr k), (''title'', AStr ti), (''entry_start'', ATime e)]) Off = Some (Program k ti e)"
  "hear (''program.started'', [(''at'', t), (''kind'', AStr k), (''title'', AStr ti), (''entry_start'', ATime e)]) (Program k' ti' e') = Some (Program k ti e)"
  by (simp_all add: air_types_def)

declare hear.simps [simp del]

lemma transition_heard:
  assumes "transition it prev = (ns, cur)" "sm_Kind it \<noteq> ''''"
  shows "hear_all ns (air_of prev) = Some (air_of cur)"
    "air_of cur = (if sm_Kind it = ''ad'' then InBreak (sm_BreakStart it) else if sm_Kind it = ''slate'' then InSlate
       else Program (sm_Kind it) (sm_Title it) (sm_EntryStart it))"
  using assms by (auto simp: transition_def Let_def air_of_def sameProgram_def hear_events split: if_splits)

subsection \<open>Every entry is announced once\<close>

fun transitions :: "SegmentMeta list \<Rightarrow> onAir \<Rightarrow> notice list \<times> onAir" where
  "transitions [] cur = ([], cur)"
| "transitions (it # its) cur =
     (case transition it cur of (ns, cur') \<Rightarrow> (case transitions its cur' of (ms, cur'') \<Rightarrow> (ns @ ms, cur'')))"

definition due_items :: "gtime \<Rightarrow> gtime \<Rightarrow> SegmentMeta list \<Rightarrow> SegmentMeta list" where
  "due_items t now its = filter (\<lambda>it. t < sm_ProgramDateTime it \<and> sm_ProgramDateTime it \<le> now) its"

abbreviation by_time :: "SegmentMeta list \<Rightarrow> bool" where
  "by_time its \<equiv> sorted_wrt (\<lambda>a b. sm_ProgramDateTime a < sm_ProgramDateTime b) its"

lemma due_items_Cons:
  assumes "by_time (it # its)"
  shows "due_items t now (it # its) =
    (if sm_ProgramDateTime it > now then [] else if \<not> sm_ProgramDateTime it > t then due_items t now its
     else it # due_items (sm_ProgramDateTime it) now its)"
proof -
  have late: "sm_ProgramDateTime it < sm_ProgramDateTime x" if "x \<in> set its" for x using assms that by simp
  have "due_items t now its = []" if "sm_ProgramDateTime it > now"
    using that by (force simp: due_items_def filter_empty_conv dest: late)
  moreover have "due_items t now its = due_items (sm_ProgramDateTime it) now its" if "t < sm_ProgramDateTime it"
    unfolding due_items_def using that by (intro filter_cong) (force dest: late)+
  ultimately show ?thesis by (auto simp: due_items_def)
qed

lemma announce_due:
  "by_time its \<Longrightarrow> announce now its (t, cur) =
     (case transitions (filter (\<lambda>it. sm_Kind it \<noteq> '''') (due_items t now its)) cur of
        (ns, cur') \<Rightarrow> (ns, if due_items t now its = [] then t else sm_ProgramDateTime (last (due_items t now its)), cur'))"
proof (induction its arbitrary: t cur)
  case (Cons it its)
  note d = due_items_Cons [OF Cons.prems]
  have srt: "by_time its" using Cons.prems by simp
  consider "sm_ProgramDateTime it > now" | "sm_ProgramDateTime it \<le> now" "sm_ProgramDateTime it \<le> t" | "sm_ProgramDateTime it \<le> now" "t < sm_ProgramDateTime it"
    by linarith
  then show ?case
  proof cases
    case 3
    then show ?thesis using Cons.IH [OF srt] by (cases "transition it cur") (auto simp: d split: prod.splits)
  qed (use Cons.IH [OF srt] in \<open>simp_all add: d\<close>)
qed (simp add: due_items_def)

lemma transitions_heard:
  assumes "transitions its prev = (ns, cur)" "\<forall>it \<in> set its. sm_Kind it \<noteq> ''''"
  shows "hear_all ns (air_of prev) = Some (air_of cur)"
  using assms
proof (induction its arbitrary: prev ns)
  case (Cons it its)
  obtain n1 c1 n2 where t: "transition it prev = (n1, c1)" "transitions its c1 = (n2, cur)" "ns = n1 @ n2"
    using Cons.prems(1) by (auto split: prod.splits)
  then show ?case using Cons.IH [OF t(2)] Cons.prems(2) transition_heard(1) [OF t(1)] by (simp add: hear_all_append)
qed simp

lemma transitions_last:
  assumes "transitions its prev = (ns, cur)" "its \<noteq> []" "\<forall>it \<in> set its. sm_Kind it \<noteq> ''''"
  shows "air_of cur = (let l = last its in if sm_Kind l = ''ad'' then InBreak (sm_BreakStart l) else if sm_Kind l = ''slate'' then InSlate
       else Program (sm_Kind l) (sm_Title l) (sm_EntryStart l))"
  using assms
proof (induction its arbitrary: prev ns)
  case (Cons it its)
  obtain n1 c1 n2 where t: "transition it prev = (n1, c1)" "transitions its c1 = (n2, cur)" "ns = n1 @ n2"
    using Cons.prems(1) by (auto split: prod.splits)
  then show ?case using Cons.IH [OF t(2)] Cons.prems(3) transition_heard(2) [OF t(1)] by (cases "its = []") (auto simp: Let_def)
qed simp

end
