(* ===== verification/Engine.thy ===== *)
theory Engine
  imports Plan OnAir
begin

text \<open>
  \<^verbatim>\<open>services/engine/engine.go\<close>: the engine that plays one channel. Its state is the record \<open>engine\<close>; \<open>tick\<close> is one step of it and
  composes the planner (\<^verbatim>\<open>Plan\<close>), the pod sources (\<^verbatim>\<open>Pods\<close>), the stitcher (\<^verbatim>\<open>Stitch\<close>), the playlist (\<^verbatim>\<open>Media\<close>) and the events
  (\<^verbatim>\<open>OnAir\<close>) as the code does. What the world answers during a tick is the record \<open>tick_env\<close>: the schedule store, the ad
  sources, the media sources and the file system for every clip, whether the time budget is used up, and the wall clock.
  Prefetching only warms the caches of the resolver (\<open>prefetch_loop\<close> of the theory \<open>Resolver\<close>); the channel's metrics are left out.
\<close>

subsection \<open>State\<close>

record engineState =
  es_nowSeq :: int
  es_windowLen :: int
  es_lastTimelineAt :: gtime
  es_adState :: string
  es_gaps :: int
  es_segments :: int
  es_lastPlaylistAt :: gtime

record engine =
  en_st :: stitcher
  en_state :: engineState
  en_pods :: pods
  en_entries :: "TimelineEntry list"
  en_entriesAt :: gtime
  en_entriesTo :: gtime
  en_lastTried :: gtime
  en_media :: "string option"
  en_lastWrite :: gtime
  en_ready :: bool
  en_out :: outbox
  en_onAir :: onAir
  en_announcedTo :: gtime
  en_failedAt :: "(string \<times> gtime) list"
  en_staleAt :: gtime

record tick_env =
  tv_read :: "string + TimelineEntry list"
  tv_pods :: "gtime \<Rightarrow> any_env"
  tv_sources :: "gtime \<Rightarrow> sources"
  tv_io :: "gtime \<Rightarrow> io_result"
  tv_over :: "gtime \<Rightarrow> bool"
  tv_media_ok :: bool
  tv_clock :: "int \<Rightarrow> gtime"
  tv_written :: gtime
  tv_done :: gtime
  tv_text :: "src_error \<Rightarrow> string"

definition zero_state :: engineState where
  "zero_state = \<lparr>es_nowSeq = 0, es_windowLen = 0, es_lastTimelineAt = zero_time, es_adState = '''', es_gaps = 0, es_segments = 0, es_lastPlaylistAt = zero_time\<rparr>"

text \<open>\<open>files\<close> and \<open>media\<close> are what an earlier run left in the output directory.\<close>

definition newEngine :: "Config \<Rightarrow> gtime \<Rightarrow> (string \<Rightarrow> byte list option) \<Rightarrow> string option \<Rightarrow> engine" where
  "newEngine cfg wall files media =
     \<lparr>en_st = newStitcher cfg files, en_state = zero_state, en_pods = newPods cfg, en_entries = [], en_entriesAt = zero_time, en_entriesTo = zero_time,
      en_lastTried = zero_time, en_media = media, en_lastWrite = wall, en_ready = False, en_out = \<lparr>ob_log = [], ob_hub = NewHub 1000\<rparr>,
      en_onAir = zero_onAir, en_announcedTo = zero_time, en_failedAt = [], en_staleAt = zero_time\<rparr>"

text \<open>\<^verbatim>\<open>prepare\<close>: \<open>None\<close> when the directory cannot be made. Writing the master playlist and warming the slate have no effect here.\<close>

definition prepare_engine :: "Config \<Rightarrow> bool \<Rightarrow> (int \<Rightarrow> gtime) \<Rightarrow> engine \<Rightarrow> engine option" where
  "prepare_engine cfg mkdir clock e =
     (if \<not> mkdir then None
      else
        let st = restart cfg (en_media e) (en_st e);
            items = wi_Items (st_win st);
            e = e\<lparr>en_st := st\<rparr>;
            e = (if items \<noteq> [] then e\<lparr>en_announcedTo := sm_ProgramDateTime (last items)\<rparr> else e)
        in Some (e\<lparr>en_out := send cfg clock (''engine.started'', [(''channel'', AStr (cfg_ChannelID cfg)), (''variant'', AStr (cfg_VariantID cfg)),
             (''window'', AInt (cfg_PlaylistWindowMax cfg)), (''lead_s'', AInt (cfg_LiveLeadS cfg))]) (en_out e)\<rparr>))"

subsection \<open>One step\<close>

definition scheduleRefresh :: duration where "scheduleRefresh = 500 * millisecond"

definition tick_ahead :: "Config \<Rightarrow> duration" where
  "tick_ahead cfg = (let a = seconds (cfg_PublishAheadS cfg) in if a \<le> 0 then seconds (cfg_PreloadWindowS cfg) else a)"

definition refresh :: "Config \<Rightarrow> tick_env \<Rightarrow> gtime \<Rightarrow> gtime \<Rightarrow> engine \<Rightarrow> engine" where
  "refresh cfg v now slot e =
     (if IsZero (en_entriesAt e) \<or> Sub now (en_entriesAt e) \<ge> scheduleRefresh \<or> en_entriesTo e < slot + tick_ahead cfg then
        (case tv_read v of
           Inl err \<Rightarrow>
             if Sub now (en_staleAt e) \<ge> 30 * second
             then e\<lparr>en_staleAt := now, en_out := send cfg (tv_clock v) (''schedule.stale'', [(''error'', AStr err), (''last_ok'', ATime (en_entriesAt e))]) (en_out e)\<rparr>
             else e
         | Inr read \<Rightarrow> e\<lparr>en_entries := read, en_entriesAt := now, en_entriesTo := slot + seconds (cfg_PreloadWindowS cfg)\<rparr>)
      else e)"

definition ads_fallback :: "Config \<Rightarrow> (int \<Rightarrow> gtime) \<Rightarrow> gtime \<Rightarrow> outbox \<Rightarrow> outbox" where
  "ads_fallback cfg clock start = send cfg clock (''ads.fallback'', [(''break_start'', ATime start)])"

definition plan_of :: "Config \<Rightarrow> tick_env \<Rightarrow> gtime \<Rightarrow> engine \<Rightarrow> ClipItem list \<times> engine" where
  "plan_of cfg v slot e =
     (let src = notifyingPods any_source (ads_fallback cfg (tv_clock v)) in
      case buildPlan slot cfg (en_entries e) src (tv_pods v) (en_pods e, en_out e) of
        (plan, s) \<Rightarrow> (case ps_evict src slot s of (p, ob) \<Rightarrow> (plan, e\<lparr>en_pods := p, en_out := ob\<rparr>)))"

definition report :: "Config \<Rightarrow> tick_env \<Rightarrow> ClipItem \<Rightarrow> failure \<Rightarrow> engine \<Rightarrow> engine" where
  "report cfg v c f e =
     (case f of (reason, uri, err) \<Rightarrow>
        case sourceFailed reason uri c (tv_text v err) (en_failedAt e) of
          (ns, failedAt) \<Rightarrow> e\<lparr>en_failedAt := failedAt, en_out := fold (send cfg (tv_clock v)) ns (en_out e)\<rparr>)"

fun release_loop :: "Config \<Rightarrow> tick_env \<Rightarrow> gtime \<Rightarrow> ClipItem list \<Rightarrow> nat \<times> engine \<Rightarrow> nat \<times> engine" where
  "release_loop cfg v rel [] (appended, e) = (appended, e)"
| "release_loop cfg v rel (c # cs) (appended, e) =
     (if ci_StartAt c > rel \<or> \<not> ci_StartAt c > en_lastTried e then release_loop cfg v rel cs (appended, e)
      else if tv_over v (ci_StartAt c) then (appended, e)
      else
        (case add (tv_sources v (ci_StartAt c)) (tv_io v (ci_StartAt c)) cfg c (en_st e) of
           (ok, fs, st) \<Rightarrow>
             release_loop cfg v rel cs
               (if ok then appended + 1 else appended, fold (report cfg v c) fs (e\<lparr>en_lastTried := ci_StartAt c, en_st := st\<rparr>))))"

definition writePlaylist :: "Config \<Rightarrow> tick_env \<Rightarrow> engine \<Rightarrow> engine" where
  "writePlaylist cfg v e =
     (if tv_media_ok v
      then e\<lparr>en_media := Some (renderMediaPlaylist cfg (st_win (en_st e))), en_lastWrite := tv_written v, en_ready := True,
             en_state := (en_state e)\<lparr>es_lastPlaylistAt := tv_written v\<rparr>\<rparr>
      else e)"

definition announce_now :: "Config \<Rightarrow> tick_env \<Rightarrow> gtime \<Rightarrow> engine \<Rightarrow> engine" where
  "announce_now cfg v now e =
     (case announce now (wi_Items (st_win (en_st e))) (en_announcedTo e, en_onAir e) of
        (ns, t, cur) \<Rightarrow> e\<lparr>en_announcedTo := t, en_onAir := cur, en_out := fold (send cfg (tv_clock v)) ns (en_out e)\<rparr>)"

definition update_state :: "Config \<Rightarrow> tick_env \<Rightarrow> gtime \<Rightarrow> ClipItem list \<Rightarrow> engine \<Rightarrow> engine" where
  "update_state cfg v slot plan e =
     (let s = (en_state e)\<lparr>es_nowSeq := quantSeq slot (cfg_SegmentSec cfg), es_windowLen := int (length plan),
                es_gaps := int (length (filter (\<lambda>it. ci_Type it = ''slate'') plan)),
                es_adState := (if list_ex (\<lambda>it. ci_Type it = ''ad'') plan then ''ad'' else ''none''),
                es_segments := int (length (wi_Items (st_win (en_st e))))\<rparr>
      in e\<lparr>en_state := (if en_entries e \<noteq> [] then s\<lparr>es_lastTimelineAt := tv_done v\<rparr> else s)\<rparr>)"

definition tick :: "Config \<Rightarrow> tick_env \<Rightarrow> gtime \<Rightarrow> engine \<Rightarrow> engine" where
  "tick cfg v now e =
     (let slot = Truncate now (seconds (cfg_SegmentSec cfg));
          e = refresh cfg v now slot e
      in case plan_of cfg v slot e of (plan, e) \<Rightarrow>
           let rel = now + seconds (cfg_LiveLeadS cfg) in
           case release_loop cfg v rel plan (0, e) of (appended, e) \<Rightarrow>
             let e = (if appended > 0 then writePlaylist cfg v e else e);
                 e = announce_now cfg v now e
             in update_state cfg v slot plan e)"

text \<open>\<^verbatim>\<open>fetchBudget\<close>: half the lead, between 300 ms and the timeout of a source.\<close>

definition fetchBudget :: "Config \<Rightarrow> duration" where
  "fetchBudget cfg =
     (let ms = cfg_LiveLeadS cfg * 500;
          ms = (if ms < 300 then 300 else ms);
          ms = (if cfg_SourceTimeoutMs cfg > 0 \<and> ms > cfg_SourceTimeoutMs cfg then cfg_SourceTimeoutMs cfg else ms)
      in milliseconds ms)"

subsection \<open>Parts of a step\<close>

text \<open>The events of a step other than the announcements do not say what is on the air.\<close>

definition quiet :: "notice list \<Rightarrow> bool" where
  "quiet ns \<longleftrightarrow> (\<forall>n \<in> set ns. fst n \<notin> set air_types)"

definition quiet_after :: "outbox \<Rightarrow> outbox \<Rightarrow> bool" where
  "quiet_after ob ob' \<longleftrightarrow> (\<exists>ns. quiet ns \<and> ob_log ob' = ob_log ob @ ns)"

lemma quiet_after_refl [simp]: "quiet_after ob ob"
  by (auto simp: quiet_after_def quiet_def intro: exI [of _ "[]"])

lemma quiet_after_trans: "quiet_after a b \<Longrightarrow> quiet_after b c \<Longrightarrow> quiet_after a c"
proof -
  assume "quiet_after a b" "quiet_after b c"
  then obtain ns ms where "quiet ns" "ob_log b = ob_log a @ ns" "quiet ms" "ob_log c = ob_log b @ ms" by (auto simp: quiet_after_def)
  then show ?thesis unfolding quiet_after_def by (intro exI [of _ "ns @ ms"]) (auto simp: quiet_def)
qed

lemma quiet_send: "fst n \<notin> set air_types \<Longrightarrow> quiet_after ob (send cfg clock n ob)"
  by (auto simp: quiet_after_def quiet_def send_def intro: exI [of _ "[n]"])

lemma hear_quiet: "quiet ns \<Longrightarrow> hear_all ns a = Some a"
  by (induction ns) (auto simp: quiet_def hear.simps)

lemma not_air_types [simp]:
  "''schedule.stale'' \<notin> set air_types" "''ads.fallback'' \<notin> set air_types" "''source.error'' \<notin> set air_types" "''engine.started'' \<notin> set air_types"
  by (simp_all add: air_types_def)

text \<open>What a part of a step leaves alone.\<close>

definition same_air :: "engine \<Rightarrow> engine \<Rightarrow> bool" where
  "same_air e e' \<longleftrightarrow> en_onAir e' = en_onAir e \<and> en_announcedTo e' = en_announcedTo e \<and> quiet_after (en_out e) (en_out e')"

lemma same_air_refl [simp]: "same_air e e"
  by (simp add: same_air_def)

lemma same_air_trans: "same_air a b \<Longrightarrow> same_air b c \<Longrightarrow> same_air a c"
  by (auto simp: same_air_def intro: quiet_after_trans)

lemma refresh_same: "same_air e (refresh cfg v now slot e)" "en_st (refresh cfg v now slot e) = en_st e" "en_lastTried (refresh cfg v now slot e) = en_lastTried e"
  by (auto simp: refresh_def same_air_def quiet_send split: sum.splits)

lemma ask_pod_rel:
  assumes "\<And>s. R s s" "\<And>a b c. R a b \<Longrightarrow> R b c \<Longrightarrow> R a c"
    and "\<And>e due v s. R s (snd (ps_pod ps e due v s))" "\<And>t s. R s (ps_giveUp ps t s)"
  shows "R s (snd (ask_pod cfg ps now v ts eo s))"
proof -
  have pod: "R s s1" if "ps_pod ps e due v s = (r, s1)" for e due r s1 using assms(3) [of s e due v] that by simp
  have "R s (ps_giveUp ps t s1)" if "ps_pod ps e due v s = (r, s1)" for e due r s1 t using assms(2) [OF pod [OF that] assms(4)] .
  then show ?thesis using pod assms(1) by (auto simp: ask_pod_def Let_def split: option.splits prod.splits)
qed

lemma plan_loop_rel:
  assumes "\<And>s. R s s" "\<And>a b c. R a b \<Longrightarrow> R b c \<Longrightarrow> R a c"
    and "\<And>e due v s. R s (snd (ps_pod ps e due v s))" "\<And>t s. R s (ps_giveUp ps t s)"
  shows "plan_loop cfg entries ps env now stop ts p s = (out, s') \<Longrightarrow> R s s'"
proof (induction out arbitrary: ts p s)
  case Nil
  have ask: "R s (snd (ask_pod cfg ps now v ts eo s))" for s v ts eo by (rule ask_pod_rel [where R = R]) (fact assms)+
  from Nil show ?case
  proof (cases rule: plan_loop_elim)
    case held
    then show ?thesis using ask [of s "env ts" ts "findEntry entries ts"] by simp
  qed (use assms(1) in simp_all)
next
  case (Cons c out)
  have ask: "R s (snd (ask_pod cfg ps now v ts eo s))" for s v ts eo by (rule ask_pod_rel [where R = R]) (fact assms)+
  from Cons.prems show ?case
  proof (cases rule: plan_loop_elim)
    case (clip pod s1 out')
    have "R s s1" using ask [of s "env ts" ts "findEntry entries ts"] clip(2) by simp
    then show ?thesis using Cons.IH clip(3,4) assms(2) by blast
  qed simp_all
qed

lemma plan_of_same:
  assumes "plan_of cfg v slot e = (plan, e')"
  shows "same_air e e'" "en_st e' = en_st e" "en_lastTried e' = en_lastTried e" "en_entries e' = en_entries e"
    "\<exists>s'. buildPlan slot cfg (en_entries e) (notifyingPods any_source (ads_fallback cfg (tv_clock v))) (tv_pods v) (en_pods e, en_out e) = (plan, s')"
proof -
  let ?src = "notifyingPods any_source (ads_fallback cfg (tv_clock v))"
  obtain p ob where b: "buildPlan slot cfg (en_entries e) ?src (tv_pods v) (en_pods e, en_out e) = (plan, (p, ob))"
    using assms by (auto simp: plan_of_def Let_def split: prod.splits)
  have e': "e' = e\<lparr>en_pods := any_evict slot p, en_out := ob\<rparr>" using assms b by (simp add: plan_of_def Let_def notifyingPods_def any_source_def)
  have "quiet_after (snd (en_pods e, en_out e)) (snd (p, ob))"
    by (rule plan_loop_rel [OF _ _ _ _ b [unfolded buildPlan_def], of "\<lambda>a b. quiet_after (snd a) (snd b)"])
      (auto simp: notifyingPods_def ads_fallback_def quiet_send split: prod.splits intro: quiet_after_trans)
  then show "same_air e e'" unfolding e' by (simp add: same_air_def)
  show "en_st e' = en_st e" "en_lastTried e' = en_lastTried e" "en_entries e' = en_entries e" unfolding e' by simp_all
  show "\<exists>s'. buildPlan slot cfg (en_entries e) ?src (tv_pods v) (en_pods e, en_out e) = (plan, s')" using b by blast
qed

lemma report_same:
  "same_air e (report cfg v c f e)" "en_st (report cfg v c f e) = en_st e" "en_lastTried (report cfg v c f e) = en_lastTried e"
  by (auto simp: report_def sourceFailed_def Let_def same_air_def quiet_send split: prod.splits)

lemma reports_same_air: "same_air e (fold (report cfg v c) fs e)"
proof (induction fs arbitrary: e)
  case (Cons f fs)
  show ?case using same_air_trans [OF report_same(1) Cons.IH] by simp
qed simp

lemma reports_same: "en_st (fold (report cfg v c) fs e) = en_st e" "en_lastTried (fold (report cfg v c) fs e) = en_lastTried e"
  by (induction fs arbitrary: e) (simp_all add: report_same)

lemma stitch_run_trans: "stitch_run cfg s2 s3 \<Longrightarrow> stitch_run cfg s1 s2 \<Longrightarrow> stitch_run cfg s1 s3"
  by (induction rule: stitch_run.induct) (auto intro: stitch_add)

definition tick_ok :: "tick_env \<Rightarrow> bool" where
  "tick_ok v \<longleftrightarrow> (\<forall>t. sources_ok (tv_sources v t))"

lemma release_loop_runs:
  "release_loop cfg v rel cs (n, e) = (n', e') \<Longrightarrow> tick_ok v \<Longrightarrow> list_all clip_ok cs
    \<Longrightarrow> stitch_run cfg (en_st e) (en_st e') \<and> same_air e e'"
proof (induction cs arbitrary: n e)
  case (Cons c cs)
  show ?case
  proof (cases "ci_StartAt c > rel \<or> \<not> ci_StartAt c > en_lastTried e \<or> tv_over v (ci_StartAt c)")
    case True
    then show ?thesis using Cons by (auto intro: stitch_start split: if_splits)
  next
    case False
    obtain ok fs st where a: "add (tv_sources v (ci_StartAt c)) (tv_io v (ci_StartAt c)) cfg c (en_st e) = (ok, fs, st)" by (metis prod_cases3)
    let ?e1 = "e\<lparr>en_lastTried := ci_StartAt c, en_st := st\<rparr>"
    have r: "release_loop cfg v rel cs (if ok then n + 1 else n, fold (report cfg v c) fs ?e1) = (n', e')" using Cons.prems(1) False a by simp
    have "stitch_run cfg (en_st e) st" using stitch_add [OF stitch_start _ _ a] Cons.prems(2,3) by (simp add: tick_ok_def)
    moreover have "same_air e (fold (report cfg v c) fs ?e1)" using same_air_trans [OF _ reports_same_air] by (simp add: same_air_def)
    ultimately show ?thesis using Cons.IH [OF r Cons.prems(2)] Cons.prems(3) stitch_run_trans same_air_trans by (simp add: reports_same) blast
  qed
qed (auto intro: stitch_start)

subsection \<open>A whole step\<close>

definition slot_of :: "Config \<Rightarrow> gtime \<Rightarrow> gtime" where
  "slot_of cfg now = Truncate now (seconds (cfg_SegmentSec cfg))"

lemma tick_cases:
  obtains plan e2 n e3 e4 where "plan_of cfg v (slot_of cfg now) (refresh cfg v now (slot_of cfg now) e) = (plan, e2)"
    "release_loop cfg v (now + seconds (cfg_LiveLeadS cfg)) plan (0, e2) = (n, e3)" "e4 = (if n > 0 then writePlaylist cfg v e3 else e3)"
    "tick cfg v now e = update_state cfg v (slot_of cfg now) plan (announce_now cfg v now e4)"
proof -
  let ?slot = "slot_of cfg now"
  obtain plan e2 where p: "plan_of cfg v ?slot (refresh cfg v now ?slot e) = (plan, e2)" by (metis surj_pair)
  obtain n e3 where r: "release_loop cfg v (now + seconds (cfg_LiveLeadS cfg)) plan (0, e2) = (n, e3)" by (metis surj_pair)
  show thesis by (rule that [OF p r refl]) (use p r in \<open>simp add: tick_def slot_of_def Let_def\<close>)
qed

lemma update_state_fields [simp]:
  "en_st (update_state cfg v slot plan e) = en_st e" "en_out (update_state cfg v slot plan e) = en_out e" "en_onAir (update_state cfg v slot plan e) = en_onAir e"
  "en_lastTried (update_state cfg v slot plan e) = en_lastTried e" "en_media (update_state cfg v slot plan e) = en_media e"
  by (simp_all add: update_state_def Let_def)

lemma announce_now_fields [simp]:
  "en_st (announce_now cfg v now e) = en_st e" "en_lastTried (announce_now cfg v now e) = en_lastTried e" "en_media (announce_now cfg v now e) = en_media e"
  by (simp_all add: announce_now_def split: prod.splits)

lemma writePlaylist_fields [simp]:
  "en_st (writePlaylist cfg v e) = en_st e" "en_lastTried (writePlaylist cfg v e) = en_lastTried e" "en_out (writePlaylist cfg v e) = en_out e"
  "en_onAir (writePlaylist cfg v e) = en_onAir e" "en_announcedTo (writePlaylist cfg v e) = en_announcedTo e"
  by (simp_all add: writePlaylist_def)

lemma slot_facts:
  assumes "cfg_SegmentSec cfg = SegmentSec" "second \<le> now"
  shows "slot_of cfg now \<le> now" "now < slot_of cfg now + second" "0 < Unix (slot_of cfg now)" "zero_time < slot_of cfg now"
proof -
  have slot: "slot_of cfg now = Truncate now (1 * second)" using assms(1) by (simp add: slot_of_def SegmentSec_def)
  show b: "slot_of cfg now \<le> now" "now < slot_of cfg now + second" using Truncate_bounds [of second now] unfolding slot by simp_all
  have "whole (slot_of cfg now)" unfolding slot by (rule whole_Truncate) simp
  then obtain k where k: "slot_of cfg now = k * second" unfolding whole_iff by blast
  then have "0 < k" using b assms(2) by simp
  then show "0 < Unix (slot_of cfg now)" "zero_time < slot_of cfg now" unfolding k by (simp_all add: Unix_def zero_time_def)
qed

lemma plan_clips_ok:
  assumes "buildPlan (slot_of cfg now) cfg entries ps env s = (plan, s')" "cfg_SegmentSec cfg = SegmentSec" "second \<le> now"
  shows "list_all clip_ok plan"
proof -
  note f = slot_facts [OF assms(2,3)]
  have "clip_ok (plan ! i)" if "i < length plan" for i
    using buildPlan_clips [OF assms(1,2) that] f by (simp add: clip_ok_def SegmentSec_def add_strict_increasing)
  then show ?thesis by (simp add: list_all_length)
qed

lemma announce_now_heard:
  assumes "window_ok cfg (en_st e)"
  shows "\<exists>ns. ob_log (en_out (announce_now cfg v now e)) = ob_log (en_out e) @ ns \<and>
    hear_all ns (air_of (en_onAir e)) = Some (air_of (en_onAir (announce_now cfg v now e)))"
proof -
  let ?its = "wi_Items (st_win (en_st e))"
  have srt: "by_time ?its" using assms by (simp add: window_ok_def Let_def)
  let ?due = "filter (\<lambda>it. sm_Kind it \<noteq> '''') (due_items (en_announcedTo e) now ?its)"
  obtain ns cur where t: "transitions ?due (en_onAir e) = (ns, cur)" by (metis surj_pair)
  have "hear_all ns (air_of (en_onAir e)) = Some (air_of cur)" by (rule transitions_heard [OF t]) simp
  then show ?thesis using announce_due [OF srt, of now "en_announcedTo e" "en_onAir e"] t by (simp add: announce_now_def)
qed

definition config_ok :: "Config \<Rightarrow> bool" where
  "config_ok cfg \<longleftrightarrow> cfg_SegmentSec cfg = SegmentSec \<and> 0 < cfg_PlaylistWindowMax cfg"

lemma tick_step:
  assumes "config_ok cfg" "tick_ok v" "second \<le> now" "window_ok cfg (en_st e)" "files_ok (en_st e)"
  shows "stitch_run cfg (en_st e) (en_st (tick cfg v now e))"
    "\<exists>ns. ob_log (en_out (tick cfg v now e)) = ob_log (en_out e) @ ns \<and> hear_all ns (air_of (en_onAir e)) = Some (air_of (en_onAir (tick cfg v now e)))"
proof -
  obtain plan e2 n e3 e4 where p: "plan_of cfg v (slot_of cfg now) (refresh cfg v now (slot_of cfg now) e) = (plan, e2)"
    and r: "release_loop cfg v (now + seconds (cfg_LiveLeadS cfg)) plan (0, e2) = (n, e3)" and e4: "e4 = (if n > 0 then writePlaylist cfg v e3 else e3)"
    and t: "tick cfg v now e = update_state cfg v (slot_of cfg now) plan (announce_now cfg v now e4)" by (rule tick_cases)
  have "list_all clip_ok plan" using plan_of_same(5) [OF p] plan_clips_ok assms(1,3) by (auto simp: config_ok_def)
  note rl = release_loop_runs [OF r assms(2) this]
  have run: "stitch_run cfg (en_st e) (en_st e3)" using rl plan_of_same(2) [OF p] by (simp add: refresh_same)
  then show "stitch_run cfg (en_st e) (en_st (tick cfg v now e))" unfolding t e4 by simp
  have same: "same_air e e4" using rl same_air_trans [OF same_air_trans [OF refresh_same(1) plan_of_same(1) [OF p]]] unfolding e4 by (auto simp: same_air_def)
  have "window_ok cfg (en_st e4)" using stitch_run_ok [OF run assms(4,5)] assms(1) unfolding e4 by (simp add: config_ok_def)
  then obtain ns where ns: "ob_log (en_out (announce_now cfg v now e4)) = ob_log (en_out e4) @ ns"
      "hear_all ns (air_of (en_onAir e4)) = Some (air_of (en_onAir (announce_now cfg v now e4)))" using announce_now_heard by blast
  obtain qs where qs: "quiet qs" "ob_log (en_out e4) = ob_log (en_out e) @ qs" using same by (auto simp: same_air_def quiet_after_def)
  have "en_onAir e4 = en_onAir e" using same by (simp add: same_air_def)
  then show "\<exists>ns. ob_log (en_out (tick cfg v now e)) = ob_log (en_out e) @ ns \<and> hear_all ns (air_of (en_onAir e)) = Some (air_of (en_onAir (tick cfg v now e)))"
    using ns qs unfolding t by (intro exI [of _ "qs @ ns"]) (simp add: hear_all_append hear_quiet)
qed

subsection \<open>Runs\<close>

text \<open>Ticks, requests for ad pods that end between ticks, and listeners that subscribe, read and go.\<close>

inductive engine_run :: "Config \<Rightarrow> engine \<Rightarrow> engine \<Rightarrow> bool" for cfg :: Config and e0 :: engine where
  engine_start: "engine_run cfg e0 e0"
| engine_tick: "engine_run cfg e0 e \<Longrightarrow> tick_ok v \<Longrightarrow> second \<le> now \<Longrightarrow> engine_run cfg e0 (tick cfg v now e)"
| engine_pods: "engine_run cfg e0 e \<Longrightarrow> engine_run cfg e0 (e\<lparr>en_pods := any_bg w (en_pods e)\<rparr>)"
| engine_hub: "engine_run cfg e0 e \<Longrightarrow> hub_run a (ob_hub (en_out e)) [] got h \<Longrightarrow> engine_run cfg e0 (e\<lparr>en_out := (en_out e)\<lparr>ob_hub := h\<rparr>\<rparr>)"

lemma engine_run_step:
  assumes "engine_run cfg e0 e" "config_ok cfg" "window_ok cfg (en_st e0)" "files_ok (en_st e0)"
  shows "stitch_run cfg (en_st e0) (en_st e) \<and>
    (\<exists>ns. ob_log (en_out e) = ob_log (en_out e0) @ ns \<and> hear_all ns (air_of (en_onAir e0)) = Some (air_of (en_onAir e)))"
  using assms(1)
proof (induction rule: engine_run.induct)
  case engine_start
  then show ?case by (auto intro: stitch_start)
next
  case (engine_tick e v now)
  then obtain ns where run: "stitch_run cfg (en_st e0) (en_st e)" and ns: "ob_log (en_out e) = ob_log (en_out e0) @ ns"
    "hear_all ns (air_of (en_onAir e0)) = Some (air_of (en_onAir e))" by blast
  have ok: "window_ok cfg (en_st e)" "files_ok (en_st e)" using stitch_run_ok [OF run assms(3,4)] assms(2) by (simp_all add: config_ok_def)
  note t = tick_step [OF assms(2) engine_tick.hyps(2,3) ok]
  obtain ms where ms: "ob_log (en_out (tick cfg v now e)) = ob_log (en_out e) @ ms" "hear_all ms (air_of (en_onAir e)) = Some (air_of (en_onAir (tick cfg v now e)))"
    using t(2) by blast
  show ?case using stitch_run_trans [OF t(1) run] ns ms by (intro conjI exI [of _ "ns @ ms"]) (simp_all add: hear_all_append)
qed simp_all

lemma new_engine_fields [simp]:
  "en_st (newEngine cfg wall files media) = newStitcher cfg files" "ob_log (en_out (newEngine cfg wall files media)) = []"
  "en_onAir (newEngine cfg wall files media) = zero_onAir" "air_of zero_onAir = Off"
  by (simp_all add: newEngine_def air_of_def zero_onAir_def)

lemma new_engine_run:
  assumes "engine_run cfg (newEngine cfg wall files media) e" "config_ok cfg"
  shows "stitch_run cfg (newStitcher cfg files) (en_st e)" "hear_all (ob_log (en_out e)) Off = Some (air_of (en_onAir e))"
  using engine_run_step [OF assms] new_stitcher_ok [of cfg files] assms(2) by (auto simp: config_ok_def)

subsection \<open>The playlist keeps up\<close>

lemma release_append:
  "\<forall>t. \<not> tv_over v t \<Longrightarrow> release_loop cfg v rel (xs @ ys) st = release_loop cfg v rel ys (release_loop cfg v rel xs st)"
  by (induction xs arbitrary: st) (auto split: prod.splits)

lemma release_skip: "\<forall>c \<in> set cs. rel < ci_StartAt c \<Longrightarrow> release_loop cfg v rel cs st = st"
  by (induction cs arbitrary: st) auto

lemma add_lastStart: "add so io cfg c s = (ok, fs, s') \<Longrightarrow> st_lastStart s' = (if ok then ci_StartAt c else st_lastStart s)"
  by (cases ok) (auto elim!: add_True add_False)

lemma release_before:
  "release_loop cfg v rel xs (n, e) = (n', e') \<Longrightarrow> \<forall>c \<in> set xs. ci_StartAt c < T \<Longrightarrow> en_lastTried e < T \<Longrightarrow> st_lastStart (en_st e) < T
    \<Longrightarrow> en_lastTried e' < T \<and> st_lastStart (en_st e') < T \<and> n \<le> n'"
proof (induction xs arbitrary: n e)
  case (Cons c xs)
  show ?case
  proof (cases "ci_StartAt c > rel \<or> \<not> ci_StartAt c > en_lastTried e \<or> tv_over v (ci_StartAt c)")
    case True
    then show ?thesis using Cons by (auto split: if_splits)
  next
    case False
    obtain ok fs st where a: "add (tv_sources v (ci_StartAt c)) (tv_io v (ci_StartAt c)) cfg c (en_st e) = (ok, fs, st)" by (metis prod_cases3)
    let ?e1 = "fold (report cfg v c) fs (e\<lparr>en_lastTried := ci_StartAt c, en_st := st\<rparr>)"
    have r: "release_loop cfg v rel xs (if ok then n + 1 else n, ?e1) = (n', e')" using Cons.prems(1) False a by simp
    have "en_lastTried ?e1 < T" "st_lastStart (en_st ?e1) < T" using Cons.prems(2,4) add_lastStart [OF a] by (simp_all add: reports_same)
    then show ?thesis using Cons.IH [OF r] Cons.prems(2) by (auto split: if_splits)
  qed
qed simp

lemma release_tried:
  "release_loop cfg v rel xs (n, e) = (n', e') \<Longrightarrow> st_lastStart (en_st e) \<le> en_lastTried e \<Longrightarrow> st_lastStart (en_st e') \<le> en_lastTried e'"
proof (induction xs arbitrary: n e)
  case (Cons c xs)
  show ?case
  proof (cases "ci_StartAt c > rel \<or> \<not> ci_StartAt c > en_lastTried e \<or> tv_over v (ci_StartAt c)")
    case True
    then show ?thesis using Cons by (auto split: if_splits)
  next
    case False
    obtain ok fs st where a: "add (tv_sources v (ci_StartAt c)) (tv_io v (ci_StartAt c)) cfg c (en_st e) = (ok, fs, st)" by (metis prod_cases3)
    let ?e1 = "fold (report cfg v c) fs (e\<lparr>en_lastTried := ci_StartAt c, en_st := st\<rparr>)"
    have r: "release_loop cfg v rel xs (if ok then n + 1 else n, ?e1) = (n', e')" using Cons.prems(1) False a by simp
    show ?thesis using Cons.IH [OF r] Cons.prems(2) False add_lastStart [OF a] by (simp add: reports_same)
  qed
qed simp

lemma tick_tried:
  assumes "st_lastStart (en_st e) \<le> en_lastTried e"
  shows "st_lastStart (en_st (tick cfg v now e)) \<le> en_lastTried (tick cfg v now e)"
proof -
  obtain plan e2 n e3 e4 where p: "plan_of cfg v (slot_of cfg now) (refresh cfg v now (slot_of cfg now) e) = (plan, e2)"
    and r: "release_loop cfg v (now + seconds (cfg_LiveLeadS cfg)) plan (0, e2) = (n, e3)" and e4: "e4 = (if n > 0 then writePlaylist cfg v e3 else e3)"
    and t: "tick cfg v now e = update_state cfg v (slot_of cfg now) plan (announce_now cfg v now e4)" by (rule tick_cases)
  have "st_lastStart (en_st e2) \<le> en_lastTried e2" using assms plan_of_same(2,3) [OF p] by (simp add: refresh_same)
  then show ?thesis using release_tried [OF r] unfolding t e4 by simp
qed

lemma engine_run_tried:
  "engine_run cfg (newEngine cfg wall files media) e \<Longrightarrow> st_lastStart (en_st e) \<le> en_lastTried e"
  by (induction rule: engine_run.induct) (simp_all add: tick_tried, simp add: newEngine_def newStitcher_def)

text \<open>The slate can be prepared and written for every second that is due.\<close>

definition slate_works :: "Config \<Rightarrow> tick_env \<Rightarrow> gtime \<Rightarrow> bool" where
  "slate_works cfg v slot \<longleftrightarrow>
     cfg_SlateURI cfg \<noteq> '''' \<and>
     (\<forall>i \<le> nat (cfg_LiveLeadS cfg). let t = slot + int i * second in
        \<not> isl (prepare (tv_sources v t) cfg (cfg_SlateURI cfg) (Unix t) True t) \<and> io_mkdir (tv_io v t) \<and> io_init (tv_io v t) \<and> io_seg (tv_io v t))"

lemma slate_add_ok:
  assumes "\<not> isl (prepare so cfg (cfg_SlateURI cfg) (Unix (ci_StartAt c)) True (ci_StartAt c))" "cfg_SlateURI cfg \<noteq> ''''"
    and "io_mkdir io" "io_init io" "io_seg io" "IsZero (st_lastStart s) \<or> st_lastStart s < ci_StartAt c"
    and "ci_Type c = ''slate'' \<Longrightarrow> ci_URI c = cfg_SlateURI cfg \<and> ci_OffsetS c = Unix (ci_StartAt c)" "ci_URI c = cfg_SlateURI cfg \<Longrightarrow> ci_Type c = ''slate''"
  shows "fst (add so io cfg c s)"
proof -
  let ?own = "prepare so cfg (ci_URI c) (ci_OffsetS c) (ci_Type c = ''slate'') (ci_StartAt c)"
  obtain rt where rt: "prepare so cfg (cfg_SlateURI cfg) (Unix (ci_StartAt c)) True (ci_StartAt c) = Inr rt"
    using assms(1) by (cases "prepare so cfg (cfg_SlateURI cfg) (Unix (ci_StartAt c)) True (ci_StartAt c)") auto
  have "\<exists>rt'. ?own = Inr rt' \<or> isl ?own \<and> ci_Type c \<noteq> ''slate'' \<and> cfg_SlateURI cfg \<notin> {'''', ci_URI c} \<and>
      prepare so cfg (cfg_SlateURI cfg) (Unix (ci_StartAt c)) True (ci_StartAt c) = Inr rt'"
  proof (cases "ci_Type c = ''slate''")
    case True
    then show ?thesis using assms(7) rt by auto
  next
    case False
    then have "cfg_SlateURI cfg \<notin> {'''', ci_URI c}" using assms(2,8) by auto
    then show ?thesis using False rt by (cases ?own) (auto simp del: insert_iff)
  qed
  then show ?thesis unfolding add_ok_iff using assms(3-6) by blast
qed

lemma release_reaches:
  assumes "buildPlan slot cfg entries ps env s = (plan, s')" "cfg_SegmentSec cfg = SegmentSec" "0 \<le> cfg_LiveLeadS cfg" "cfg_LiveLeadS cfg < ahead_of cfg"
    and "ahead_of cfg \<le> max_seconds" "slot \<le> now" "now < slot + second" "\<forall>t. \<not> tv_over v t" "slate_works cfg v slot"
    and "\<forall>c \<in> set plan. ci_URI c = cfg_SlateURI cfg \<longrightarrow> ci_Type c = ''slate''"
    and "release_loop cfg v (now + seconds (cfg_LiveLeadS cfg)) plan (0, e) = (n, e')"
    and "en_lastTried e < slot + cfg_LiveLeadS cfg * second" "st_lastStart (en_st e) < slot + cfg_LiveLeadS cfg * second"
  shows "0 < n \<and> st_lastStart (en_st e') = slot + cfg_LiveLeadS cfg * second"
proof -
  define k where "k = nat (cfg_LiveLeadS cfg)"
  have lead: "cfg_LiveLeadS cfg = int k" using assms(3) by (simp add: k_def)
  have rel: "now + seconds (cfg_LiveLeadS cfg) = now + int k * second" using assms(3-5) by (simp add: lead)
  note clips = buildPlan_clips [OF assms(1,2)]
  have k: "k < length plan" using buildPlan_lead [OF assms(1-5)] lead by simp
  have split: "plan = take k plan @ plan ! k # drop (Suc k) plan" using k by (simp add: id_take_nth_drop)
  let ?c = "plan ! k" and ?T = "slot + int k * second" and ?rel = "now + int k * second"
  have c: "ci_StartAt ?c = ?T" using clips [OF k] by simp
  obtain n1 e1 where r1: "release_loop cfg v ?rel (take k plan) (0, e) = (n1, e1)" by (metis surj_pair)
  have "\<forall>d \<in> set (take k plan). ci_StartAt d < ?T" using clips by (auto simp: in_set_conv_nth)
  from release_before [OF r1 this] have e1: "en_lastTried e1 < ?T" "st_lastStart (en_st e1) < ?T" using assms(12,13) lead by simp_all
  have late: "\<forall>d \<in> set (drop (Suc k) plan). ?rel < ci_StartAt d"
  proof
    fix d assume "d \<in> set (drop (Suc k) plan)"
    then obtain j where "j < length plan - Suc k" "d = plan ! (Suc k + j)" by (auto simp: in_set_conv_nth)
    then have "ci_StartAt d = slot + int (Suc k + j) * second" using clips [of "Suc k + j"] by simp
    then show "?rel < ci_StartAt d" using assms(7) by simp
  qed
  obtain ok fs st where a: "add (tv_sources v ?T) (tv_io v ?T) cfg ?c (en_st e1) = (ok, fs, st)" by (metis prod_cases3)
  have "fst (add (tv_sources v ?T) (tv_io v ?T) cfg ?c (en_st e1))"
  proof (rule slate_add_ok)
    show "ci_Type ?c = ''slate'' \<Longrightarrow> ci_URI ?c = cfg_SlateURI cfg \<and> ci_OffsetS ?c = Unix (ci_StartAt ?c)"
      using plan_loop_slate [OF assms(1) [unfolded buildPlan_def] nth_mem [OF k]] by blast
    show "ci_URI ?c = cfg_SlateURI cfg \<Longrightarrow> ci_Type ?c = ''slate''" using assms(10) k by simp
  qed (use assms(9) e1(2) c in \<open>auto simp: slate_works_def Let_def k_def [symmetric]\<close>)
  then have ok: "ok" using a by simp
  have "release_loop cfg v ?rel (take k plan @ ?c # drop (Suc k) plan) (0, e) =
      release_loop cfg v ?rel (drop (Suc k) plan) (n1 + 1, fold (report cfg v ?c) fs (e1\<lparr>en_lastTried := ?T, en_st := st\<rparr>))"
    unfolding release_append [OF assms(8)] r1 using e1(1) c a ok assms(6,8) by simp
  then have "release_loop cfg v ?rel plan (0, e) = release_loop cfg v ?rel (drop (Suc k) plan) (n1 + 1, fold (report cfg v ?c) fs (e1\<lparr>en_lastTried := ?T, en_st := st\<rparr>))"
    unfolding split [symmetric] .
  also have "\<dots> = (n1 + 1, fold (report cfg v ?c) fs (e1\<lparr>en_lastTried := ?T, en_st := st\<rparr>))" by (rule release_skip [OF late])
  finally have "n = n1 + 1" "en_st e' = st" using assms(11) unfolding rel by (auto simp: reports_same)
  then show ?thesis using add_lastStart [OF a] ok c lead by simp
qed

subsection \<open>Properties\<close>



lemma stitch_run_nonempty:
  "stitch_run cfg s0 s \<Longrightarrow> s0 = newStitcher cfg files \<Longrightarrow> 0 < cfg_PlaylistWindowMax cfg \<Longrightarrow> wi_Items (st_win s) \<noteq> [] \<or> IsZero (st_lastStart s)"
proof (induction rule: stitch_run.induct)
  case stitch_start
  then show ?case by (simp add: newStitcher_def)
next
  case (stitch_add s1 c so io ok fs s2)
  show ?case
  proof (cases ok)
    case True
    then have t: "add so io cfg c s1 = (True, fs, s2)" using stitch_add.hyps(4) by simp
    have "wi_MaxSize (st_win s1) = cfg_PlaylistWindowMax cfg"
      using stitch_run_ok [OF stitch_add.hyps(1)] new_stitcher_ok [of cfg files] stitch_add.prems by (simp add: window_ok_def Let_def)
    then have "wi_Items (st_win s2) \<noteq> []" using t stitch_add.prems append_segment_last by (auto elim!: add_True)
    then show ?thesis by simp
  next
    case False
    then show ?thesis using stitch_add by (auto elim!: add_False)
  qed
qed


text \<open>C15. A channel survives a restart: an engine that takes over the files and the playlist that another one left goes on with the same
  numbers and times, and all it ever does keeps the playlist well-formed and complete and the events consistent.\<close>

theorem engine_survives_restart:
  assumes "engine_run cfg (newEngine cfg wall files media) e" and "config_ok cfg"
    and "window_text_ok cfg (st_win (en_st e))" "en_media e = Some (renderMediaPlaylist cfg (st_win (en_st e)))"
    and "prepare_engine cfg True clock (newEngine cfg wall2 (st_files (en_st e)) (en_media e)) = Some e1" and "engine_run cfg e1 e2"
  shows "wi_Items (st_win (en_st e1)) = map written (wi_Items (st_win (en_st e))) \<and>
    window_ok cfg (en_st e2) \<and> files_ok (en_st e2) \<and> st_nextSeq (en_st e) \<le> st_nextSeq (en_st e2) \<and> st_lastStart (en_st e) \<le> st_lastStart (en_st e2) \<and>
    hear_all (ob_log (en_out e2)) Off = Some (air_of (en_onAir e2))"
proof -
  have max: "0 < cfg_PlaylistWindowMax cfg" using assms(2) by (simp add: config_ok_def)
  note ok = new_run_ok(1,2) [OF new_engine_run(1) [OF assms(1,2)] max]
  note rs = restart_facts [OF ok assms(3)]
  have e1: "en_st e1 = restart cfg (en_media e) (newStitcher cfg (st_files (en_st e)))" "en_onAir e1 = zero_onAir"
      "\<exists>n. ob_log (en_out e1) = [n] \<and> fst n = ''engine.started''"
    using assms(5) by (auto simp: prepare_engine_def Let_def send_def newEngine_def)
  obtain n where n: "ob_log (en_out e1) = [n]" "fst n = ''engine.started''" using e1(3) by blast
  have ok1: "window_ok cfg (en_st e1)" "files_ok (en_st e1)" "wi_Items (st_win (en_st e1)) = map written (wi_Items (st_win (en_st e)))"
      "st_nextSeq (en_st e1) = st_nextSeq (en_st e)" "st_lastStart (en_st e1) = st_lastStart (en_st e)"
    using rs unfolding e1(1) assms(4) by blast+
  note run = engine_run_step [OF assms(6,2) ok1(1,2)]
  obtain ns where ns: "ob_log (en_out e2) = ob_log (en_out e1) @ ns" "hear_all ns (air_of (en_onAir e1)) = Some (air_of (en_onAir e2))" using run by blast
  have "hear_all [n] Off = Some Off" using n(2) by (intro hear_quiet) (simp add: quiet_def)
  then have "hear_all (ob_log (en_out e2)) Off = Some (air_of (en_onAir e2))" unfolding ns(1) n(1) hear_all_append using ns(2) e1(2) by (simp del: hear_all.simps)
  moreover have "wi_Items (st_win (en_st e1)) \<noteq> []" using ok1(3) assms(3) by (simp add: window_text_ok_def)
  ultimately show ?thesis
    using stitch_run_ok [OF conjunct1 [OF run] ok1(1,2) max] stitch_run_mono [OF conjunct1 [OF run] ok1(1,2) max] ok1(3-5) by simp
qed

subsection \<open>An engine that plays the slate\<close>

definition w_ecfg :: Config where
  "w_ecfg = default_config\<lparr>cfg_LiveLeadS := 0, cfg_PublishAheadS := 1, cfg_SlateURI := ''a.m3u8''\<rparr>"

definition w_now :: gtime where "w_now = 1767836805 * second"

definition w_venv :: tick_env where
  "w_venv = \<lparr>tv_read = Inr [], tv_pods = (\<lambda>_. \<lparr>ae_broker = w_env, ae_registry = None\<rparr>), tv_sources = (\<lambda>_. w_sources), tv_io = (\<lambda>_. w_io),
     tv_over = (\<lambda>_. False), tv_media_ok = True, tv_clock = (\<lambda>_. w_now), tv_written = w_now, tv_done = w_now, tv_text = (\<lambda>_. '''')\<rparr>"

abbreviation w_engine :: engine where "w_engine \<equiv> newEngine w_ecfg 0 (\<lambda>_. None) None"
abbreviation w_played :: engine where "w_played \<equiv> tick w_ecfg w_venv w_now w_engine"

lemma w_ecfg_facts [simp]:
  "cfg_SegmentSec w_ecfg = SegmentSec" "cfg_PlaylistWindowMax w_ecfg = 180" "cfg_LiveLeadS w_ecfg = 0" "ahead_of w_ecfg = 1" "cfg_SlateURI w_ecfg = ''a.m3u8''"
  "config_ok w_ecfg" "tick_ok w_venv"
  using w_sources_ok by (simp_all add: w_ecfg_def default_config_def ahead_of_def config_ok_def tick_ok_def w_venv_def)

lemma w_slot: "slot_of w_ecfg w_now = w_now"
  by (simp add: slot_of_def SegmentSec_def Truncate_def w_now_def zero_time_def)

lemma w_slate_prepare:
  "\<exists>out. prepare w_sources w_ecfg ''a.m3u8'' (Unix w_now) True w_now =
    Inr \<lparr>rt_meta = zero_meta\<lparr>sm_Duration := 1, sm_URI := ''5.m4s'', sm_MapURI := ''init.mp4'', sm_src := ''a.m3u8'', sm_idx := 5\<rparr>,
         rt_seg = out, rt_init = [7], rt_initName = ''init_ab.mp4'', rt_slate = False\<rparr>"
proof -
  have t: "new_time w_traf 190000005 5 (1 / 4) 5020 = Inr 190000005020" by (simp add: new_time_def w_traf_def Let_def)
  have f: "tf_version w_traf = 1" "tf_tfdtBase w_traf = 40" by (simp_all add: w_traf_def)
  obtain out where out: "Retime w_seg w_init 190000005 5 gridTolerance = Inr out"
    unfolding Retime_def w_walk bindE_simps gridTolerance_def retime_loop.simps f by (simp add: w_old w_length t)
  have u: "Unix w_now = 1767836805" "Unix w_now - timelineEpoch = 190000005" by (simp_all add: Unix_def w_now_def timelineEpoch_def)
  have "lookup w_sources ''a.m3u8'' (Unix w_now) True (cfg_SegmentSec w_ecfg) (cfg_DurationTolerance w_ecfg) =
      Inr (zero_meta\<lparr>sm_Duration := 1, sm_URI := ''5.m4s'', sm_MapURI := ''init.mp4'', sm_src := ''a.m3u8'', sm_idx := 5\<rparr>)"
    unfolding u by (simp add: lookup_def w_sources_def SegmentSec_def Let_def w_ecfg_def default_config_def)
  then show ?thesis using out unfolding prepare_def u(2) by (simp add: w_sources_def zero_meta_def SegmentSec_def)
qed

lemma w_plan:
  "\<exists>e2. plan_of w_ecfg w_venv w_now (refresh w_ecfg w_venv w_now w_now w_engine) = ([(to_slate w_ecfg (base_clip w_ecfg w_now))\<lparr>ci_OffsetS := Unix w_now, ci_Title := ''slate''\<rparr>], e2)"
proof -
  have e: "en_entries (refresh w_ecfg w_venv w_now w_now w_engine) = []" by (simp add: refresh_def newEngine_def w_venv_def)
  have plan: "fst (buildPlan w_now w_ecfg [] ps env s) = [(to_slate w_ecfg (base_clip w_ecfg w_now))\<lparr>ci_OffsetS := Unix w_now, ci_Title := ''slate''\<rparr>]" for ps env s
    by (simp add: buildPlan_def plan_loop.simps findEntry_def ask_pod_def SegmentSec_def Let_def entry_clip_def mark_boundary_def to_slate_def)
  obtain x p ob where b: "buildPlan w_now w_ecfg [] (notifyingPods any_source (ads_fallback w_ecfg (tv_clock w_venv))) (tv_pods w_venv)
      (en_pods (refresh w_ecfg w_venv w_now w_now w_engine), en_out (refresh w_ecfg w_venv w_now w_now w_engine)) = (x, p, ob)" by (metis prod_cases3)
  then show ?thesis unfolding plan_of_def Let_def e b using plan arg_cong [OF b, of fst] by (auto split: prod.splits)
qed

lemma w_slate_works: "slate_works w_ecfg w_venv w_now"
  using w_slate_prepare by (auto simp: slate_works_def Let_def w_venv_def w_io_def)

lemma w_played_run: "engine_run w_ecfg w_engine w_played"
  by (rule engine_tick [OF engine_start]) (simp_all add: w_now_def)




abbreviation w_slate_clip :: ClipItem where
  "w_slate_clip \<equiv> (to_slate w_ecfg (base_clip w_ecfg w_now))\<lparr>ci_OffsetS := Unix w_now, ci_Title := ''slate''\<rparr>"

lemma w_played_st: "\<exists>fs. add w_sources w_io w_ecfg w_slate_clip (newStitcher w_ecfg (\<lambda>_. None)) = (True, fs, en_st w_played)"
proof -
  let ?c = w_slate_clip and ?s = "newStitcher w_ecfg (\<lambda>_. None)"
  obtain plan e2 n e3 e4 where p: "plan_of w_ecfg w_venv (slot_of w_ecfg w_now) (refresh w_ecfg w_venv w_now (slot_of w_ecfg w_now) w_engine) = (plan, e2)"
    and r: "release_loop w_ecfg w_venv (w_now + seconds (cfg_LiveLeadS w_ecfg)) plan (0, e2) = (n, e3)" and e4: "e4 = (if n > 0 then writePlaylist w_ecfg w_venv e3 else e3)"
    and t: "w_played = update_state w_ecfg w_venv (slot_of w_ecfg w_now) plan (announce_now w_ecfg w_venv w_now e4)" by (rule tick_cases)
  have plan: "plan = [?c]" using w_plan p unfolding w_slot by auto
  have e2: "en_st e2 = ?s" "IsZero (en_lastTried e2)" using plan_of_same(2,3) [OF p] by (simp_all add: refresh_same newEngine_def)
  obtain ok fs st where a: "add w_sources w_io w_ecfg ?c ?s = (ok, fs, st)" by (metis prod_cases3)
  have c: "ci_StartAt ?c = w_now" "zero_time < w_now" by (simp_all add: to_slate_def base_clip_def w_now_def zero_time_def)
  have "fst (add w_sources w_io w_ecfg ?c ?s)"
    by (rule slate_add_ok) (use w_slate_prepare in \<open>auto simp: c w_io_def newStitcher_def to_slate_def base_clip_def\<close>)
  then have "ok" using a by simp
  have "en_st e3 = st" using r e2 a c unfolding plan by (auto simp: w_venv_def reports_same)
  then show ?thesis using a \<open>ok\<close> unfolding t e4 by auto
qed

lemma w_played_text: "window_text_ok w_ecfg (st_win (en_st w_played))"
proof -
  let ?c = w_slate_clip and ?s = "newStitcher w_ecfg (\<lambda>_. None)"
  obtain fs where add: "add w_sources w_io w_ecfg ?c ?s = (True, fs, en_st w_played)" using w_played_st by blast
  obtain rt removed where rt: "resolve w_sources w_ecfg ?c = (Some rt, fs)"
      "append_segment (final_meta w_ecfg ?s ?c rt) (st_win ?s) = (st_win (en_st w_played), removed)"
    using add by (rule add_True) (metis (no_types))
  obtain out where "prepare w_sources w_ecfg ''a.m3u8'' (Unix w_now) True w_now =
    Inr \<lparr>rt_meta = zero_meta\<lparr>sm_Duration := 1, sm_URI := ''5.m4s'', sm_MapURI := ''init.mp4'', sm_src := ''a.m3u8'', sm_idx := 5\<rparr>,
         rt_seg = out, rt_init = [7], rt_initName = ''init_ab.mp4'', rt_slate = False\<rparr>" using w_slate_prepare by blast
  then have rt': "rt = \<lparr>rt_meta = zero_meta\<lparr>sm_Duration := 1, sm_URI := ''5.m4s'', sm_MapURI := ''init.mp4'', sm_src := ''a.m3u8'', sm_idx := 5\<rparr>,
         rt_seg = out, rt_init = [7], rt_initName = ''init_ab.mp4'', rt_slate = False\<rparr>"
    using rt(1) by (simp add: resolve_def to_slate_def base_clip_def)
  let ?m = "final_meta w_ecfg ?s ?c rt"
  have win: "st_win (en_st w_played) = \<lparr>wi_Items = [?m], wi_MaxSize = 180, wi_DiscSeq = 0\<rparr>"
    using rt(2) by (simp add: newStitcher_def append_segment_def)
  have ch: "char_of (48 :: nat) = CHR ''0''" "char_of (49 :: nat) = CHR ''1''" "char_of (51 :: nat) = CHR ''3''" "char_of (53 :: nat) = CHR ''5''"
    "char_of (54 :: nat) = CHR ''6''" "char_of (55 :: nat) = CHR ''7''" "char_of (56 :: nat) = CHR ''8''" by code_simp+
  have seq: "itoa 1767836805 = ''1767836805''" by (simp add: itoa_def nat_dec_def digits_rev.simps ch)
  have c: "ci_Seq ?c = 1767836805" "ci_StartAt ?c = w_now" "ci_BreakStart ?c = zero_time"
    by (simp_all add: to_slate_def base_clip_def quantSeq_def SegmentSec_def w_now_def zero_clip_def Unix_def)
  have uri: "sm_URI ?m = ''v720/seg_1767836805.m4s''" "sm_MapURI ?m = ''v720/init_ab.mp4''" "sm_Duration ?m = 1" "sm_ProgramDateTime ?m = 1767836805 * second"
      "sm_Tags ?m = []" "sm_Seq ?m = 1767836805"
    using c seq by (simp_all add: final_meta_def meta_for_def rt' Let_def newStitcher_def seg_name_def w_ecfg_def default_config_def breakTags_def w_now_def)
  then have "text_ok ?m"
    unfolding text_ok_def uri by (simp add: time_ok_def printed_one tag_ok_def plain_line_def max_line_def is_space_def)
  then show ?thesis unfolding win using uri by (simp add: window_text_ok_def target_duration_def maxDuration_def w_ecfg_def default_config_def)
qed

lemma w_played_media: "en_media w_played = Some (renderMediaPlaylist w_ecfg (st_win (en_st w_played)))"
proof -
  obtain plan e2 n e3 e4 where p: "plan_of w_ecfg w_venv (slot_of w_ecfg w_now) (refresh w_ecfg w_venv w_now (slot_of w_ecfg w_now) w_engine) = (plan, e2)"
    and r: "release_loop w_ecfg w_venv (w_now + seconds (cfg_LiveLeadS w_ecfg)) plan (0, e2) = (n, e3)" and e4: "e4 = (if n > 0 then writePlaylist w_ecfg w_venv e3 else e3)"
    and t: "w_played = update_state w_ecfg w_venv (slot_of w_ecfg w_now) plan (announce_now w_ecfg w_venv w_now e4)" by (rule tick_cases)
  have plan: "plan = [w_slate_clip]" using w_plan p unfolding w_slot by auto
  have e2: "en_st e2 = newStitcher w_ecfg (\<lambda>_. None)" "IsZero (en_lastTried e2)" using plan_of_same(2,3) [OF p] by (simp_all add: refresh_same newEngine_def)
  have c: "ci_StartAt w_slate_clip = w_now" "zero_time < w_now" by (simp_all add: to_slate_def base_clip_def w_now_def zero_time_def)
  have "n = 1" using r e2 w_played_st c unfolding plan by (auto simp: w_venv_def)
  then show ?thesis unfolding t e4 by (simp add: writePlaylist_def w_venv_def)
qed

theorem engine_survives_restart_witness:
  "\<exists>e1. prepare_engine w_ecfg True (\<lambda>_. 0) (newEngine w_ecfg 0 (st_files (en_st w_played)) (en_media w_played)) = Some e1 \<and> files_ok (en_st e1) \<and>
     st_nextSeq (en_st w_played) \<le> st_nextSeq (en_st e1)"
proof -
  obtain e1 where e1: "prepare_engine w_ecfg True (\<lambda>_. 0) (newEngine w_ecfg 0 (st_files (en_st w_played)) (en_media w_played)) = Some e1"
    by (simp add: prepare_engine_def Let_def)
  show ?thesis using e1 engine_survives_restart [OF w_played_run _ w_played_text w_played_media e1 engine_start] by simp
qed

end
