(* ===== verification/Http.thy ===== *)
theory Http
  imports Bytes Models
begin

text \<open>
  What the services see of HTTP: a request as the handlers read it, the answer they write (\<^verbatim>\<open>pkg/httpx/respond.go\<close>), and a
  handler as a function that may change the state of the service. \<open>rq_body\<close> is \<open>None\<close> when the body cannot be read. The
  JSON document of an answer is a value of the type \<open>json\<close>; its text is the business of \<^verbatim>\<open>encoding/json\<close>.
\<close>

datatype json = JNull | JBool bool | JInt int | JStr string | JTime gtime | JList "json list" | JObj "(string \<times> json) list"

record request =
  rq_header :: "string \<Rightarrow> string"
  rq_query :: "string \<Rightarrow> string"
  rq_param :: "string \<Rightarrow> string"
  rq_body :: "string option"

datatype body = NoBody | ProblemBody string int string | JsonBody json | RawBody json

record response =
  rs_status :: int
  rs_header :: "(string \<times> string) list"
  rs_body :: body

definition WriteJSON :: "(string \<times> string) list \<Rightarrow> int \<Rightarrow> json \<Rightarrow> response" where
  "WriteJSON hs status v = \<lparr>rs_status = status, rs_header = hs @ [(''Content-Type'', ''application/json'')], rs_body = JsonBody v\<rparr>"

definition WriteProblem :: "(string \<times> string) list \<Rightarrow> int \<Rightarrow> string \<Rightarrow> string \<Rightarrow> response" where
  "WriteProblem hs status title detail =
     \<lparr>rs_status = status, rs_header = hs @ [(''Content-Type'', ''application/problem+json'')], rs_body = ProblemBody title status detail\<rparr>"

text \<open>\<^verbatim>\<open>w.WriteHeader(status)\<close> without a body, and \<^verbatim>\<open>w.Write(b)\<close> of a stored document.\<close>

definition WriteHeader :: "int \<Rightarrow> response" where
  "WriteHeader status = \<lparr>rs_status = status, rs_header = [], rs_body = NoBody\<rparr>"

definition WriteRaw :: "(string \<times> string) list \<Rightarrow> int \<Rightarrow> json \<Rightarrow> response" where
  "WriteRaw hs status b = \<lparr>rs_status = status, rs_header = hs @ [(''Content-Type'', ''application/json'')], rs_body = RawBody b\<rparr>"

lemma response_fields [simp]:
  "rs_status (WriteJSON hs n v) = n" "rs_status (WriteProblem hs n t d) = n" "rs_status (WriteHeader n) = n" "rs_status (WriteRaw hs n b) = n"
  "rs_body (WriteJSON hs n v) = JsonBody v" "rs_body (WriteProblem hs n t d) = ProblemBody t n d" "rs_body (WriteRaw hs n b) = RawBody b"
  "rs_body (WriteHeader n) = NoBody"
  by (simp_all add: WriteJSON_def WriteProblem_def WriteHeader_def WriteRaw_def)

end
