(* ===== verification/Storage.thy ===== *)
theory Storage
  imports Schedule Http
begin

text \<open>
  \<^verbatim>\<open>pkg/storage\<close>: the schedule store on PostgreSQL. The tables of the schema (\<^verbatim>\<open>migrations\<close>) are lists of rows in a record; every
  statement of the code is a function on it that checks the constraints of the schema, and a transaction is a function whose
  result is kept only when it commits. \<open>link\<close> says what the connection does during a call: it works, it fails before the
  commit, or the commit is carried out and its answer gets lost. Edits of one channel lock its row, so a call of
  \<^verbatim>\<open>EditSchedule\<close> is one step. Times are stored in microseconds; durations and offsets are 32-bit columns.
\<close>

subsection \<open>Tables\<close>

record timeline_row =
  tr_channel :: string
  tr_start :: gtime
  tr_type :: string
  tr_asset :: "string option"
  tr_uri :: "string option"
  tr_duration :: int
  tr_category :: "string option"
  tr_scte35 :: "string option"
  tr_offset :: int

record idem_row =
  ir_channel :: string
  ir_key :: string
  ir_hash :: string
  ir_version :: int
  ir_response :: json
  ir_created :: gtime

record db =
  db_channels :: "Channel list"
  db_assets :: "Asset list"
  db_timeline :: "timeline_row list"
  db_idem :: "idem_row list"

datatype pg_error = NoRows | UniqueViolation | ForeignKeyViolation | CheckViolation | EncodeError | Unavailable

datatype store_error = ErrNotFound | ErrConflict | ErrUnknownReference | ErrAssetInUse | ErrIdempotencyConflict
  | VersionMismatch int | EditError sched_error | PgError pg_error | ChannelRequired

datatype link = Up | Down | LostAck

definition mapErr :: "pg_error \<Rightarrow> store_error" where
  "mapErr e = (case e of NoRows \<Rightarrow> ErrNotFound | UniqueViolation \<Rightarrow> ErrConflict | ForeignKeyViolation \<Rightarrow> ErrUnknownReference | _ \<Rightarrow> PgError e)"

definition mapErrE :: "pg_error + 'a \<Rightarrow> store_error + 'a" where
  "mapErrE r = (case r of Inl e \<Rightarrow> Inl (mapErr e) | Inr x \<Rightarrow> Inr x)"

text \<open>A question to the database: without an answer there is only an error.\<close>

definition ask :: "link \<Rightarrow> pg_error + 'a \<Rightarrow> pg_error + 'a" where
  "ask l r = (if l = Up then r else Inl Unavailable)"

text \<open>A change: it happens when it is carried out, also when the answer gets lost.\<close>

definition change :: "link \<Rightarrow> ('e \<Rightarrow> 'f) \<Rightarrow> 'f \<Rightarrow> 'e + 'a \<times> db \<Rightarrow> db \<Rightarrow> ('f + 'a) \<times> db" where
  "change l f lost r d =
     (case l of
        Down \<Rightarrow> (Inl lost, d)
      | Up \<Rightarrow> (case r of Inl e \<Rightarrow> (Inl (f e), d) | Inr (x, d') \<Rightarrow> (Inr x, d'))
      | LostAck \<Rightarrow> (case r of Inl e \<Rightarrow> (Inl (f e), d) | Inr (x, d') \<Rightarrow> (Inl lost, d')))"

definition int4 :: "int \<Rightarrow> bool" where
  "int4 n \<longleftrightarrow> - (2 ^ 31) \<le> n \<and> n < 2 ^ 31"

text \<open>\<^verbatim>\<open>timestamptz\<close> has microseconds.\<close>

definition pg_time :: "gtime \<Rightarrow> gtime" where
  "pg_time t = t - t mod 1000"

definition NULLIF :: "string \<Rightarrow> string option" where
  "NULLIF s = (if s = '''' then None else Some s)"

definition COALESCE :: "'a option \<Rightarrow> 'a \<Rightarrow> 'a" where
  "COALESCE x d = (case x of None \<Rightarrow> d | Some v \<Rightarrow> v)"

definition has_channel :: "db \<Rightarrow> string \<Rightarrow> bool" where
  "has_channel d ident = list_ex (\<lambda>c. ch_ID c = ident) (db_channels d)"

definition has_asset :: "db \<Rightarrow> string \<Rightarrow> bool" where
  "has_asset d ident = list_ex (\<lambda>a. as_ID a = ident) (db_assets d)"

subsection \<open>Channels and assets\<close>

definition insert_asset :: "Asset \<Rightarrow> db \<Rightarrow> pg_error + unit \<times> db" where
  "insert_asset a d =
     (if \<not> int4 (as_DurationS a) then Inl EncodeError
      else if list_ex (\<lambda>b. as_ID b = as_ID a \<or> as_URI b = as_URI a) (db_assets d) then Inl UniqueViolation
      else Inr ((), d\<lparr>db_assets := db_assets d @ [a\<lparr>as_CreatedAt := pg_time (as_CreatedAt a)\<rparr>]\<rparr>))"

definition InsertAsset :: "link \<Rightarrow> Asset \<Rightarrow> db \<Rightarrow> (pg_error + unit) \<times> db" where
  "InsertAsset l a d =
     (let a = (if as_Meta a = None then a\<lparr>as_Meta := Some []\<rparr> else a);
          a = (if as_Tags a = None then a\<lparr>as_Tags := Some []\<rparr> else a)
      in change l (\<lambda>e. e) Unavailable (insert_asset a d) d)"

definition find_row :: "('a \<Rightarrow> bool) \<Rightarrow> 'a list \<Rightarrow> pg_error + 'a" where
  "find_row P rows = (case List.find P rows of None \<Rightarrow> Inl NoRows | Some x \<Rightarrow> Inr x)"

definition GetAsset :: "link \<Rightarrow> string \<Rightarrow> db \<Rightarrow> pg_error + Asset" where
  "GetAsset l ident d = ask l (find_row (\<lambda>a. as_ID a = ident) (db_assets d))"

definition GetAssetByURI :: "link \<Rightarrow> string \<Rightarrow> db \<Rightarrow> pg_error + Asset" where
  "GetAssetByURI l uri d = ask l (find_row (\<lambda>a. as_URI a = uri) (db_assets d))"

definition insert_channel :: "Channel \<Rightarrow> db \<Rightarrow> pg_error + unit \<times> db" where
  "insert_channel c d =
     (if \<not> int4 (ch_SegmentSec c) then Inl EncodeError
      else if has_channel d (ch_ID c) then Inl UniqueViolation
      else Inr ((), d\<lparr>db_channels := db_channels d @ [c\<lparr>ch_CreatedAt := pg_time (ch_CreatedAt c), ch_ScheduleVersion := 0\<rparr>]\<rparr>))"

definition InsertChannel :: "link \<Rightarrow> Channel \<Rightarrow> db \<Rightarrow> (pg_error + unit) \<times> db" where
  "InsertChannel l c d =
     (let c = (if ch_Ladder c = None then c\<lparr>ch_Ladder := Some []\<rparr> else c) in
      change l (\<lambda>e. e) Unavailable (insert_channel c d) d)"

definition GetChannel :: "link \<Rightarrow> string \<Rightarrow> db \<Rightarrow> pg_error + Channel" where
  "GetChannel l ident d = ask l (find_row (\<lambda>c. ch_ID c = ident) (db_channels d))"

text \<open>\<open>WHERE id > $1 ORDER BY id LIMIT $2\<close>; \<open>lt\<close> is the collation of the database.\<close>

definition order_by :: "(string \<Rightarrow> string \<Rightarrow> bool) \<Rightarrow> ('a \<Rightarrow> string) \<Rightarrow> 'a list \<Rightarrow> 'a list" where
  "order_by lt f rows = foldr (\<lambda>x ys. takeWhile (\<lambda>y. lt (f y) (f x)) ys @ x # dropWhile (\<lambda>y. lt (f y) (f x)) ys) rows []"

definition ListChannels :: "(string \<Rightarrow> string \<Rightarrow> bool) \<Rightarrow> link \<Rightarrow> nat \<Rightarrow> db \<Rightarrow> pg_error + Channel list" where
  "ListChannels lt l limit d = ask l (Inr (take limit (order_by lt ch_ID (db_channels d))))"

definition ListChannelsPage :: "(string \<Rightarrow> string \<Rightarrow> bool) \<Rightarrow> link \<Rightarrow> string \<Rightarrow> nat \<Rightarrow> db \<Rightarrow> pg_error + Channel list" where
  "ListChannelsPage lt l after limit d =
     ask l (Inr (take limit (order_by lt ch_ID (filter (\<lambda>c. lt after (ch_ID c)) (db_channels d)))))"

definition update_channel :: "string \<Rightarrow> string option \<Rightarrow> string list option \<Rightarrow> db \<Rightarrow> pg_error + Channel \<times> db" where
  "update_channel ident name ladder d =
     (let upd = (\<lambda>c. if ch_ID c = ident then c\<lparr>ch_Name := COALESCE name (ch_Name c),
            ch_Ladder := (if ladder = None then ch_Ladder c else ladder)\<rparr> else c);
          d' = d\<lparr>db_channels := map upd (db_channels d)\<rparr>
      in case List.find (\<lambda>c. ch_ID c = ident) (db_channels d') of None \<Rightarrow> Inl NoRows | Some c \<Rightarrow> Inr (c, d'))"

definition UpdateChannel :: "link \<Rightarrow> string \<Rightarrow> string option \<Rightarrow> string list option \<Rightarrow> db \<Rightarrow> (store_error + Channel) \<times> db" where
  "UpdateChannel l ident name ladder d = change l mapErr (PgError Unavailable) (update_channel ident name ladder d) d"

text \<open>The schedule goes first; the row of the channel takes its idempotency rows with it (\<^verbatim>\<open>ON DELETE CASCADE\<close>).\<close>

definition delete_channel :: "string \<Rightarrow> db \<Rightarrow> store_error + unit \<times> db" where
  "delete_channel ident d =
     (let d1 = d\<lparr>db_timeline := filter (\<lambda>r. tr_channel r \<noteq> ident) (db_timeline d)\<rparr> in
      if \<not> has_channel d1 ident then Inl ErrNotFound
      else Inr ((), d1\<lparr>db_channels := filter (\<lambda>c. ch_ID c \<noteq> ident) (db_channels d1), db_idem := filter (\<lambda>r. ir_channel r \<noteq> ident) (db_idem d1)\<rparr>))"

definition DeleteChannel :: "link \<Rightarrow> string \<Rightarrow> db \<Rightarrow> (store_error + unit) \<times> db" where
  "DeleteChannel l ident d = change l (\<lambda>e. e) (PgError Unavailable) (delete_channel ident d) d"

definition ListAssets :: "(string \<Rightarrow> string \<Rightarrow> bool) \<Rightarrow> link \<Rightarrow> string \<Rightarrow> string \<Rightarrow> nat \<Rightarrow> db \<Rightarrow> pg_error + Asset list" where
  "ListAssets lt l tag after limit d =
     ask l (Inr (take limit (order_by lt as_ID
       (filter (\<lambda>a. lt after (as_ID a) \<and> (tag = '''' \<or> tag \<in> set (COALESCE (as_Tags a) []))) (db_assets d)))))"

definition SelectAssetsByTag :: "(string \<Rightarrow> string \<Rightarrow> bool) \<Rightarrow> link \<Rightarrow> string \<Rightarrow> int \<Rightarrow> db \<Rightarrow> pg_error + (string \<times> string \<times> int) list" where
  "SelectAssetsByTag lt l tag minDuration d =
     ask l (Inr (map (\<lambda>a. (as_ID a, as_URI a, as_DurationS a)) (order_by lt as_ID
       (filter (\<lambda>a. tag \<in> set (COALESCE (as_Tags a) []) \<and> as_DurationS a \<ge> minDuration) (db_assets d)))))"

definition delete_asset :: "string \<Rightarrow> db \<Rightarrow> store_error + unit \<times> db" where
  "delete_asset ident d =
     (if list_ex (\<lambda>r. tr_asset r = Some ident) (db_timeline d) then Inl ErrAssetInUse
      else if \<not> has_asset d ident then Inl ErrNotFound
      else Inr ((), d\<lparr>db_assets := filter (\<lambda>a. as_ID a \<noteq> ident) (db_assets d)\<rparr>))"

definition DeleteAsset :: "link \<Rightarrow> string \<Rightarrow> db \<Rightarrow> (store_error + unit) \<times> db" where
  "DeleteAsset l ident d = change l (\<lambda>e. e) (PgError Unavailable) (delete_asset ident d) d"

definition InsertAssetChecked :: "link \<Rightarrow> Asset \<Rightarrow> db \<Rightarrow> (store_error + unit) \<times> db" where
  "InsertAssetChecked l a d = apfst mapErrE (InsertAsset l a d)"

definition InsertChannelChecked :: "link \<Rightarrow> Channel \<Rightarrow> db \<Rightarrow> (store_error + unit) \<times> db" where
  "InsertChannelChecked l c d = apfst mapErrE (InsertChannel l c d)"

definition GetAssetChecked :: "link \<Rightarrow> string \<Rightarrow> db \<Rightarrow> store_error + Asset" where
  "GetAssetChecked l ident d = mapErrE (GetAsset l ident d)"

definition GetChannelChecked :: "link \<Rightarrow> string \<Rightarrow> db \<Rightarrow> store_error + Channel" where
  "GetChannelChecked l ident d = mapErrE (GetChannel l ident d)"

definition MissingAssets :: "(string \<Rightarrow> string \<Rightarrow> bool) \<Rightarrow> link \<Rightarrow> string list \<Rightarrow> db \<Rightarrow> pg_error + string list" where
  "MissingAssets lt l ids d =
     (if ids = [] then Inr [] else ask l (Inr (order_by lt (\<lambda>x. x) (filter (\<lambda>x. \<not> has_asset d x) ids))))"

subsection \<open>The schedule\<close>

definition row_of :: "string \<Rightarrow> TimelineEntry \<Rightarrow> timeline_row" where
  "row_of channel e = \<lparr>tr_channel = channel, tr_start = pg_time (te_Start e), tr_type = te_Type e, tr_asset = NULLIF (te_AssetID e),
     tr_uri = NULLIF (te_URI e), tr_duration = te_DurationS e, tr_category = NULLIF (te_Category e), tr_scte35 = NULLIF (te_SCTE35 e), tr_offset = te_OffsetS e\<rparr>"

definition same_key :: "timeline_row \<Rightarrow> timeline_row \<Rightarrow> bool" where
  "same_key r s \<longleftrightarrow> tr_channel r = tr_channel s \<and> tr_start r = tr_start s"

definition refs_ok :: "db \<Rightarrow> timeline_row \<Rightarrow> bool" where
  "refs_ok d r \<longleftrightarrow> has_channel d (tr_channel r) \<and> (\<forall>a. tr_asset r = Some a \<longrightarrow> has_asset d a)"

definition insert_entry :: "string \<Rightarrow> TimelineEntry \<Rightarrow> db \<Rightarrow> pg_error + db" where
  "insert_entry channel e d =
     (let r = row_of channel e in
      if \<not> int4 (te_DurationS e) \<or> \<not> int4 (te_OffsetS e) then Inl EncodeError
      else if \<not> validTypes (tr_type r) then Inl CheckViolation
      else if list_ex (same_key r) (db_timeline d) then Inl UniqueViolation
      else if \<not> refs_ok d r then Inl ForeignKeyViolation
      else Inr (d\<lparr>db_timeline := db_timeline d @ [r]\<rparr>))"

definition upsert_entry :: "string \<Rightarrow> TimelineEntry \<Rightarrow> db \<Rightarrow> pg_error + db" where
  "upsert_entry channel e d =
     (let r = row_of channel e in
      if \<not> int4 (te_DurationS e) \<or> \<not> int4 (te_OffsetS e) then Inl EncodeError
      else if \<not> validTypes (tr_type r) then Inl CheckViolation
      else if \<not> refs_ok d r then Inl ForeignKeyViolation
      else Inr (d\<lparr>db_timeline := filter (\<lambda>s. \<not> same_key r s) (db_timeline d) @ [r]\<rparr>))"

text \<open>A batch stops at the first error.\<close>

fun batch :: "('a \<Rightarrow> db \<Rightarrow> pg_error + db) \<Rightarrow> 'a list \<Rightarrow> db \<Rightarrow> pg_error + db" where
  "batch f [] d = Inr d"
| "batch f (x # xs) d = bindE (f x d) (batch f xs)"

text \<open>A batch outside a transaction is one implicit transaction: it is rolled back as a whole.\<close>

definition UpsertTimeline :: "link \<Rightarrow> string \<Rightarrow> TimelineEntry list \<Rightarrow> db \<Rightarrow> (store_error + unit) \<times> db" where
  "UpsertTimeline l channel entries d =
     (if channel = '''' then (Inl ChannelRequired, d)
      else change l PgError (PgError Unavailable) (bindE (batch (upsert_entry channel) entries d) (\<lambda>d'. Inr ((), d'))) d)"

definition asset_uri :: "db \<Rightarrow> string option \<Rightarrow> string option" where
  "asset_uri d a = (case a of None \<Rightarrow> None | Some ident \<Rightarrow> map_option as_URI (List.find (\<lambda>x. as_ID x = ident) (db_assets d)))"

text \<open>A row as the query reads it: the URI falls back to the one of the asset.\<close>

definition entry_of :: "db \<Rightarrow> timeline_row \<Rightarrow> TimelineEntry" where
  "entry_of d r = \<lparr>te_Type = tr_type r, te_AssetID = COALESCE (tr_asset r) '''',
     te_URI = (case tr_uri r of Some u \<Rightarrow> if u = '''' then COALESCE (asset_uri d (tr_asset r)) '''' else u | None \<Rightarrow> COALESCE (asset_uri d (tr_asset r)) ''''),
     te_Start = tr_start r, te_DurationS = tr_duration r, te_OffsetS = tr_offset r, te_Category = COALESCE (tr_category r) '''', te_SCTE35 = COALESCE (tr_scte35 r) ''''\<rparr>"

definition row_end :: "timeline_row \<Rightarrow> gtime" where
  "row_end r = tr_start r + tr_duration r * second"

definition query_range :: "string \<Rightarrow> gtime \<Rightarrow> gtime \<Rightarrow> db \<Rightarrow> TimelineEntry list" where
  "query_range channel from to d =
     map (entry_of d) (sort_key tr_start (filter (\<lambda>r. tr_channel r = channel \<and> tr_start r < pg_time to \<and> row_end r > pg_time from) (db_timeline d)))"

definition GetTimelineRange :: "link \<Rightarrow> string \<Rightarrow> gtime \<Rightarrow> gtime \<Rightarrow> db \<Rightarrow> pg_error + TimelineEntry list" where
  "GetTimelineRange l channel from to d = ask l (Inr (query_range channel from to d))"

definition horizon :: "string \<Rightarrow> db \<Rightarrow> gtime" where
  "horizon channel d =
     (case map row_end (filter (\<lambda>r. tr_channel r = channel) (db_timeline d)) of [] \<Rightarrow> 0 | t # ts \<Rightarrow> fold max ts t)"

definition HorizonCoveredUntil :: "link \<Rightarrow> string \<Rightarrow> db \<Rightarrow> pg_error + gtime" where
  "HorizonCoveredUntil l channel d = ask l (Inr (horizon channel d))"

definition trim_past :: "string \<Rightarrow> gtime \<Rightarrow> db \<Rightarrow> pg_error + nat \<times> db" where
  "trim_past channel cutoff d =
     (let old = (\<lambda>r. (channel = '''' \<or> tr_channel r = channel) \<and> tr_start r < pg_time cutoff) in
      Inr (length (filter old (db_timeline d)), d\<lparr>db_timeline := filter (\<lambda>r. \<not> old r) (db_timeline d)\<rparr>))"

definition TrimTimelinePast :: "link \<Rightarrow> string \<Rightarrow> gtime \<Rightarrow> db \<Rightarrow> (pg_error + nat) \<times> db" where
  "TrimTimelinePast l channel cutoff d = change l (\<lambda>e. e) Unavailable (trim_past channel cutoff d) d"

definition delete_range :: "string \<Rightarrow> gtime \<Rightarrow> gtime \<Rightarrow> db \<Rightarrow> db" where
  "delete_range channel from to d =
     d\<lparr>db_timeline := filter (\<lambda>r. \<not> (tr_channel r = channel \<and> pg_time from \<le> tr_start r \<and> tr_start r < pg_time to)) (db_timeline d)\<rparr>"

definition raise_version :: "string \<Rightarrow> db \<Rightarrow> pg_error + int \<times> db" where
  "raise_version channel d =
     (case List.find (\<lambda>c. ch_ID c = channel) (db_channels d) of
        None \<Rightarrow> Inl NoRows
      | Some c \<Rightarrow> Inr (ch_ScheduleVersion c + 1,
          d\<lparr>db_channels := map (\<lambda>x. if ch_ID x = channel then x\<lparr>ch_ScheduleVersion := ch_ScheduleVersion x + 1\<rparr> else x) (db_channels d)\<rparr>))"

definition replaceInTx :: "string \<Rightarrow> gtime \<Rightarrow> gtime \<Rightarrow> TimelineEntry list \<Rightarrow> db \<Rightarrow> pg_error + int \<times> db" where
  "replaceInTx channel from to entries d =
     bindE (batch (insert_entry channel) entries (delete_range channel from to d)) (raise_version channel)"

definition ReplaceTimelineRange :: "link \<Rightarrow> string \<Rightarrow> gtime \<Rightarrow> gtime \<Rightarrow> TimelineEntry list \<Rightarrow> db \<Rightarrow> (pg_error + int) \<times> db" where
  "ReplaceTimelineRange l channel from to entries d = change l (\<lambda>e. e) Unavailable (replaceInTx channel from to entries d) d"

subsection \<open>Edits under conditions\<close>

record ApplyResult =
  ar_Version :: int
  ar_Replayed :: bool
  ar_Response :: "json option"

record Reader =
  rd_db :: db
  rd_channelID :: string
  rd_Version :: int

definition Range :: "Reader \<Rightarrow> gtime \<Rightarrow> gtime \<Rightarrow> TimelineEntry list" where
  "Range rd from to = query_range (rd_channelID rd) from to (rd_db rd)"

definition Horizon :: "Reader \<Rightarrow> gtime" where
  "Horizon rd = horizon (rd_channelID rd) (rd_db rd)"

record Change =
  cg_From :: gtime
  cg_To :: gtime
  cg_Entries :: "TimelineEntry list"
  cg_Response :: "(int \<Rightarrow> json) option"

definition day :: duration where "day = 24 * 3600 * second"

definition find_idem :: "string \<Rightarrow> string \<Rightarrow> db \<Rightarrow> idem_row option" where
  "find_idem channel key d = List.find (\<lambda>r. ir_channel r = channel \<and> ir_key r = key) (db_idem d)"

definition store_answer :: "gtime \<Rightarrow> string \<Rightarrow> string \<Rightarrow> string \<Rightarrow> int \<Rightarrow> json \<Rightarrow> db \<Rightarrow> db" where
  "store_answer now channel key hash version resp d =
     (let r = \<lparr>ir_channel = channel, ir_key = key, ir_hash = hash, ir_version = version, ir_response = resp, ir_created = pg_time now\<rparr> in
      d\<lparr>db_idem := filter (\<lambda>x. \<not> ir_created x < pg_time now - day) (db_idem d @ [r])\<rparr>)"

definition commit_change :: "gtime \<Rightarrow> string \<Rightarrow> string \<Rightarrow> string \<Rightarrow> Change \<Rightarrow> db \<Rightarrow> store_error + ApplyResult \<times> db" where
  "commit_change now channel idemKey bodyHash ch d =
     bindE (mapErrE (replaceInTx channel (cg_From ch) (cg_To ch) (cg_Entries ch) d)) (\<lambda>(newVersion, d').
       let resp = (case cg_Response ch of None \<Rightarrow> JObj [] | Some f \<Rightarrow> f newVersion);
           d'' = (if idemKey \<noteq> '''' then store_answer now channel idemKey bodyHash newVersion resp d' else d')
       in Inr (\<lparr>ar_Version = newVersion, ar_Replayed = False, ar_Response = None\<rparr>, d''))"

text \<open>The transaction of \<^verbatim>\<open>EditSchedule\<close>; \<open>now\<close> is the clock of the database.\<close>

definition edit_tx :: "gtime \<Rightarrow> string \<Rightarrow> int option \<Rightarrow> string \<Rightarrow> string \<Rightarrow> (Reader \<Rightarrow> store_error + Change) \<Rightarrow> db \<Rightarrow> store_error + ApplyResult \<times> db" where
  "edit_tx now channel ifMatch idemKey bodyHash decide d =
     bindE (mapErrE (find_row (\<lambda>c. ch_ID c = channel) (db_channels d))) (\<lambda>c.
       let version = ch_ScheduleVersion c in
       case (if idemKey \<noteq> '''' then find_idem channel idemKey d else None) of
         Some r \<Rightarrow>
           if ir_hash r \<noteq> bodyHash then Inl ErrIdempotencyConflict
           else Inr (\<lparr>ar_Version = ir_version r, ar_Replayed = True, ar_Response = Some (ir_response r)\<rparr>, d)
       | None \<Rightarrow>
           if ifMatch \<noteq> None \<and> ifMatch \<noteq> Some version then Inl (VersionMismatch version)
           else bindE (decide \<lparr>rd_db = d, rd_channelID = channel, rd_Version = version\<rparr>) (\<lambda>ch. commit_change now channel idemKey bodyHash ch d))"

text \<open>A repeat is answered without a commit.\<close>

definition EditSchedule :: "link \<Rightarrow> gtime \<Rightarrow> string \<Rightarrow> int option \<Rightarrow> string \<Rightarrow> string \<Rightarrow> (Reader \<Rightarrow> store_error + Change) \<Rightarrow> db \<Rightarrow> (store_error + ApplyResult) \<times> db" where
  "EditSchedule l now channel ifMatch idemKey bodyHash decide d =
     (case edit_tx now channel ifMatch idemKey bodyHash decide d of
        Inr (r, d') \<Rightarrow> if ar_Replayed r \<and> l \<noteq> Down then (Inr r, d) else change l (\<lambda>e. e) (PgError Unavailable) (Inr (r, d')) d
      | Inl e \<Rightarrow> change l (\<lambda>e. e) (PgError Unavailable) (Inl e) d)"

record ApplyRequest =
  aq_ChannelID :: string
  aq_From :: gtime
  aq_To :: gtime
  aq_Entries :: "TimelineEntry list"
  aq_IfMatch :: "int option"
  aq_IdemKey :: string
  aq_BodyHash :: string
  aq_Response :: "(int \<Rightarrow> json) option"

definition ApplySchedule :: "link \<Rightarrow> gtime \<Rightarrow> ApplyRequest \<Rightarrow> db \<Rightarrow> (store_error + ApplyResult) \<times> db" where
  "ApplySchedule l now r d =
     EditSchedule l now (aq_ChannelID r) (aq_IfMatch r) (aq_IdemKey r) (aq_BodyHash r)
       (\<lambda>_. Inr \<lparr>cg_From = aq_From r, cg_To = aq_To r, cg_Entries = aq_Entries r, cg_Response = aq_Response r\<rparr>) d"

subsection \<open>The constraints of the schema\<close>

definition db_ok :: "db \<Rightarrow> bool" where
  "db_ok d \<longleftrightarrow> distinct (map ch_ID (db_channels d)) \<and> distinct (map as_ID (db_assets d)) \<and> distinct (map as_URI (db_assets d)) \<and>
     distinct (map (\<lambda>r. (tr_channel r, tr_start r)) (db_timeline d)) \<and>
     list_all (\<lambda>r. refs_ok d r \<and> validTypes (tr_type r) \<and> int4 (tr_duration r) \<and> int4 (tr_offset r) \<and> tr_asset r \<noteq> Some '''' \<and> tr_uri r \<noteq> Some '''' \<and> tr_start r mod 1000 = 0) (db_timeline d) \<and>
     distinct (map (\<lambda>r. (ir_channel r, ir_key r)) (db_idem d)) \<and> list_all (\<lambda>r. has_channel d (ir_channel r)) (db_idem d)"

text \<open>Everything that changes the tables, and a run of such calls on connections that may fail.\<close>

datatype store_op =
    OpInsertAsset Asset | OpInsertChannel Channel | OpUpdateChannel string "string option" "string list option"
  | OpDeleteChannel string | OpDeleteAsset string | OpUpsert string "TimelineEntry list"
  | OpReplace string gtime gtime "TimelineEntry list" | OpTrim string gtime
  | OpEdit gtime string "int option" string string "Reader \<Rightarrow> store_error + Change"

fun exec :: "link \<times> store_op \<Rightarrow> db \<Rightarrow> db" where
  "exec (l, OpInsertAsset a) d = snd (InsertAssetChecked l a d)"
| "exec (l, OpInsertChannel c) d = snd (InsertChannelChecked l c d)"
| "exec (l, OpUpdateChannel i n lad) d = snd (UpdateChannel l i n lad d)"
| "exec (l, OpDeleteChannel i) d = snd (DeleteChannel l i d)"
| "exec (l, OpDeleteAsset i) d = snd (DeleteAsset l i d)"
| "exec (l, OpUpsert c es) d = snd (UpsertTimeline l c es d)"
| "exec (l, OpReplace c from to es) d = snd (ReplaceTimelineRange l c from to es d)"
| "exec (l, OpTrim c t) d = snd (TrimTimelinePast l c t d)"
| "exec (l, OpEdit now c im k h dec) d = snd (EditSchedule l now c im k h dec d)"

definition empty_db :: db where
  "empty_db = \<lparr>db_channels = [], db_assets = [], db_timeline = [], db_idem = []\<rparr>"

lemma change_cases:
  obtains "snd (change l f lost r d) = d" | x d' where "r = Inr (x, d')" "snd (change l f lost r d) = d'"
  by (cases l; cases r) (auto simp: change_def)

lemma change_Up [simp]: "change Up f lost (Inr (x, d')) d = (Inr x, d')" "change Up f lost (Inl e) d = (Inl (f e), d)"
  by (simp_all add: change_def)

lemma change_Inr: "change l f lost r d = (Inr x, d') \<longleftrightarrow> l = Up \<and> r = Inr (x, d')"
  by (cases l; cases r) (auto simp: change_def)

lemma pg_time_idem [simp]: "pg_time (pg_time t) = pg_time t"
  by (simp add: pg_time_def mod_diff_eq)

lemma pg_time_mod [simp]: "pg_time t mod 1000 = 0"
  by (simp add: pg_time_def mod_diff_eq)

lemma pg_time_id: "t mod 1000 = 0 \<Longrightarrow> pg_time t = t"
  by (simp add: pg_time_def)

lemma whole_mod: "whole t \<Longrightarrow> t mod 1000 = 0"
proof -
  assume "whole t"
  moreover have "t mod 1000 = t mod second mod 1000" by (simp add: mod_mod_cancel)
  ultimately show "t mod 1000 = 0" by (simp add: Nanosecond_def)
qed

lemma pg_time_whole: "whole t \<Longrightarrow> pg_time t = t"
  by (rule pg_time_id) (rule whole_mod)

lemma has_channel_iff: "has_channel d c \<longleftrightarrow> c \<in> ch_ID ` set (db_channels d)"
  by (auto simp: has_channel_def list_ex_iff)

lemma has_asset_iff: "has_asset d a \<longleftrightarrow> a \<in> as_ID ` set (db_assets d)"
  by (auto simp: has_asset_def list_ex_iff)

lemmas tables_defs = has_channel_iff has_asset_iff refs_ok_def

lemma row_of_fields [simp]:
  "tr_channel (row_of c e) = c" "tr_start (row_of c e) = pg_time (te_Start e)" "tr_type (row_of c e) = te_Type e"
  "tr_duration (row_of c e) = te_DurationS e" "tr_offset (row_of c e) = te_OffsetS e" "tr_asset (row_of c e) \<noteq> Some []" "tr_uri (row_of c e) \<noteq> Some []"
  by (simp_all add: row_of_def NULLIF_def)

text \<open>The part of the invariant that a new row must satisfy.\<close>

definition row_ok :: "db \<Rightarrow> timeline_row \<Rightarrow> bool" where
  "row_ok d r \<longleftrightarrow> refs_ok d r \<and> validTypes (tr_type r) \<and> int4 (tr_duration r) \<and> int4 (tr_offset r) \<and> tr_asset r \<noteq> Some '''' \<and> tr_uri r \<noteq> Some '''' \<and> tr_start r mod 1000 = 0"

lemma db_ok_alt: "db_ok d \<longleftrightarrow> distinct (map ch_ID (db_channels d)) \<and> distinct (map as_ID (db_assets d)) \<and> distinct (map as_URI (db_assets d)) \<and>
     distinct (map (\<lambda>r. (tr_channel r, tr_start r)) (db_timeline d)) \<and> (\<forall>r \<in> set (db_timeline d). row_ok d r) \<and>
     distinct (map (\<lambda>r. (ir_channel r, ir_key r)) (db_idem d)) \<and> (\<forall>r \<in> set (db_idem d). has_channel d (ir_channel r))"
  by (simp add: db_ok_def row_ok_def list_all_iff)

lemma row_ok_cong:
  "ch_ID ` set (db_channels d') = ch_ID ` set (db_channels d) \<Longrightarrow> as_ID ` set (db_assets d') = as_ID ` set (db_assets d) \<Longrightarrow> row_ok d' r = row_ok d r"
  by (simp add: row_ok_def tables_defs)

lemma db_ok_timeline:
  assumes "db_ok d" "set rs \<subseteq> set (db_timeline d)" "distinct (map (\<lambda>r. (tr_channel r, tr_start r)) rs)"
  shows "db_ok (d\<lparr>db_timeline := rs\<rparr>)"
  using assms row_ok_cong [of "d\<lparr>db_timeline := rs\<rparr>" d] by (auto simp: db_ok_alt has_channel_iff)

lemma distinct_map_filter': "distinct (map f xs) \<Longrightarrow> distinct (map f (filter P xs))"
  by (simp add: distinct_map_filter)

lemma db_ok_filter_timeline: "db_ok d \<Longrightarrow> db_ok (d\<lparr>db_timeline := filter P (db_timeline d)\<rparr>)"
  by (rule db_ok_timeline) (auto simp: db_ok_alt distinct_map_filter)

lemma db_ok_add_row:
  assumes "db_ok d" "row_ok d r" "\<forall>s \<in> set (db_timeline d). \<not> same_key r s"
  shows "db_ok (d\<lparr>db_timeline := db_timeline d @ [r]\<rparr>)"
  using assms row_ok_cong [of "d\<lparr>db_timeline := db_timeline d @ [r]\<rparr>" d] by (auto simp: db_ok_alt same_key_def has_channel_iff)

lemma row_of_ok: "int4 (te_DurationS e) \<Longrightarrow> int4 (te_OffsetS e) \<Longrightarrow> validTypes (te_Type e) \<Longrightarrow> refs_ok d (row_of c e) \<Longrightarrow> row_ok d (row_of c e)"
  by (simp add: row_ok_def)

lemma insert_entry_ok: "insert_entry c e d = Inr d' \<Longrightarrow> db_ok d \<Longrightarrow> db_ok d'"
  by (auto simp: insert_entry_def Let_def list_ex_iff split: if_splits intro!: db_ok_add_row row_of_ok)

lemma upsert_entry_ok:
  assumes "upsert_entry c e d = Inr d'" "db_ok d" shows "db_ok d'"
proof -
  let ?d = "d\<lparr>db_timeline := filter (\<lambda>s. \<not> same_key (row_of c e) s) (db_timeline d)\<rparr>"
  have d': "d' = ?d\<lparr>db_timeline := db_timeline ?d @ [row_of c e]\<rparr>" and r: "row_ok d (row_of c e)"
    using assms(1) by (auto simp: upsert_entry_def Let_def split: if_splits intro!: row_of_ok)
  have "row_ok ?d (row_of c e)" using r row_ok_cong [of ?d d] by simp
  then show ?thesis unfolding d' using db_ok_filter_timeline [OF assms(2)] by (intro db_ok_add_row) auto
qed

lemma batch_ok: "batch f xs d = Inr d' \<Longrightarrow> db_ok d \<Longrightarrow> (\<And>x d d'. f x d = Inr d' \<Longrightarrow> db_ok d \<Longrightarrow> db_ok d') \<Longrightarrow> db_ok d'"
  by (induction xs arbitrary: d) (auto simp: bindE_Inr_iff)

lemma raise_version_ok: "raise_version c d = Inr (v, d') \<Longrightarrow> db_ok d \<Longrightarrow> db_ok d'"
proof -
  assume r: "raise_version c d = Inr (v, d')" and ok: "db_ok d"
  let ?f = "\<lambda>x. if ch_ID x = c then x\<lparr>ch_ScheduleVersion := ch_ScheduleVersion x + 1\<rparr> else x"
  have d': "d' = d\<lparr>db_channels := map ?f (db_channels d)\<rparr>" using r by (auto simp: raise_version_def split: option.splits)
  have ids: "map ch_ID (db_channels d') = map ch_ID (db_channels d)" by (simp add: d')
  then have "ch_ID ` set (db_channels d') = ch_ID ` set (db_channels d)" by (metis set_map)
  moreover have "db_assets d' = db_assets d" "db_timeline d' = db_timeline d" "db_idem d' = db_idem d" by (simp_all add: d')
  ultimately show ?thesis using ok ids row_ok_cong [of d' d] unfolding db_ok_alt has_channel_iff by simp
qed

lemma replaceInTx_ok: "replaceInTx c from to es d = Inr (v, d') \<Longrightarrow> db_ok d \<Longrightarrow> db_ok d'"
proof -
  assume r: "replaceInTx c from to es d = Inr (v, d')" and ok: "db_ok d"
  obtain d1 where d1: "batch (insert_entry c) es (delete_range c from to d) = Inr d1" "raise_version c d1 = Inr (v, d')"
    using r by (auto simp: replaceInTx_def bindE_Inr_iff)
  have "db_ok (delete_range c from to d)" unfolding delete_range_def by (rule db_ok_filter_timeline [OF ok])
  then show ?thesis using raise_version_ok [OF d1(2)] batch_ok [OF d1(1)] insert_entry_ok by blast
qed

text \<open>Rows of other tables: a change of channels or assets that keeps what is referred to.\<close>

lemma db_ok_channels:
  assumes "db_ok d" "map ch_ID cs = map ch_ID (db_channels d)" shows "db_ok (d\<lparr>db_channels := cs\<rparr>)"
proof -
  have "ch_ID ` set cs = ch_ID ` set (db_channels d)" using assms(2) by (metis set_map)
  then show ?thesis using assms row_ok_cong [of "d\<lparr>db_channels := cs\<rparr>" d] unfolding db_ok_alt has_channel_iff by simp
qed

lemma insert_channel_ok: "insert_channel c d = Inr (u, d') \<Longrightarrow> db_ok d \<Longrightarrow> db_ok d'"
  by (auto simp: insert_channel_def db_ok_alt row_ok_def tables_defs split: if_splits)

lemma insert_asset_ok: "insert_asset a d = Inr (u, d') \<Longrightarrow> db_ok d \<Longrightarrow> db_ok d'"
proof -
  assume r: "insert_asset a d = Inr (u, d')" and ok: "db_ok d"
  let ?a = "a\<lparr>as_CreatedAt := pg_time (as_CreatedAt a)\<rparr>"
  have d': "d' = d\<lparr>db_assets := db_assets d @ [?a]\<rparr>" and new: "as_ID a \<notin> as_ID ` set (db_assets d)" "as_URI a \<notin> as_URI ` set (db_assets d)"
    using r by (auto simp: insert_asset_def list_ex_iff split: if_splits)
  have "has_asset d' x \<longleftrightarrow> has_asset d x \<or> x = as_ID a" for x by (auto simp: d' has_asset_iff)
  moreover have "has_channel d' c = has_channel d c" for c by (simp add: d' has_channel_iff)
  ultimately show ?thesis using ok new unfolding db_ok_alt row_ok_def refs_ok_def by (auto simp: d')
qed

lemma update_channel_ok: "update_channel i n lad d = Inr (c, d') \<Longrightarrow> db_ok d \<Longrightarrow> db_ok d'"
  by (auto simp: update_channel_def Let_def split: option.splits intro!: db_ok_channels)

lemma delete_channel_ok: "delete_channel i d = Inr (u, d') \<Longrightarrow> db_ok d \<Longrightarrow> db_ok d'"
proof -
  assume r: "delete_channel i d = Inr (u, d')" and ok: "db_ok d"
  let ?cs = "filter (\<lambda>c. ch_ID c \<noteq> i) (db_channels d)"
  have d': "d' = d\<lparr>db_timeline := filter (\<lambda>r. tr_channel r \<noteq> i) (db_timeline d), db_channels := ?cs, db_idem := filter (\<lambda>r. ir_channel r \<noteq> i) (db_idem d)\<rparr>"
    using r by (auto simp: delete_channel_def Let_def split: if_splits)
  have "has_channel d' c \<longleftrightarrow> has_channel d c \<and> c \<noteq> i" for c by (auto simp: d' has_channel_iff)
  moreover have "has_asset d' a = has_asset d a" for a by (simp add: d' has_asset_iff)
  ultimately show ?thesis using ok unfolding db_ok_alt row_ok_def refs_ok_def by (auto simp: d' distinct_map_filter)
qed

lemma delete_asset_ok: "delete_asset i d = Inr (u, d') \<Longrightarrow> db_ok d \<Longrightarrow> db_ok d'"
proof -
  assume r: "delete_asset i d = Inr (u, d')" and ok: "db_ok d"
  have d': "d' = d\<lparr>db_assets := filter (\<lambda>a. as_ID a \<noteq> i) (db_assets d)\<rparr>" and free: "\<forall>r \<in> set (db_timeline d). tr_asset r \<noteq> Some i"
    using r by (auto simp: delete_asset_def list_ex_iff split: if_splits)
  have "has_asset d' a \<longleftrightarrow> has_asset d a \<and> a \<noteq> i" for a by (auto simp: d' has_asset_iff)
  moreover have "has_channel d' c = has_channel d c" for c by (simp add: d' has_channel_iff)
  ultimately show ?thesis using ok free unfolding db_ok_alt row_ok_def refs_ok_def by (auto simp: d' distinct_map_filter)
qed

lemma trim_past_ok: "trim_past c t d = Inr (n, d') \<Longrightarrow> db_ok d \<Longrightarrow> db_ok d'"
  by (auto simp: trim_past_def Let_def intro: db_ok_filter_timeline)

lemma find_idem_None: "find_idem c k d = None \<longleftrightarrow> (\<forall>r \<in> set (db_idem d). \<not> (ir_channel r = c \<and> ir_key r = k))"
  by (simp add: find_idem_def find_None_set)

lemma find_idem_Some:
  assumes "db_ok d"
  shows "find_idem c k d = Some r \<longleftrightarrow> r \<in> set (db_idem d) \<and> ir_channel r = c \<and> ir_key r = k"
  unfolding find_idem_def using assms
  by (subst find_Some_iff_unique) (auto simp: db_ok_alt distinct_map inj_on_def)

lemma db_ok_idem:
  assumes "db_ok d" "distinct (map (\<lambda>r. (ir_channel r, ir_key r)) rs)" "\<forall>r \<in> set rs. has_channel d (ir_channel r)"
  shows "db_ok (d\<lparr>db_idem := rs\<rparr>)"
  using assms row_ok_cong [of "d\<lparr>db_idem := rs\<rparr>" d] by (simp add: db_ok_alt has_channel_iff)

lemma store_answer_ok:
  assumes "db_ok d" "find_idem c k d = None" "has_channel d c"
  shows "db_ok (store_answer now c k h v resp d)"
proof -
  let ?r = "\<lparr>ir_channel = c, ir_key = k, ir_hash = h, ir_version = v, ir_response = resp, ir_created = pg_time now\<rparr>"
  have "distinct (map (\<lambda>r. (ir_channel r, ir_key r)) (db_idem d @ [?r]))"
    using assms(1,2) by (auto simp: db_ok_alt find_idem_None)
  then show ?thesis unfolding store_answer_def Let_def using assms(1,3)
    by (intro db_ok_idem distinct_map_filter) (auto simp: db_ok_alt)
qed

lemma batch_frame:
  assumes "batch (insert_entry c) es d = Inr d'"
  shows "db_channels d' = db_channels d" "db_assets d' = db_assets d" "db_idem d' = db_idem d" "db_timeline d' = db_timeline d @ map (row_of c) es"
proof -
  have "db_channels d' = db_channels d \<and> db_assets d' = db_assets d \<and> db_idem d' = db_idem d \<and> db_timeline d' = db_timeline d @ map (row_of c) es"
    using assms by (induction es arbitrary: d) (auto simp: bindE_Inr_iff insert_entry_def Let_def split: if_splits)
  then show "db_channels d' = db_channels d" "db_assets d' = db_assets d" "db_idem d' = db_idem d" "db_timeline d' = db_timeline d @ map (row_of c) es" by auto
qed

definition version_of :: "db \<Rightarrow> string \<Rightarrow> int option" where
  "version_of d c = map_option ch_ScheduleVersion (List.find (\<lambda>x. ch_ID x = c) (db_channels d))"

lemma find_map_same: "(\<And>x. ch_ID (f x) = ch_ID x) \<Longrightarrow> List.find (\<lambda>x. ch_ID x = c) (map f xs) = map_option f (List.find (\<lambda>x. ch_ID x = c) xs)"
  by (induction xs) auto

lemma raise_version_frame:
  assumes "raise_version c d = Inr (v, d')"
  shows "db_assets d' = db_assets d" "db_idem d' = db_idem d" "db_timeline d' = db_timeline d" "map ch_ID (db_channels d') = map ch_ID (db_channels d)"
    "version_of d c = Some (v - 1)" "version_of d' c = Some v" "c' \<noteq> c \<Longrightarrow> version_of d' c' = version_of d c'"
proof -
  obtain x where x: "List.find (\<lambda>x. ch_ID x = c) (db_channels d) = Some x" "v = ch_ScheduleVersion x + 1"
    and d': "d' = d\<lparr>db_channels := map (\<lambda>x. if ch_ID x = c then x\<lparr>ch_ScheduleVersion := ch_ScheduleVersion x + 1\<rparr> else x) (db_channels d)\<rparr>"
    using assms by (auto simp: raise_version_def split: option.splits)
  have id: "ch_ID x = c" using x(1) by (metis (mono_tags, lifting) find_Some_iff)
  show "db_assets d' = db_assets d" "db_idem d' = db_idem d" "db_timeline d' = db_timeline d" "map ch_ID (db_channels d') = map ch_ID (db_channels d)"
    by (simp_all add: d')
  show "version_of d c = Some (v - 1)" "version_of d' c = Some v" using x id by (simp_all add: version_of_def d' find_map_same)
  show "c' \<noteq> c \<Longrightarrow> version_of d' c' = version_of d c'"
  proof (cases "List.find (\<lambda>x. ch_ID x = c') (db_channels d)")
    case (Some y)
    then have "ch_ID y = c'" by (metis (mono_tags, lifting) find_Some_iff)
    then show "c' \<noteq> c \<Longrightarrow> version_of d' c' = version_of d c'" using Some by (simp add: version_of_def d' find_map_same)
  qed (simp add: version_of_def d' find_map_same)
qed

lemma edit_tx_cases:
  assumes "edit_tx now c im k h dec d = Inr (r, d')"
  obtains (replay) row where "ar_Replayed r" "d' = d" "k \<noteq> ''''" "find_idem c k d = Some row" "ir_hash row = h" "has_channel d c"
      "r = \<lparr>ar_Version = ir_version row, ar_Replayed = True, ar_Response = Some (ir_response row)\<rparr>"
  | (commit) v ch d1 where "\<not> ar_Replayed r" "k = '''' \<or> find_idem c k d = None" "version_of d c = Some v" "im = None \<or> im = Some v"
      "dec \<lparr>rd_db = d, rd_channelID = c, rd_Version = v\<rparr> = Inr ch" "replaceInTx c (cg_From ch) (cg_To ch) (cg_Entries ch) d = Inr (v + 1, d1)"
      "r = \<lparr>ar_Version = v + 1, ar_Replayed = False, ar_Response = None\<rparr>"
      "d' = (if k = '''' then d1 else store_answer now c k h (v + 1) (case cg_Response ch of None \<Rightarrow> JObj [] | Some f \<Rightarrow> f (v + 1)) d1)"
proof -
  obtain x where x: "List.find (\<lambda>x. ch_ID x = c) (db_channels d) = Some x"
    using assms by (auto simp: edit_tx_def bindE_Inr_iff mapErrE_def find_row_def split: option.splits sum.splits)
  have v: "version_of d c = Some (ch_ScheduleVersion x)" by (simp add: version_of_def x)
  have hc: "has_channel d c" using x by (auto simp: has_channel_iff find_Some_iff)
  let ?v = "ch_ScheduleVersion x"
  have eq: "edit_tx now c im k h dec d = (case (if k \<noteq> '''' then find_idem c k d else None) of
         Some r \<Rightarrow> if ir_hash r \<noteq> h then Inl ErrIdempotencyConflict
           else Inr (\<lparr>ar_Version = ir_version r, ar_Replayed = True, ar_Response = Some (ir_response r)\<rparr>, d)
       | None \<Rightarrow> if im \<noteq> None \<and> im \<noteq> Some ?v then Inl (VersionMismatch ?v)
           else bindE (dec \<lparr>rd_db = d, rd_channelID = c, rd_Version = ?v\<rparr>) (\<lambda>ch. commit_change now c k h ch d))"
    by (simp add: edit_tx_def mapErrE_def find_row_def x Let_def)
  show ?thesis
  proof (cases "if k \<noteq> '''' then find_idem c k d else None")
    case (Some row)
    then show ?thesis using assms hc unfolding eq by (intro replay [of row]) (auto split: if_splits)
  next
    case None
    then obtain ch where ch: "dec \<lparr>rd_db = d, rd_channelID = c, rd_Version = ?v\<rparr> = Inr ch" "commit_change now c k h ch d = Inr (r, d')"
      and im: "im = None \<or> im = Some ?v"
      using assms unfolding eq by (auto simp: bindE_Inr_iff split: if_splits)
    obtain nv d1 where rp: "replaceInTx c (cg_From ch) (cg_To ch) (cg_Entries ch) d = Inr (nv, d1)"
      using ch(2) by (auto simp: commit_change_def bindE_Inr_iff mapErrE_def split: sum.splits)
    have nv: "nv = ?v + 1"
    proof -
      obtain d0 where "batch (insert_entry c) (cg_Entries ch) (delete_range c (cg_From ch) (cg_To ch) d) = Inr d0" "raise_version c d0 = Inr (nv, d1)"
        using rp by (auto simp: replaceInTx_def bindE_Inr_iff)
      then have "version_of d0 c = Some (nv - 1)" "db_channels d0 = db_channels d"
        using raise_version_frame(5) batch_frame(1) by (auto simp: delete_range_def)
      then show ?thesis using v by (auto simp: version_of_def)
    qed
    show ?thesis
      by (rule commit [of ?v ch d1])
        (use ch im rp v None in \<open>auto simp: commit_change_def mapErrE_def Let_def nv split: if_splits\<close>)
  qed
qed

lemma replaceInTx_frame:
  assumes "replaceInTx c from to es d = Inr (v, d')"
  shows "db_assets d' = db_assets d" "db_idem d' = db_idem d" "map ch_ID (db_channels d') = map ch_ID (db_channels d)"
    "version_of d' c = Some v" "c' \<noteq> c \<Longrightarrow> version_of d' c' = version_of d c'"
    "db_timeline d' = db_timeline (delete_range c from to d) @ map (row_of c) es"
proof -
  obtain d0 where d0: "batch (insert_entry c) es (delete_range c from to d) = Inr d0" "raise_version c d0 = Inr (v, d')"
    using assms by (auto simp: replaceInTx_def bindE_Inr_iff)
  note b = batch_frame [OF d0(1)] and r = raise_version_frame [OF d0(2)]
  show "db_assets d' = db_assets d" "db_idem d' = db_idem d" "map ch_ID (db_channels d') = map ch_ID (db_channels d)" "version_of d' c = Some v"
    "db_timeline d' = db_timeline (delete_range c from to d) @ map (row_of c) es"
    using b r by (simp_all add: delete_range_def)
  show "c' \<noteq> c \<Longrightarrow> version_of d' c' = version_of d c'" using b(1) r(7) [of c'] by (simp add: delete_range_def version_of_def)
qed

lemma edit_tx_ok:
  assumes "edit_tx now c im k h dec d = Inr (r, d')" "db_ok d"
  shows "db_ok d'"
  using assms(1)
proof (cases rule: edit_tx_cases)
  case replay
  then show ?thesis using assms(2) by simp
next
  case (commit v ch d1)
  have ok: "db_ok d1" by (rule replaceInTx_ok [OF commit(6) assms(2)])
  have "has_channel d1 c" using replaceInTx_frame(4) [OF commit(6)] by (auto simp: version_of_def has_channel_iff find_Some_iff)
  then show ?thesis using commit(2,8) store_answer_ok [OF ok] replaceInTx_frame(2) [OF commit(6)] ok by (auto simp: find_idem_def)
qed

text \<open>What an edit leaves behind: nothing, or the result of the transaction.\<close>

lemma EditSchedule_db:
  obtains "snd (EditSchedule l now c im k h dec d) = d"
  | r d' where "edit_tx now c im k h dec d = Inr (r, d')" "snd (EditSchedule l now c im k h dec d) = d'" "\<not> ar_Replayed r" "l \<noteq> Down"
proof (cases "edit_tx now c im k h dec d")
  case (Inl e)
  then have "snd (EditSchedule l now c im k h dec d) = d" by (cases l) (simp_all add: EditSchedule_def change_def)
  then show ?thesis by (rule that)
next
  case (Inr x)
  obtain r d' where x: "x = (r, d')" by (cases x)
  show ?thesis
  proof (cases "ar_Replayed r \<or> l = Down")
    case True
    then have "snd (EditSchedule l now c im k h dec d) = d" using Inr x by (auto simp: EditSchedule_def change_def)
    then show ?thesis by (rule that)
  next
    case False
    then have "snd (EditSchedule l now c im k h dec d) = d'" using Inr x by (cases l) (simp_all add: EditSchedule_def change_def)
    then show ?thesis using that(2) [of r d'] Inr x False by blast
  qed
qed

lemma change_ok: "db_ok d \<Longrightarrow> (\<And>x d'. r = Inr (x, d') \<Longrightarrow> db_ok d') \<Longrightarrow> db_ok (snd (change l f lost r d))"
  by (rule change_cases [of l f lost r d]) auto

lemma exec_ok: "db_ok d \<Longrightarrow> db_ok (exec lop d)"
proof -
  assume ok: "db_ok d"
  obtain l op where lop: "lop = (l, op)" by (cases lop)
  note ch = change_ok [OF ok]
  show ?thesis
  proof (cases op)
    case (OpEdit now c im k h dec)
    show ?thesis unfolding lop OpEdit exec.simps
      by (rule EditSchedule_db [of l now c im k h dec d]) (use ok edit_tx_ok in auto)
  next
    case (OpUpsert c es)
    have "batch (upsert_entry c) es d = Inr d' \<Longrightarrow> db_ok d'" for d' using batch_ok [OF _ ok] upsert_entry_ok by blast
    then show ?thesis by (auto simp: lop OpUpsert UpsertTimeline_def bindE_Inr_iff ok intro!: ch)
  next
    case (OpInsertAsset a)
    then show ?thesis using insert_asset_ok ok by (auto simp: lop InsertAssetChecked_def InsertAsset_def Let_def intro!: ch)
  next
    case (OpInsertChannel c)
    then show ?thesis using insert_channel_ok ok by (auto simp: lop InsertChannelChecked_def InsertChannel_def Let_def intro!: ch)
  next
    case (OpUpdateChannel i n lad)
    then show ?thesis using update_channel_ok ok by (auto simp: lop UpdateChannel_def intro!: ch)
  next
    case (OpDeleteChannel i)
    then show ?thesis using delete_channel_ok ok by (auto simp: lop DeleteChannel_def intro!: ch)
  next
    case (OpDeleteAsset i)
    then show ?thesis using delete_asset_ok ok by (auto simp: lop DeleteAsset_def intro!: ch)
  next
    case (OpReplace c t1 t2 es)
    then show ?thesis using replaceInTx_ok ok by (auto simp: lop ReplaceTimelineRange_def intro!: ch)
  next
    case (OpTrim c t)
    then show ?thesis using trim_past_ok ok by (auto simp: lop TrimTimelinePast_def intro!: ch)
  qed
qed

lemma empty_ok: "db_ok empty_db"
  by (simp add: db_ok_def empty_db_def)

lemma run_ok: "db_ok d \<Longrightarrow> db_ok (fold exec ops d)"
  by (induction ops arbitrary: d) (simp_all add: exec_ok)

subsection \<open>The schedule as its readers see it\<close>

definition rows_for :: "db \<Rightarrow> string \<Rightarrow> timeline_row list" where
  "rows_for d c = sort_key tr_start (filter (\<lambda>r. tr_channel r = c) (db_timeline d))"

definition view :: "db \<Rightarrow> string \<Rightarrow> TimelineEntry list" where
  "view d c = map (entry_of d) (rows_for d c)"

text \<open>An entry as it is read back: with the URI of its asset when it has none of its own.\<close>

definition resolved :: "db \<Rightarrow> TimelineEntry \<Rightarrow> TimelineEntry" where
  "resolved d e = e\<lparr>te_URI := (if te_URI e = '''' then COALESCE (asset_uri d (NULLIF (te_AssetID e))) '''' else te_URI e)\<rparr>"

lemma entry_of_start [simp]: "te_Start (entry_of d r) = tr_start r" "te_DurationS (entry_of d r) = tr_duration r"
  by (simp_all add: entry_of_def)

lemma entry_of_row: "te_Start e mod 1000 = 0 \<Longrightarrow> entry_of d (row_of c e) = resolved d e"
  by (auto simp: entry_of_def row_of_def resolved_def NULLIF_def COALESCE_def pg_time_id)

lemma entry_of_cong: "db_assets d' = db_assets d \<Longrightarrow> entry_of d' = entry_of d"
proof -
  assume "db_assets d' = db_assets d"
  then have "asset_uri d' = asset_uri d" by (intro ext) (simp add: asset_uri_def split: option.split)
  then show ?thesis by (intro ext) (simp add: entry_of_def split: option.split)
qed

lemma int4_seconds: "int4 n \<Longrightarrow> seconds n = n * second"
  by (simp add: int4_def)

lemma rows_for_in: "r \<in> set (rows_for d c) \<longleftrightarrow> r \<in> set (db_timeline d) \<and> tr_channel r = c"
  by (auto simp: rows_for_def)

lemma row_endOf: "db_ok d \<Longrightarrow> r \<in> set (db_timeline d) \<Longrightarrow> endOf (entry_of d r) = row_end r"
  by (auto simp: db_ok_alt row_ok_def endOf_def row_end_def int4_seconds)

lemma query_range_view:
  assumes "db_ok d"
  shows "query_range c from to d = filter (\<lambda>e. te_Start e < pg_time to \<and> pg_time from < endOf e) (view d c)"
proof -
  have "filter (\<lambda>r. tr_channel r = c \<and> tr_start r < pg_time to \<and> row_end r > pg_time from) (db_timeline d)
      = filter (\<lambda>r. te_Start (entry_of d r) < pg_time to \<and> pg_time from < endOf (entry_of d r)) (filter (\<lambda>r. tr_channel r = c) (db_timeline d))"
    using row_endOf [OF assms] by (auto intro: filter_cong)
  then show ?thesis by (simp add: query_range_def view_def rows_for_def filter_map comp_def filter_sort)
qed

lemma horizon_ge: "r \<in> set (db_timeline d) \<Longrightarrow> tr_channel r = c \<Longrightarrow> row_end r \<le> horizon c d"
proof -
  have *: "x \<in> set (t # ts) \<Longrightarrow> x \<le> fold max ts t" for x t :: int and ts
    by (metis Max_ge Max.set_eq_fold List.finite_set)
  assume "r \<in> set (db_timeline d)" "tr_channel r = c"
  then have "row_end r \<in> set (map row_end (filter (\<lambda>r. tr_channel r = c) (db_timeline d)))" by auto
  then show ?thesis unfolding horizon_def using * by (cases "map row_end (filter (\<lambda>r. tr_channel r = c) (db_timeline d))") auto
qed

lemma horizon_view: "db_ok d \<Longrightarrow> e \<in> set (view d c) \<Longrightarrow> endOf e \<le> horizon c d"
  by (auto simp: view_def rows_for_in row_endOf intro: horizon_ge)

lemma horizon_whole: "db_ok d \<Longrightarrow> \<forall>e \<in> set (view d c). whole (te_Start e) \<Longrightarrow> whole (horizon c d)"
proof -
  assume ok: "db_ok d" and wh: "\<forall>e \<in> set (view d c). whole (te_Start e)"
  have ends: "whole (row_end r)" if "r \<in> set (db_timeline d)" "tr_channel r = c" for r
    using wh that by (simp add: view_def rows_for_in row_end_def Nanosecond_def)
  have *: "fold max ts t \<in> set (t # ts)" for t :: int and ts
    by (metis Max_in Max.set_eq_fold List.finite_set list.set_intros(1) empty_iff)
  show ?thesis
  proof (cases "map row_end (filter (\<lambda>r. tr_channel r = c) (db_timeline d))")
    case Nil
    then show ?thesis by (simp add: horizon_def Nanosecond_def)
  next
    case (Cons t ts)
    then have "fold max ts t \<in> set (map row_end (filter (\<lambda>r. tr_channel r = c) (db_timeline d)))" using * [of ts t] by simp
    then obtain r where "r \<in> set (db_timeline d)" "tr_channel r = c" "fold max ts t = row_end r" by auto
    then show ?thesis using ends [of r] Cons by (simp add: horizon_def)
  qed
qed

lemma view_starts: "db_ok d \<Longrightarrow> distinct (map te_Start (view d c)) \<and> sorted (map te_Start (view d c))"
proof -
  assume ok: "db_ok d"
  have "inj_on tr_start {r \<in> set (db_timeline d). tr_channel r = c}"
    using ok by (auto simp: db_ok_alt distinct_map inj_on_def)
  moreover have "distinct (db_timeline d)" using ok by (auto simp: db_ok_alt distinct_map)
  ultimately show ?thesis by (simp add: view_def rows_for_def comp_def distinct_map)
qed

lemma view_replace:
  assumes "replaceInTx c from to es d = Inr (v, d')" "db_ok d" "\<forall>e \<in> set es. te_Start e mod 1000 = 0" "from mod 1000 = 0" "to mod 1000 = 0"
  shows "view d' c = apply_edit (view d c) \<lparr>ed_From = from, ed_To = to, ed_Entries = map (resolved d) es\<rparr>"
    and "c' \<noteq> c \<Longrightarrow> view d' c' = view d c'"
proof -
  note fr = replaceInTx_frame [OF assms(1)]
  have same: "entry_of d' = entry_of d" by (rule entry_of_cong [OF fr(1)])
  have tl: "db_timeline d' = filter (\<lambda>r. \<not> (tr_channel r = c \<and> from \<le> tr_start r \<and> tr_start r < to)) (db_timeline d) @ map (row_of c) es"
    using fr(6) assms(4,5) by (simp add: delete_range_def pg_time_id)
  show "c' \<noteq> c \<Longrightarrow> view d' c' = view d c'"
    by (auto simp: view_def rows_for_def same tl filter_map comp_def intro!: arg_cong [of _ _ "\<lambda>x. map (entry_of d) (sort_key tr_start x)"] filter_cong)
  have ok': "db_ok d'" by (rule replaceInTx_ok [OF assms(1,2)])
  have "mset (view d' c) = mset (filter (\<lambda>e. \<not> (from \<le> te_Start e \<and> te_Start e < to)) (view d c) @ map (resolved d) es)"
  proof -
    define A where "A = filter (\<lambda>r. tr_channel r = c) (db_timeline d)"
    define Q where "Q = (\<lambda>t. \<not> (from \<le> t \<and> t < to))"
    have es: "map (entry_of d) (map (row_of c) es) = map (resolved d) es" using assms(3) by (simp add: entry_of_row)
    have "filter (\<lambda>r. tr_channel r = c) (db_timeline d') = filter (\<lambda>r. Q (tr_start r)) A @ map (row_of c) es"
      unfolding tl A_def Q_def by (auto simp: filter_map comp_def intro: filter_cong)
    then have "mset (view d' c) = mset (map (entry_of d) (filter (\<lambda>r. Q (tr_start r)) A)) + mset (map (resolved d) es)"
      unfolding view_def rows_for_def same es [symmetric] by (simp add: multiset.map_comp)
    also have "mset (map (entry_of d) (filter (\<lambda>r. Q (tr_start r)) A)) = mset (filter (\<lambda>e. Q (te_Start e)) (view d c))"
      unfolding view_def rows_for_def A_def [symmetric] filter_map comp_def by simp
    finally show ?thesis by (simp add: Q_def)
  qed
  then show "view d' c = apply_edit (view d c) \<lparr>ed_From = from, ed_To = to, ed_Entries = map (resolved d) es\<rparr>"
    unfolding apply_edit_def using view_starts [OF ok', of c] by (intro sort_key_unique) simp_all
qed

subsection \<open>What the readers of the schedule rely on\<close>

text \<open>
  The interface of the store for those who read a schedule: the engine, which reads the next minutes, and a command, which reads
  everything that is on the air from a moment on. \<open>sched\<close> is the schedule of a channel in order of its starts.
\<close>

locale schedule_store =
  fixes inv :: "'d \<Rightarrow> bool" and sched :: "'d \<Rightarrow> string \<Rightarrow> TimelineEntry list"
    and range :: "string \<Rightarrow> gtime \<Rightarrow> gtime \<Rightarrow> 'd \<Rightarrow> TimelineEntry list" and until :: "string \<Rightarrow> 'd \<Rightarrow> gtime"
  assumes range_sched: "inv d \<Longrightarrow> whole t1 \<Longrightarrow> whole t2 \<Longrightarrow> range c t1 t2 d = filter (\<lambda>e. te_Start e < t2 \<and> t1 < endOf e) (sched d c)"
    and until_sched: "inv d \<Longrightarrow> e \<in> set (sched d c) \<Longrightarrow> endOf e \<le> until c d"
    and until_whole: "inv d \<Longrightarrow> \<forall>e \<in> set (sched d c). whole (te_Start e) \<Longrightarrow> whole (until c d)"
begin

text \<open>A command sees exactly the entries that end after its moment.\<close>

lemma range_from:
  assumes "inv d" "wf_sched (sched d c)" "whole at0"
  shows "range c at0 ((if until c d < at0 then at0 else until c d) + second) d = filter (\<lambda>e. at0 < endOf e) (sched d c)"
proof -
  have w: "\<forall>e \<in> set (sched d c). whole (te_Start e)" "\<forall>e \<in> set (sched d c). te_Start e < endOf e"
    using assms(2) by (auto simp: wf_sched_def entry_wf_def endOf_gt)
  have "whole ((if until c d < at0 then at0 else until c d) + second)"
    using until_whole [OF assms(1) w(1)] assms(3) by (simp add: Nanosecond_def)
  moreover have "te_Start e < (if until c d < at0 then at0 else until c d) + second" if "e \<in> set (sched d c)" for e
    using until_sched [OF assms(1) that] w(2) that by fastforce
  ultimately show ?thesis using range_sched [OF assms(1,3)] by (auto intro: filter_cong)
qed

text \<open>The engine, which reads a window, sees what is on the air at every moment of it.\<close>

lemma range_airs:
  assumes "inv d" "whole t1" "whole t2" "t1 \<le> t" "t < t2"
  shows "airs (range c t1 t2 d) t = airs (sched d c) t"
proof -
  have "List.find (\<lambda>e. covers e t) (filter (\<lambda>e. te_Start e < t2 \<and> t1 < endOf e) es) = List.find (\<lambda>e. covers e t) es" for es
    using assms(4,5) by (induction es) (auto simp: covers_def)
  then show ?thesis by (simp add: airs_def range_sched [OF assms(1-3)])
qed

end

interpretation store: schedule_store db_ok view query_range horizon
  by unfold_locales (simp_all add: query_range_view pg_time_whole horizon_view horizon_whole)

subsection \<open>The abstract store\<close>

text \<open>What the store promises: per channel a version and a schedule.\<close>

definition abs_store :: "db \<Rightarrow> string \<Rightarrow> (int \<times> TimelineEntry list) option" where
  "abs_store d c = map_option (\<lambda>v. (v, view d c)) (version_of d c)"

definition change_whole :: "Change \<Rightarrow> bool" where
  "change_whole ch \<longleftrightarrow> whole (cg_From ch) \<and> whole (cg_To ch) \<and> list_all (\<lambda>e. whole (te_Start e)) (cg_Entries ch)"

definition edit_of :: "db \<Rightarrow> Change \<Rightarrow> Edit" where
  "edit_of d ch = \<lparr>ed_From = cg_From ch, ed_To = cg_To ch, ed_Entries = map (resolved d) (cg_Entries ch)\<rparr>"

lemma store_answer_frame [simp]:
  "db_channels (store_answer now c k h v resp d) = db_channels d" "db_assets (store_answer now c k h v resp d) = db_assets d"
  "db_timeline (store_answer now c k h v resp d) = db_timeline d"
  by (simp_all add: store_answer_def Let_def)

lemma view_cong: "db_assets d' = db_assets d \<Longrightarrow> db_timeline d' = db_timeline d \<Longrightarrow> view d' c = view d c"
  by (simp add: view_def rows_for_def entry_of_cong [of d' d])

lemma commit_abs:
  assumes rp: "replaceInTx c (cg_From ch) (cg_To ch) (cg_Entries ch) d = Inr (v + 1, d1)" and ok: "db_ok d" and wh: "change_whole ch"
    and d': "db_channels d' = db_channels d1" "db_assets d' = db_assets d1" "db_timeline d' = db_timeline d1"
  shows "abs_store d' = (abs_store d)(c \<mapsto> (v + 1, apply_edit (view d c) (edit_of d ch)))"
proof
  fix x
  have v': "version_of d' y = version_of d1 y" "view d' y = view d1 y" for y using d'(1) view_cong [OF d'(2,3)] by (simp_all add: version_of_def)
  note vr = view_replace [OF rp ok] and fr = replaceInTx_frame [OF rp]
  have es: "\<forall>e \<in> set (cg_Entries ch). te_Start e mod 1000 = 0" "cg_From ch mod 1000 = 0" "cg_To ch mod 1000 = 0"
    using wh by (auto simp: change_whole_def list_all_iff whole_mod)
  show "abs_store d' x = ((abs_store d)(c \<mapsto> (v + 1, apply_edit (view d c) (edit_of d ch)))) x"
    using fr(4) fr(5) [of x] vr [OF es] by (cases "x = c") (simp_all add: abs_store_def v' edit_of_def)
qed

subsection \<open>Repeats\<close>

text \<open>What other calls do to a stored answer: they keep it for a day, unless the channel is deleted.\<close>

fun spares :: "string \<Rightarrow> gtime \<Rightarrow> store_op \<Rightarrow> bool" where
  "spares c t (OpDeleteChannel i) \<longleftrightarrow> i \<noteq> c"
| "spares c t (OpEdit now c' im k h dec) \<longleftrightarrow> now \<le> t"
| "spares c t _ \<longleftrightarrow> True"

lemma change_frame:
  assumes "\<And>x d'. r = Inr (x, d') \<Longrightarrow> P d'" "P d" shows "P (snd (change l f lost r d))"
  by (rule change_cases [of l f lost r d]) (use assms in auto)

lemma upsert_frame: "batch (upsert_entry c) es d = Inr d' \<Longrightarrow> db_channels d' = db_channels d \<and> db_idem d' = db_idem d"
  by (induction es arbitrary: d) (auto simp: bindE_Inr_iff upsert_entry_def Let_def split: if_splits)

lemma pg_time_mono: "s \<le> t \<Longrightarrow> pg_time s \<le> pg_time t"
proof -
  assume "s \<le> t"
  then have "s div 1000 \<le> t div 1000" by (rule zdiv_mono1) simp
  then show ?thesis unfolding pg_time_def minus_mod_eq_mult_div by simp
qed

text \<open>The stored answer and its channel are still there.\<close>

definition kept :: "string \<Rightarrow> idem_row \<Rightarrow> db \<Rightarrow> bool" where
  "kept c row d \<longleftrightarrow> row \<in> set (db_idem d) \<and> has_channel d c"

lemma exec_kept:
  assumes ok: "db_ok d" and k: "kept c row d" "ir_channel row = c" and sp: "spares c t op" and age: "pg_time t \<le> ir_created row + day"
  shows "kept c row (exec (l, op) d)"
proof (cases op)
  case (OpEdit now c' im key h dec)
  show ?thesis unfolding OpEdit exec.simps
  proof (rule EditSchedule_db [of l now c' im key h dec d])
    fix r d' assume tx: "edit_tx now c' im key h dec d = Inr (r, d')" and e: "snd (EditSchedule l now c' im key h dec d) = d'" "\<not> ar_Replayed r"
    from tx show "kept c row (snd (EditSchedule l now c' im key h dec d))" unfolding e(1)
    proof (cases rule: edit_tx_cases)
      case replay
      then show "kept c row d'" using e(2) by simp
    next
      case (commit v ch d1)
      note fr = replaceInTx_frame [OF commit(6)]
      have "ch_ID ` set (db_channels d1) = ch_ID ` set (db_channels d)" using fr(3) by (metis set_map)
      then have k1: "kept c row d1" using k(1) fr(2) by (simp add: kept_def has_channel_iff)
      have "\<not> ir_created row < pg_time now - day" using pg_time_mono [of now t] sp age by (simp add: OpEdit)
      then have "kept c row (store_answer now c' key h (v + 1) resp d1)" for resp
        using k1 by (auto simp: kept_def store_answer_def Let_def has_channel_iff)
      then show "kept c row d'" using k1 by (simp add: commit(8))
    qed
  qed (use k in simp)
next
  case (OpUpsert c' es)
  have "kept c row (snd (change l PgError (PgError Unavailable) (bindE (batch (upsert_entry c') es d) (\<lambda>d'. Inr ((), d'))) d))"
  proof (rule change_frame)
    fix u d' assume "bindE (batch (upsert_entry c') es d) (\<lambda>d'. Inr ((), d')) = Inr (u, d')"
    then have "batch (upsert_entry c') es d = Inr d'" by (auto simp: bindE_Inr_iff)
    then show "kept c row d'" using k(1) upsert_frame by (metis kept_def has_channel_iff)
  qed (use k in simp)
  then show ?thesis using k(1) by (simp add: OpUpsert UpsertTimeline_def)
next
  case (OpReplace c' t1 t2 es)
  show ?thesis unfolding OpReplace exec.simps ReplaceTimelineRange_def
  proof (rule change_frame)
    fix v d' assume r: "replaceInTx c' t1 t2 es d = Inr (v, d')"
    have "ch_ID ` set (db_channels d') = ch_ID ` set (db_channels d)" using replaceInTx_frame(3) [OF r] by (metis set_map)
    then show "kept c row d'" using k replaceInTx_frame(2) [OF r] by (simp add: kept_def has_channel_iff)
  qed (use k in simp)
next
  case (OpUpdateChannel i n lad)
  show ?thesis unfolding OpUpdateChannel exec.simps UpdateChannel_def
  proof (rule change_frame)
    fix x d' assume "update_channel i n lad d = Inr (x, d')"
    then have "map ch_ID (db_channels d') = map ch_ID (db_channels d)" "db_idem d' = db_idem d"
      by (auto simp: update_channel_def Let_def split: option.splits)
    then show "kept c row d'" using k(1) unfolding kept_def has_channel_iff by (metis set_map)
  qed (use k in simp)
next
  case (OpDeleteChannel i)
  show ?thesis unfolding OpDeleteChannel exec.simps DeleteChannel_def
    by (rule change_frame) (use k sp OpDeleteChannel in \<open>auto simp: delete_channel_def kept_def has_channel_iff Let_def split: if_splits\<close>)
next
  case (OpInsertAsset a)
  have "kept c row (snd (change l f lost (insert_asset b d) d))" for f :: "pg_error \<Rightarrow> pg_error" and lost b
    by (rule change_frame) (use k in \<open>auto simp: insert_asset_def kept_def has_channel_iff split: if_splits\<close>)
  then show ?thesis by (simp add: OpInsertAsset InsertAssetChecked_def InsertAsset_def Let_def)
next
  case (OpInsertChannel a)
  have "kept c row (snd (change l f lost (insert_channel b d) d))" for f :: "pg_error \<Rightarrow> pg_error" and lost b
    by (rule change_frame) (use k in \<open>auto simp: insert_channel_def kept_def has_channel_iff split: if_splits\<close>)
  then show ?thesis by (simp add: OpInsertChannel InsertChannelChecked_def InsertChannel_def Let_def)
next
  case (OpDeleteAsset i)
  show ?thesis unfolding OpDeleteAsset exec.simps DeleteAsset_def
    by (rule change_frame) (use k in \<open>auto simp: delete_asset_def kept_def has_channel_iff split: if_splits\<close>)
next
  case (OpTrim c' cut)
  show ?thesis unfolding OpTrim exec.simps TrimTimelinePast_def
    by (rule change_frame) (use k in \<open>auto simp: trim_past_def kept_def has_channel_iff Let_def\<close>)
qed

lemma run_kept:
  assumes "db_ok d" "kept c row d" "ir_channel row = c" "list_all (\<lambda>(l, op). spares c t op) ops" "pg_time t \<le> ir_created row + day"
  shows "kept c row (fold exec ops d)"
  using assms
proof (induction ops arbitrary: d)
  case (Cons lop ops)
  obtain l op where "lop = (l, op)" by (cases lop)
  then show ?case using Cons.IH [OF exec_ok [OF Cons.prems(1)] exec_kept [OF Cons.prems(1-3), of t op l]] Cons.prems by simp
qed simp

subsection \<open>Properties\<close>

text \<open>Whatever calls are made in whatever order, on connections that fail at any point, the tables satisfy the constraints of
  the schema: ids, URIs, starts of a channel and idempotency keys are unique, every entry belongs to an existing channel and
  refers to a registered asset or none, and no answer is kept for a channel that is gone.\<close>

theorem store_constraints: "db_ok (fold exec ops empty_db)"
  by (rule run_ok [OF empty_ok])

text \<open>The effect of an edit that was carried out, on the abstract store.\<close>

definition edited :: "db \<Rightarrow> string \<Rightarrow> int option \<Rightarrow> (Reader \<Rightarrow> store_error + Change) \<Rightarrow> int \<Rightarrow> db \<Rightarrow> bool" where
  "edited d c im dec v d' \<longleftrightarrow> version_of d c = Some v \<and> (im = None \<or> im = Some v) \<and>
     (\<exists>ch. dec \<lparr>rd_db = d, rd_channelID = c, rd_Version = v\<rparr> = Inr ch \<and> abs_store d' = (abs_store d)(c \<mapsto> (v + 1, apply_edit (view d c) (edit_of d ch))))"

lemma edit_tx_edited:
  assumes ok: "db_ok d" and wh: "\<And>v ch. dec \<lparr>rd_db = d, rd_channelID = c, rd_Version = v\<rparr> = Inr ch \<Longrightarrow> change_whole ch" and tx: "edit_tx now c im k h dec d = Inr (r, d')" "\<not> ar_Replayed r"
  obtains v where "edited d c im dec v d'" "r = \<lparr>ar_Version = v + 1, ar_Replayed = False, ar_Response = None\<rparr>"
  using tx(1)
proof (cases rule: edit_tx_cases)
  case replay
  then show ?thesis using tx(2) by simp
next
  case (commit v ch d1)
  have "abs_store d' = (abs_store d)(c \<mapsto> (v + 1, apply_edit (view d c) (edit_of d ch)))"
    by (rule commit_abs [OF commit(6) ok wh [OF commit(5)]]) (simp_all add: commit(8))
  then show ?thesis using that [of v] commit by (auto simp: edited_def)
qed

text \<open>C25. \<^verbatim>\<open>EditSchedule\<close> implements a versioned schedule. The abstract store is a version and a schedule per channel. A call
  either leaves the database as it was, or it raises the version of this channel by exactly one and replaces the entries that start in
  the window by those the edit decided on, having seen the schedule at that version; nothing else changes. A new answer means
  that the edit was carried out, a repeated answer and an error that nothing was changed -- the only exception is a lost answer to the commit. An edit
  with a version condition is only carried out at that version.\<close>

theorem EditSchedule_refines:
  assumes "db_ok d" and "\<And>v ch. dec \<lparr>rd_db = d, rd_channelID = c, rd_Version = v\<rparr> = Inr ch \<Longrightarrow> change_whole ch" and "EditSchedule l now c im k h dec d = (res, d')"
  shows "case res of
      Inr r \<Rightarrow> if ar_Replayed r then d' = d else edited d c im dec (ar_Version r - 1) d'
    | Inl e \<Rightarrow> d' = d \<or> (l = LostAck \<and> e = PgError Unavailable \<and> (\<exists>v. edited d c im dec v d'))"
proof (cases "edit_tx now c im k h dec d")
  case (Inl e)
  then show ?thesis using assms(3) by (cases l) (auto simp: EditSchedule_def change_def)
next
  case (Inr x)
  obtain r d1 where x: "x = (r, d1)" by (cases x)
  show ?thesis
  proof (cases "ar_Replayed r")
    case True
    then show ?thesis using assms(3) Inr x by (cases l) (auto simp: EditSchedule_def change_def)
  next
    case False
    obtain v where "edited d c im dec v d1" "r = \<lparr>ar_Version = v + 1, ar_Replayed = False, ar_Response = None\<rparr>"
      by (rule edit_tx_edited [OF assms(1,2) Inr [unfolded x] False])
    then show ?thesis using assms(3) Inr x by (cases l) (auto simp: EditSchedule_def change_def)
  qed
qed

lemma pg_time_day: "t \<le> now + day \<Longrightarrow> pg_time t \<le> pg_time now + day"
proof -
  assume "t \<le> now + day"
  then have "pg_time t \<le> pg_time (now + day)" by (rule pg_time_mono)
  also have "pg_time (now + day) = pg_time now + day" by (simp add: pg_time_def day_def mod_add_eq [symmetric])
  finally show ?thesis .
qed

text \<open>C27. A request with an idempotency key takes effect at most once. Once a call was carried out -- also when its answer was lost and
  the client saw an error -- every repeat within a day, after any other calls that do not delete the channel, changes nothing
  and returns the version and the stored answer of the first.\<close>

theorem retry_once:
  assumes ok: "db_ok d" and first: "EditSchedule l now c im k h dec d = (res, d1)" "d1 \<noteq> d" and k: "k \<noteq> ''''"
    and others: "list_all (\<lambda>(l, op). spares c t op) ops" "t \<le> now + day" and up: "l' \<noteq> Down"
  shows "\<exists>v ch. dec \<lparr>rd_db = d, rd_channelID = c, rd_Version = v\<rparr> = Inr ch \<and> version_of d c = Some v \<and> version_of d1 c = Some (v + 1) \<and>
    (res = Inr \<lparr>ar_Version = v + 1, ar_Replayed = False, ar_Response = None\<rparr> \<or> res = Inl (PgError Unavailable)) \<and>
    EditSchedule l' now' c im' k h dec' (fold exec ops d1) =
      (Inr \<lparr>ar_Version = v + 1, ar_Replayed = True, ar_Response = Some (case cg_Response ch of None \<Rightarrow> JObj [] | Some f \<Rightarrow> f (v + 1))\<rparr>, fold exec ops d1)"
proof -
  obtain r where tx: "edit_tx now c im k h dec d = Inr (r, d1)" "\<not> ar_Replayed r"
    using EditSchedule_db [of l now c im k h dec d] first by (metis snd_conv)
  have res: "res = Inr r \<or> res = Inl (PgError Unavailable)"
    using first(1) tx by (cases l) (auto simp: EditSchedule_def change_def)
  from tx(1) show ?thesis
  proof (cases rule: edit_tx_cases)
    case replay
    then show ?thesis using tx(2) by simp
  next
    case (commit v ch d0)
    define resp where "resp = (case cg_Response ch of None \<Rightarrow> JObj [] | Some f \<Rightarrow> f (v + 1))"
    define row where "row = \<lparr>ir_channel = c, ir_key = k, ir_hash = h, ir_version = v + 1, ir_response = resp, ir_created = pg_time now\<rparr>"
    note fr = replaceInTx_frame [OF commit(6)]
    have d1: "d1 = store_answer now c k h (v + 1) resp d0" using commit(8) k by (simp add: resp_def)
    have v1: "version_of d1 c = Some (v + 1)" using fr(4) by (simp add: d1 version_of_def)
    then have "has_channel d1 c" by (auto simp: version_of_def has_channel_iff find_Some_iff)
    then have "kept c row d1" by (simp add: kept_def d1 store_answer_def row_def Let_def day_def)
    moreover have ok1: "db_ok d1" by (rule edit_tx_ok [OF tx(1) ok])
    ultimately have kd: "kept c row (fold exec ops d1)"
      using run_kept [OF ok1 _ _ others(1)] pg_time_day [OF others(2)] by (simp add: row_def)
    have okd: "db_ok (fold exec ops d1)" by (rule run_ok [OF ok1])
    have f: "find_idem c k (fold exec ops d1) = Some row" using kd by (simp add: find_idem_Some [OF okd] kept_def row_def)
    obtain x where "List.find (\<lambda>x. ch_ID x = c) (db_channels (fold exec ops d1)) = Some x"
      using kd by (cases "List.find (\<lambda>x. ch_ID x = c) (db_channels (fold exec ops d1))") (auto simp: kept_def has_channel_iff find_None_iff)
    then have "edit_tx now' c im' k h dec' (fold exec ops d1) =
        Inr (\<lparr>ar_Version = v + 1, ar_Replayed = True, ar_Response = Some resp\<rparr>, fold exec ops d1)"
      using f k by (simp add: edit_tx_def find_row_def mapErrE_def row_def)
    then have "EditSchedule l' now' c im' k h dec' (fold exec ops d1) =
        (Inr \<lparr>ar_Version = v + 1, ar_Replayed = True, ar_Response = Some resp\<rparr>, fold exec ops d1)"
      using up by (simp add: EditSchedule_def)
    then show ?thesis using commit v1 res by (intro exI [of _ v] exI [of _ ch]) (simp add: resp_def)
  qed
qed

subsection \<open>Witnesses\<close>

definition w_slate_entry :: TimelineEntry where
  "w_slate_entry = zero_entry\<lparr>te_Type := ''slate'', te_Start := 1767837600 * second, te_DurationS := 60\<rparr>"

definition w_db :: db where
  "w_db = \<lparr>db_channels = [\<lparr>ch_ID = ''c1'', ch_Name = ''one'', ch_SegmentSec = 1, ch_Ladder = Some [], ch_CreatedAt = 0, ch_ScheduleVersion = 3\<rparr>],
     db_assets = [], db_timeline = [row_of ''c1'' (w_slate_entry\<lparr>te_DurationS := 10\<rparr>)], db_idem = []\<rparr>"

definition w_change :: "Reader \<Rightarrow> store_error + Change" where
  "w_change rd = Inr \<lparr>cg_From = 1767837600 * second, cg_To = 1767841200 * second, cg_Entries = [w_slate_entry],
     cg_Response = Some (\<lambda>v. JObj [(''version'', JInt v)])\<rparr>"

abbreviation w_edit :: "link \<Rightarrow> db \<Rightarrow> (store_error + ApplyResult) \<times> db" where
  "w_edit l d \<equiv> EditSchedule l (1767836805 * second) ''c1'' (Some 3) ''k1'' ''hash'' w_change d"

lemma w_db_ok: "db_ok w_db"
  by (simp add: db_ok_def w_db_def row_of_def w_slate_entry_def zero_entry_def refs_ok_def has_channel_def validTypes_def int4_def NULLIF_def pg_time_def)

lemma w_whole: "w_change rd = Inr ch \<Longrightarrow> change_whole ch"
  by (auto simp: w_change_def change_whole_def Nanosecond_def w_slate_entry_def)

lemma w_tx: "\<exists>d1. edit_tx (1767836805 * second) ''c1'' (Some 3) ''k1'' ''hash'' w_change w_db =
    Inr (\<lparr>ar_Version = 4, ar_Replayed = False, ar_Response = None\<rparr>, d1) \<and> d1 \<noteq> w_db"
  by (simp add: edit_tx_def find_row_def mapErrE_def find_idem_def w_change_def commit_change_def replaceInTx_def delete_range_def insert_entry_def
      raise_version_def store_answer_def w_slate_entry_def zero_entry_def row_of_def NULLIF_def pg_time_def int4_def validTypes_def refs_ok_def
      has_channel_def w_db_def day_def)

theorem EditSchedule_refines_witness:
  "\<exists>r d1. w_edit Up w_db = (Inr r, d1) \<and> \<not> ar_Replayed r \<and> edited w_db ''c1'' (Some 3) w_change (ar_Version r - 1) d1"
proof -
  obtain d1 where tx: "edit_tx (1767836805 * second) ''c1'' (Some 3) ''k1'' ''hash'' w_change w_db =
      Inr (\<lparr>ar_Version = 4, ar_Replayed = False, ar_Response = None\<rparr>, d1)" using w_tx by blast
  then have e: "w_edit Up w_db = (Inr \<lparr>ar_Version = 4, ar_Replayed = False, ar_Response = None\<rparr>, d1)" by (simp add: EditSchedule_def)
  show ?thesis using EditSchedule_refines [OF w_db_ok w_whole e] e by auto
qed

theorem retry_once_witness:
  "\<exists>d1. w_edit LostAck w_db = (Inl (PgError Unavailable), d1) \<and>
    w_edit Up (fold exec [(Up, OpTrim ''c1'' 0)] d1) =
      (Inr \<lparr>ar_Version = 4, ar_Replayed = True, ar_Response = Some (JObj [(''version'', JInt 4)])\<rparr>, fold exec [(Up, OpTrim ''c1'' 0)] d1)"
proof -
  obtain d1 where tx: "edit_tx (1767836805 * second) ''c1'' (Some 3) ''k1'' ''hash'' w_change w_db =
      Inr (\<lparr>ar_Version = 4, ar_Replayed = False, ar_Response = None\<rparr>, d1)" and d1: "d1 \<noteq> w_db" using w_tx by blast
  then have e: "w_edit LostAck w_db = (Inl (PgError Unavailable), d1)" by (simp add: EditSchedule_def change_def)
  have v: "version_of w_db ''c1'' = Some 3" by (simp add: version_of_def w_db_def)
  show ?thesis
    using retry_once [OF w_db_ok e d1, of "1767836805 * second" "[(Up, OpTrim ''c1'' 0)]" Up "1767836805 * second" "Some 3" w_change] e v
    by (auto simp: w_change_def day_def)
qed

end
