(* ===== verification/Auth.thy ===== *)
theory Auth
  imports Http
begin

text \<open>
  \<^verbatim>\<open>pkg/auth/auth.go\<close>: API keys with scopes and channels. The text of \<^verbatim>\<open>API_KEYS\<close> is read byte by byte as the code does; a key
  keeps only the hash of its secret. \<open>sha\<close> stands for \<^verbatim>\<open>sha256.Sum256\<close>. \<open>Require\<close> is the middleware: it takes a handler and gives
  a handler, and the context of a request carries the key that was used.
\<close>

datatype Scope = Read | Schedule | Command | Admin

definition scope_name :: "Scope \<Rightarrow> string" where
  "scope_name s = (case s of Read \<Rightarrow> ''read'' | Schedule \<Rightarrow> ''schedule'' | Command \<Rightarrow> ''command'' | Admin \<Rightarrow> ''admin'')"

definition allScopes :: "Scope list" where
  "allScopes = [Read, Schedule, Command, Admin]"

record Key =
  ky_Name :: string
  ky_hash :: "byte list"
  ky_scopes :: "Scope set"
  ky_channels :: "string set"
  ky_allChannels :: bool

definition Allows :: "Key \<Rightarrow> Scope \<Rightarrow> string \<Rightarrow> bool" where
  "Allows k s channel =
     (if s \<notin> ky_scopes k \<and> Admin \<notin> ky_scopes k then False
      else if channel = '''' \<or> ky_allChannels k then True
      else channel \<in> ky_channels k)"

subsection \<open>Reading the keys\<close>

datatype auth_error = BadKey string | BadFields string | BadSha256 string | ShortSecret string | UnknownScope string string
  | NoScopes string | NoChannels string | NoKeys | TwoKeys string

text \<open>The two loops of \<^verbatim>\<open>parseKey\<close>.\<close>

fun scope_loop :: "string \<Rightarrow> string list \<Rightarrow> Scope set \<Rightarrow> auth_error + Scope set" where
  "scope_loop name [] acc = Inr acc"
| "scope_loop name (sc0 # scs) acc =
     (let sc = TrimSpace sc0 in
      if sc = ''*'' then scope_loop name scs (acc \<union> set allScopes)
      else (case List.find (\<lambda>a. scope_name a = sc) allScopes of
              None \<Rightarrow> Inl (UnknownScope name sc)
            | Some a \<Rightarrow> scope_loop name scs (insert a acc)))"

fun channel_loop :: "string list \<Rightarrow> string set \<times> bool \<Rightarrow> string set \<times> bool" where
  "channel_loop [] st = st"
| "channel_loop (ch0 # chs) (channels, all) =
     (let ch = TrimSpace ch0 in
      channel_loop chs (if ch = ''*'' then (channels, True) else if ch \<noteq> '''' then (insert ch channels, all) else (channels, all)))"

definition secret_hash :: "(string \<Rightarrow> byte list) \<Rightarrow> string \<Rightarrow> string \<Rightarrow> auth_error + byte list" where
  "secret_hash sha name secret =
     (if HasPrefix secret ''sha256:'' then
        (case hex_DecodeString (TrimPrefix secret ''sha256:'') of
           None \<Rightarrow> Inl (BadSha256 name)
         | Some raw \<Rightarrow> if length raw \<noteq> 32 then Inl (BadSha256 name) else Inr raw)
      else if length secret < 8 then Inl (ShortSecret name)
      else Inr (sha secret))"

text \<open>The secret and the fields after it: a sha256 secret has a colon of its own.\<close>

definition key_fields :: "string \<Rightarrow> string \<times> string list" where
  "key_fields rest =
     (let flds = split_on (CHR '':'') rest in
      if length flds > 0 \<and> hd flds = ''sha256'' \<and> length flds \<ge> 2
      then (''sha256:'' @ flds ! 1, drop 2 flds) else (hd flds, tl flds))"

definition build_key :: "(string \<Rightarrow> byte list) \<Rightarrow> string \<Rightarrow> string \<Rightarrow> string list \<Rightarrow> auth_error + Key" where
  "build_key sha name secret flds =
     (if length flds \<noteq> 2 then Inl (BadFields name)
      else
        bindE (secret_hash sha name secret) (\<lambda>h.
        bindE (scope_loop name (split_on (CHR ''+'') (flds ! 0)) {}) (\<lambda>scopes.
          case channel_loop (split_on (CHR ''+'') (flds ! 1)) ({}, False) of (channels, all) \<Rightarrow>
            if scopes = {} then Inl (NoScopes name)
            else if \<not> all \<and> channels = {} then Inl (NoChannels name)
            else Inr \<lparr>ky_Name = TrimSpace name, ky_hash = h, ky_scopes = scopes, ky_channels = channels, ky_allChannels = all\<rparr>)))"

definition parseKey :: "(string \<Rightarrow> byte list) \<Rightarrow> string \<Rightarrow> auth_error + Key" where
  "parseKey sha s =
     (case cut_at (CHR ''='') s of (name, rest, ok) \<Rightarrow>
        if \<not> ok \<or> name = '''' then Inl (BadKey s)
        else (case key_fields rest of (secret, flds) \<Rightarrow> build_key sha name secret flds))"

definition key_sep :: "char \<Rightarrow> bool" where
  "key_sep c \<longleftrightarrow> c = CHR '';'' \<or> c = CHR 0x0A"

text \<open>The parts of the list, trimmed, without the empty ones.\<close>

definition key_parts :: "string \<Rightarrow> string list" where
  "key_parts list = filter (\<lambda>p. p \<noteq> '''') (map TrimSpace (fields_func key_sep list))"

fun name_twice :: "string set \<Rightarrow> Key list \<Rightarrow> string option" where
  "name_twice seen [] = None"
| "name_twice seen (k # ks) = (if ky_Name k \<in> seen then Some (ky_Name k) else name_twice (insert (ky_Name k) seen) ks)"

definition default_key :: "(string \<Rightarrow> byte list) \<Rightarrow> string \<Rightarrow> Key" where
  "default_key sha single = \<lparr>ky_Name = ''default'', ky_hash = sha single, ky_scopes = {Admin}, ky_channels = {}, ky_allChannels = True\<rparr>"

definition ParseKeys :: "(string \<Rightarrow> byte list) \<Rightarrow> string \<Rightarrow> string \<Rightarrow> auth_error + Key list" where
  "ParseKeys sha list single =
     bindE (mapE (parseKey sha) (key_parts list)) (\<lambda>ks0.
       let ks = (if single \<noteq> '''' then ks0 @ [default_key sha single] else ks0) in
       if length ks = 0 then Inl NoKeys
       else (case name_twice {} ks of Some n \<Rightarrow> Inl (TwoKeys n) | None \<Rightarrow> Inr ks))"

subsection \<open>Checking a request\<close>

definition Find :: "(string \<Rightarrow> byte list) \<Rightarrow> Key list \<Rightarrow> string \<Rightarrow> Key option" where
  "Find sha ks secret =
     (if secret = '''' then None
      else foldl (\<lambda>found k. if sha secret = ky_hash k then Some k else found) None ks)"

definition secretOf :: "request \<Rightarrow> string" where
  "secretOf r =
     (if rq_header r ''X-API-Key'' \<noteq> '''' then rq_header r ''X-API-Key''
      else if HasPrefix (rq_header r ''Authorization'') ''Bearer '' then TrimSpace (TrimPrefix (rq_header r ''Authorization'') ''Bearer '')
      else '''')"

definition describe :: "string \<Rightarrow> string" where
  "describe ch = (if ch = '''' then ''this resource'' else ''channel '' @ ch)"

type_synonym 's handler = "Key option \<Rightarrow> request \<Rightarrow> 's \<Rightarrow> response \<times> 's"

definition Require :: "(string \<Rightarrow> byte list) \<Rightarrow> Key list \<Rightarrow> Scope \<Rightarrow> (request \<Rightarrow> string) option \<Rightarrow> 's handler \<Rightarrow> 's handler" where
  "Require sha ks s channel serve ctx r st =
     (case Find sha ks (secretOf r) of
        None \<Rightarrow> (WriteProblem [(''WWW-Authenticate'', ''Bearer realm='' @ [CHR 0x22] @ ''ftvx'' @ [CHR 0x22])] 401 ''unauthorized''
                   ''a valid API key is required (X-API-Key or Authorization: Bearer)'', st)
      | Some k \<Rightarrow>
          let ch = (case channel of None \<Rightarrow> '''' | Some f \<Rightarrow> f r) in
          if \<not> Allows k s ch
          then (WriteProblem [] 403 ''forbidden''
                  (''this key may not do '' @ [CHR 0x22] @ scope_name s @ [CHR 0x22] @ '' on '' @ describe ch), st)
          else serve (Some k) r st)"

subsection \<open>What the checks come to\<close>

lemma Allows_iff:
  "Allows k s ch \<longleftrightarrow> (s \<in> ky_scopes k \<or> Admin \<in> ky_scopes k) \<and> (ch = '''' \<or> ky_allChannels k \<or> ch \<in> ky_channels k)"
  by (auto simp: Allows_def)

lemma Find_None_iff: "Find sha ks secret = None \<longleftrightarrow> secret = '''' \<or> (\<forall>k \<in> set ks. ky_hash k \<noteq> sha secret)"
proof -
  have "foldl (\<lambda>found k. if h = ky_hash k then Some k else found) a ks = None \<longleftrightarrow> a = None \<and> (\<forall>k \<in> set ks. ky_hash k \<noteq> h)" for h a
    by (induction ks arbitrary: a) auto
  then show ?thesis by (auto simp: Find_def)
qed

lemma Find_SomeD:
  assumes "Find sha ks secret = Some k"
  shows "secret \<noteq> ''''" "k \<in> set ks" "ky_hash k = sha secret"
proof -
  have *: "foldl (\<lambda>found k. if h = ky_hash k then Some k else found) a ks = Some k \<Longrightarrow> a = Some k \<or> k \<in> set ks \<and> ky_hash k = h" for h a
    by (induction ks arbitrary: a) (auto split: if_splits)
  show "secret \<noteq> ''''" using assms by (auto simp: Find_def)
  then show "k \<in> set ks" "ky_hash k = sha secret" using assms * [of "sha secret" None] by (auto simp: Find_def)
qed

lemma name_twice_None: "name_twice seen ks = None \<longleftrightarrow> distinct (map ky_Name ks) \<and> seen \<inter> ky_Name ` set ks = {}"
  by (induction ks arbitrary: seen) auto

text \<open>The keys of a service are well-formed: this is what \<^verbatim>\<open>Parse\<close> establishes for every text.\<close>

definition key_ok :: "Key \<Rightarrow> bool" where
  "key_ok k \<longleftrightarrow> ky_Name k \<noteq> '''' \<and> length (ky_hash k) = 32 \<and> ky_scopes k \<noteq> {} \<and> (ky_allChannels k \<or> ky_channels k \<noteq> {}) \<and> '''' \<notin> ky_channels k"

definition keys_ok :: "Key list \<Rightarrow> bool" where
  "keys_ok ks \<longleftrightarrow> ks \<noteq> [] \<and> list_all key_ok ks \<and> distinct (map ky_Name ks)"

lemma TrimSpace_Nil_iff: "TrimSpace s = [] \<longleftrightarrow> (\<forall>c \<in> set s. is_space c)"
proof -
  have "TrimSpace s = [] \<longleftrightarrow> (\<forall>c \<in> set (dropWhile is_space s). is_space c)" by (simp add: TrimSpace_def dropWhile_eq_Nil_conv)
  also have "\<dots> \<longleftrightarrow> (\<forall>c \<in> set s. is_space c)"
    by (metis dropWhile_eq_Nil_conv hd_dropWhile hd_in_set list.set_cases empty_iff list.set(1))
  finally show ?thesis .
qed

lemma TrimSpace_hd: "TrimSpace s \<noteq> [] \<Longrightarrow> \<not> is_space (hd (TrimSpace s))"
proof -
  assume ne: "TrimSpace s \<noteq> []"
  define t where "t = dropWhile is_space s"
  have t: "TrimSpace s = rev (dropWhile is_space (rev t))" by (simp add: TrimSpace_def t_def)
  obtain u where u: "t = TrimSpace s @ u" unfolding t
    by (metis rev_append rev_rev_ident takeWhile_dropWhile_id)
  have "t \<noteq> []" using ne by (auto simp: t)
  then have "\<not> is_space (hd t)" unfolding t_def by (rule hd_dropWhile)
  moreover have "hd t = hd (TrimSpace s)" using ne by (subst u) simp
  ultimately show ?thesis by simp
qed

lemma cut_at_True: "cut_at c s = (a, b, True) \<Longrightarrow> s = a @ c # b"
  by (induction c s arbitrary: a rule: cut_at.induct) (auto split: if_splits prod.splits)

lemma channel_loop_no_empty: "'''' \<notin> channels \<Longrightarrow> channel_loop chs (channels, all) = (cs, al) \<Longrightarrow> '''' \<notin> cs"
proof (induction chs arbitrary: channels all)
  case (Cons a chs)
  show ?case using Cons.IH [of channels True] Cons.IH [of channels all] Cons.IH [of "insert (TrimSpace a) channels" all] Cons.prems
    by (auto simp: Let_def split: if_splits)
qed simp

lemma secret_hash_length: "secret_hash sha name secret = Inr h \<Longrightarrow> (\<And>x. length (sha x) = 32) \<Longrightarrow> length h = 32"
  by (auto simp: secret_hash_def split: if_splits option.splits)

lemma build_key_InrD:
  assumes "build_key sha name secret flds = Inr k"
  shows "ky_Name k = TrimSpace name" "secret_hash sha name secret = Inr (ky_hash k)" "ky_scopes k \<noteq> {}"
    "ky_allChannels k \<or> ky_channels k \<noteq> {}" "[] \<notin> ky_channels k"
proof -
  obtain chans al where c: "channel_loop (split_on (CHR ''+'') (flds ! 1)) ({}, False) = (chans, al)" by fastforce
  obtain h scopes where h: "secret_hash sha name secret = Inr h" and sc: "scopes \<noteq> {}" and ch: "al \<or> chans \<noteq> {}"
    and k: "k = \<lparr>ky_Name = TrimSpace name, ky_hash = h, ky_scopes = scopes, ky_channels = chans, ky_allChannels = al\<rparr>"
    using assms by (auto simp: build_key_def bindE_Inr_iff c [unfolded One_nat_def] split: if_splits)
  show "ky_Name k = TrimSpace name" "secret_hash sha name secret = Inr (ky_hash k)" "ky_scopes k \<noteq> {}"
    "ky_allChannels k \<or> ky_channels k \<noteq> {}" "[] \<notin> ky_channels k"
    using h sc ch channel_loop_no_empty [OF _ c] by (simp_all add: k)
qed

lemma parseKey_InrD:
  assumes "parseKey sha s = Inr k"
  obtains name rest secret flds where "s = name @ CHR ''='' # rest" "name \<noteq> []" "build_key sha name secret flds = Inr k"
  using assms by (auto simp: parseKey_def split: prod.splits if_splits dest: cut_at_True)

lemma parseKey_ok:
  assumes k: "parseKey sha (TrimSpace p) = Inr k" and "\<And>x. length (sha x) = 32"
  shows "key_ok k"
proof -
  obtain name rest secret flds where s: "TrimSpace p = name @ CHR ''='' # rest" "name \<noteq> []" and b: "build_key sha name secret flds = Inr k"
    by (rule parseKey_InrD [OF k])
  have "\<not> is_space (hd name)" using TrimSpace_hd [of p] s by simp
  then have "TrimSpace name \<noteq> []" using hd_in_set [OF s(2)] by (auto simp: TrimSpace_Nil_iff)
  then show ?thesis using build_key_InrD [OF b] secret_hash_length [OF _ assms(2)] by (simp add: key_ok_def)
qed

lemma ParseKeys_ok:
  assumes "ParseKeys sha list single = Inr ks" and sha: "\<And>x. length (sha x) = 32"
  shows "keys_ok ks"
proof -
  obtain ks0 where ks0: "mapE (parseKey sha) (key_parts list) = Inr ks0" and ks: "ks = (if single \<noteq> '''' then ks0 @ [default_key sha single] else ks0)"
    and ne: "ks \<noteq> []" and d: "name_twice {} ks = None"
    using assms(1) by (auto simp: ParseKeys_def bindE_Inr_iff Let_def split: option.splits if_splits)
  have "key_ok k" if "k \<in> set ks0" for k
  proof -
    obtain p where "p \<in> set (key_parts list)" "parseKey sha p = Inr k"
      using list_all2_in2 [OF ks0 [unfolded mapE_Inr_iff] \<open>k \<in> set ks0\<close>] by blast
    then show ?thesis using parseKey_ok [OF _ sha] by (auto simp: key_parts_def)
  qed
  moreover have "key_ok (default_key sha single)" by (simp add: key_ok_def default_key_def sha)
  ultimately show ?thesis using ne d unfolding keys_ok_def name_twice_None by (auto simp: ks list_all_iff split: if_splits)
qed

subsection \<open>The keys an operator writes down\<close>

text \<open>A line of \<^verbatim>\<open>API_KEYS\<close> as the documentation gives it: \<^verbatim>\<open>name=secret:scopes:channels\<close>.\<close>

record key_spec =
  ks_name :: string
  ks_secret :: string
  ks_scopes :: "Scope list"
  ks_channels :: "string list"

definition spec_line :: "key_spec \<Rightarrow> string" where
  "spec_line sp = ks_name sp @ CHR ''='' # ks_secret sp @ CHR '':'' # joined (CHR ''+'') (map scope_name (ks_scopes sp)) @
     CHR '':'' # joined (CHR ''+'') (ks_channels sp)"

definition clean :: "string \<Rightarrow> bool" where
  "clean s \<longleftrightarrow> s \<noteq> [] \<and> list_all (\<lambda>c. \<not> is_space c \<and> c \<notin> {CHR '';'', CHR ''='', CHR '':'', CHR ''+''}) s"

definition spec_ok :: "key_spec \<Rightarrow> bool" where
  "spec_ok sp \<longleftrightarrow> clean (ks_name sp) \<and> 8 \<le> length (ks_secret sp) \<and> list_all (\<lambda>c. \<not> key_sep c \<and> c \<noteq> CHR '':'') (ks_secret sp) \<and>
     ks_scopes sp \<noteq> [] \<and> ks_channels sp \<noteq> [] \<and> list_all clean (ks_channels sp)"

definition spec_key :: "(string \<Rightarrow> byte list) \<Rightarrow> key_spec \<Rightarrow> Key" where
  "spec_key sha sp = \<lparr>ky_Name = ks_name sp, ky_hash = sha (ks_secret sp), ky_scopes = set (ks_scopes sp),
     ky_channels = set (ks_channels sp) - {''*''}, ky_allChannels = (''*'' \<in> set (ks_channels sp))\<rparr>"

text \<open>What the line grants: \<^verbatim>\<open>admin\<close> includes every scope, \<^verbatim>\<open>*\<close> every channel.\<close>

definition grants :: "key_spec \<Rightarrow> Scope \<Rightarrow> string \<Rightarrow> bool" where
  "grants sp s ch \<longleftrightarrow> (s \<in> set (ks_scopes sp) \<or> Admin \<in> set (ks_scopes sp)) \<and> (ch = '''' \<or> ''*'' \<in> set (ks_channels sp) \<or> ch \<in> set (ks_channels sp) - {''*''})"

lemma Allows_spec: "Allows (spec_key sha sp) s ch = grants sp s ch"
  by (simp add: Allows_iff grants_def spec_key_def)

lemma clean_trim: "clean s \<Longrightarrow> TrimSpace s = s"
  by (rule TrimSpace_id) (auto simp: clean_def list_all_iff)

lemma clean_chars: "clean s \<Longrightarrow> c \<in> set s \<Longrightarrow> \<not> is_space c \<and> c \<noteq> CHR '';'' \<and> c \<noteq> CHR ''='' \<and> c \<noteq> CHR '':'' \<and> c \<noteq> CHR ''+''"
  by (auto simp: clean_def list_all_iff)

lemma clean_scope: "clean (scope_name s)"
  by (cases s) (simp_all add: scope_name_def clean_def is_space_def)

lemma find_scope: "List.find (\<lambda>a. scope_name a = scope_name s) allScopes = Some s"
  by (cases s) (simp_all add: scope_name_def allScopes_def)

lemma scope_loop_names: "scope_loop name (map scope_name ss) acc = Inr (acc \<union> set ss)"
proof (induction ss arbitrary: acc)
  case (Cons s ss)
  have "scope_name s \<noteq> ''*''" by (cases s) (simp_all add: scope_name_def)
  then show ?case using Cons [of "insert s acc"] by (simp add: Let_def clean_trim [OF clean_scope] find_scope)
qed simp

lemma channel_loop_clean:
  "list_all clean chs \<Longrightarrow> channel_loop chs (channels, all) = (channels \<union> (set chs - {''*''}), all \<or> ''*'' \<in> set chs)"
proof (induction chs arbitrary: channels all)
  case (Cons ch chs)
  have "TrimSpace ch = ch" "ch \<noteq> []" using Cons.prems by (auto simp: clean_trim clean_def)
  then show ?case using Cons.IH [of channels True] Cons.IH [of "insert ch channels" all] Cons.prems by (auto simp: Let_def)
qed simp

lemma set_joined: "x \<in> set (joined c xs) \<Longrightarrow> x = c \<or> (\<exists>s \<in> set xs. x \<in> set s)"
  by (induction c xs rule: joined.induct) auto

lemma joined_clean: "list_all clean xs \<Longrightarrow> x \<in> set (joined (CHR ''+'') xs) \<Longrightarrow> \<not> is_space x \<and> x \<noteq> CHR '';'' \<and> x \<noteq> CHR '':''"
proof -
  assume "list_all clean xs" "x \<in> set (joined (CHR ''+'') xs)"
  then consider "x = CHR ''+''" | s where "clean s" "x \<in> set s" using set_joined [of x "CHR ''+''" xs] by (auto simp: list_all_iff)
  then show ?thesis by cases (simp add: is_space_def, blast dest: clean_chars)
qed

lemma joined_Nil: "xs \<noteq> [] \<Longrightarrow> list_all clean xs \<Longrightarrow> joined c xs \<noteq> []"
  by (cases "(c, xs)" rule: joined.cases) (auto simp: clean_def)

lemma split_plus: "xs \<noteq> [] \<Longrightarrow> list_all clean xs \<Longrightarrow> split_on (CHR ''+'') (joined (CHR ''+'') xs) = xs"
  by (rule split_on_joined) (auto simp: list_all_iff dest: clean_chars)

lemma scopes_clean: "list_all clean (map scope_name ss)"
  by (simp add: list_all_iff clean_scope)

lemma key_fields_spec:
  assumes "spec_ok sp"
  shows "key_fields (ks_secret sp @ CHR '':'' # joined (CHR ''+'') (map scope_name (ks_scopes sp)) @ CHR '':'' # joined (CHR ''+'') (ks_channels sp)) =
    (ks_secret sp, [joined (CHR ''+'') (map scope_name (ks_scopes sp)), joined (CHR ''+'') (ks_channels sp)])"
proof -
  let ?fs = "[ks_secret sp, joined (CHR ''+'') (map scope_name (ks_scopes sp)), joined (CHR ''+'') (ks_channels sp)]"
  have "split_on (CHR '':'') (joined (CHR '':'') ?fs) = ?fs"
    using assms by (intro split_on_joined) (auto simp: spec_ok_def list_all_iff dest: joined_clean [OF scopes_clean] joined_clean [unfolded list_all_iff])
  moreover have "ks_secret sp \<noteq> ''sha256''" using assms by (auto simp: spec_ok_def)
  ultimately show ?thesis by (simp add: key_fields_def Let_def)
qed

lemma parseKey_spec: "spec_ok sp \<Longrightarrow> parseKey sha (spec_line sp) = Inr (spec_key sha sp)"
proof -
  assume ok: "spec_ok sp"
  have name: "CHR ''='' \<notin> set (ks_name sp)" "ks_name sp \<noteq> []" using ok by (auto simp: spec_ok_def clean_def list_all_iff)
  have "CHR '':'' \<notin> set (ks_secret sp)" using ok unfolding spec_ok_def list_all_iff by blast
  moreover have "CHR '':'' \<in> set (ks_secret sp)" if "HasPrefix (ks_secret sp) ''sha256:''"
  proof -
    obtain r where "ks_secret sp = ''sha256:'' @ r" using \<open>HasPrefix (ks_secret sp) ''sha256:''\<close> by (auto simp: HasPrefix_iff)
    then show ?thesis by simp
  qed
  ultimately have "\<not> HasPrefix (ks_secret sp) ''sha256:''" by blast
  then have h: "secret_hash sha (ks_name sp) (ks_secret sp) = Inr (sha (ks_secret sp))" using ok by (simp add: secret_hash_def spec_ok_def)
  have b: "build_key sha (ks_name sp) (ks_secret sp) [joined (CHR ''+'') (map scope_name (ks_scopes sp)), joined (CHR ''+'') (ks_channels sp)] = Inr (spec_key sha sp)"
  proof -
    have ch: "list_all clean (ks_channels sp)" "ks_channels sp \<noteq> []" "ks_scopes sp \<noteq> []" "clean (ks_name sp)" using ok by (auto simp: spec_ok_def)
    have c: "channel_loop (ks_channels sp) ({}, False) = (set (ks_channels sp) - {''*''}, ''*'' \<in> set (ks_channels sp))"
      by (simp only: channel_loop_clean [OF ch(1)] Un_empty_left simp_thms)
    have some: "(\<not> (''*'' \<in> set (ks_channels sp)) \<and> set (ks_channels sp) - {''*''} = {}) = False"
    proof -
      have "(s \<notin> set xs \<and> set xs - {s} = {}) = False" if "xs \<noteq> []" for s :: string and xs using that by (cases xs) auto
      then show ?thesis using ch(2) by blast
    qed
    have two: "(length [a, b] \<noteq> 2) = False" "[a, b] ! 0 = a" "[a, b] ! 1 = b" for a b :: string by simp_all
    show ?thesis unfolding build_key_def two if_False h bindE_simps
      using ch(2,3) by (simp only: split_plus [OF _ scopes_clean] map_is_Nil_conv split_plus [OF ch(2,1)] scope_loop_names bindE_simps c prod.case
          some if_False Un_empty_left set_empty clean_trim [OF ch(4)] spec_key_def not_False_eq_True)
  qed
  show ?thesis unfolding parseKey_def spec_line_def using name b by (simp add: cut_at_append key_fields_spec [OF ok])
qed

lemma spec_line_clean:
  assumes "spec_ok sp"
  shows "TrimSpace (spec_line sp) = spec_line sp" "spec_line sp \<noteq> []" "\<forall>c \<in> set (spec_line sp). \<not> key_sep c"
proof -
  let ?ch = "joined (CHR ''+'') (ks_channels sp)"
  have ok: "clean (ks_name sp)" "ks_channels sp \<noteq> []" "list_all clean (ks_channels sp)" using assms by (auto simp: spec_ok_def)
  have ch: "?ch \<noteq> []" by (rule joined_Nil [OF ok(2,3)])
  show ne: "spec_line sp \<noteq> []" by (simp add: spec_line_def)
  have "hd (spec_line sp) \<in> set (ks_name sp)" using ok(1) by (cases "ks_name sp") (simp_all add: spec_line_def clean_def)
  moreover have "last (spec_line sp) \<in> set ?ch" using ch by (simp add: spec_line_def)
  ultimately show "TrimSpace (spec_line sp) = spec_line sp"
    using clean_chars [OF ok(1)] joined_clean [OF ok(3)] by (intro TrimSpace_id [OF ne]) blast+
  have "\<not> key_sep c" if "c \<in> set s" "clean s" for c s using clean_chars [OF that(2,1)] by (auto simp: key_sep_def is_space_def)
  moreover have "\<not> key_sep c" if "c \<in> set (joined (CHR ''+'') xs)" "list_all clean xs" for c xs
    using joined_clean [OF that(2,1)] by (auto simp: key_sep_def is_space_def)
  moreover have "\<not> key_sep c" if "c \<in> set (ks_secret sp)" for c using that assms by (auto simp: spec_ok_def list_all_iff)
  ultimately show "\<forall>c \<in> set (spec_line sp). \<not> key_sep c"
    using ok(1,3) scopes_clean [of "ks_scopes sp"] by (auto simp: spec_line_def key_sep_def [of "CHR '':''"] key_sep_def [of "CHR ''=''"])
qed

lemma ParseKeys_spec:
  assumes "sps \<noteq> []" "list_all spec_ok sps" "distinct (map ks_name sps)"
  shows "ParseKeys sha (joined (CHR '';'') (map spec_line sps)) '''' = Inr (map (spec_key sha) sps)"
proof -
  have "fields_func key_sep (joined (CHR '';'') (map spec_line sps)) = map spec_line sps"
    using assms(2) spec_line_clean(2,3) by (intro fields_func_joined) (auto simp: key_sep_def list_all_iff)
  moreover have "filter (\<lambda>p. p \<noteq> []) (map TrimSpace (map spec_line sps)) = map spec_line sps"
    using assms(2) by (induction sps) (simp_all add: spec_line_clean)
  ultimately have parts: "key_parts (joined (CHR '';'') (map spec_line sps)) = map spec_line sps" by (simp add: key_parts_def)
  have "mapE (parseKey sha) (map spec_line sps) = Inr (map (spec_key sha) sps)"
    using assms(2) by (induction sps) (simp_all add: parseKey_spec)
  moreover have "name_twice {} (map (spec_key sha) sps) = None"
    using assms(3) by (simp add: name_twice_None spec_key_def comp_def)
  ultimately show ?thesis using assms(1) by (simp add: ParseKeys_def parts)
qed

lemma Find_spec:
  assumes "sp \<in> set sps" "ks_secret sp \<noteq> ''''" "inj_on sha (ks_secret ` set sps)" "distinct (map ks_secret sps)"
  shows "Find sha (map (spec_key sha) sps) (ks_secret sp) = Some (spec_key sha sp)"
proof (cases "Find sha (map (spec_key sha) sps) (ks_secret sp)")
  case None
  then show ?thesis using assms(1,2) by (auto simp: Find_None_iff spec_key_def)
next
  case (Some k)
  then obtain sp' where "sp' \<in> set sps" "k = spec_key sha sp'" "sha (ks_secret sp') = sha (ks_secret sp)"
    using Find_SomeD(2,3) [OF Some] by (auto simp: spec_key_def)
  then have "ks_secret sp' = ks_secret sp" using assms(1,3) by (auto dest: inj_onD)
  then have "sp' = sp" using assms(1,4) \<open>sp' \<in> set sps\<close> by (auto simp: distinct_map dest: inj_onD)
  then show ?thesis using Some \<open>k = spec_key sha sp'\<close> by simp
qed

subsection \<open>Properties\<close>

text \<open>C28. The API keys are honoured as they are written down. For every list of well-formed lines
  \<^verbatim>\<open>name=secret:scopes:channels\<close> with different names and secrets, \<^verbatim>\<open>Parse\<close> accepts the text, and with the keys it returns the
  middleware runs the handler exactly when the request presents the secret of a line that grants the scope on the channel of the
  request. A secret of no line is answered with 401 and a line that does not grant the action with 403; then the handler does not run and the
  state of the service does not change. SHA-256 enters only as a function without collisions among the secrets at hand.\<close>

theorem keys_as_configured:
  assumes specs: "sps \<noteq> []" "list_all spec_ok sps" "distinct (map ks_name sps)" "distinct (map ks_secret sps)"
    and sha: "inj_on sha (insert (secretOf r) (ks_secret ` set sps))"
    and ch: "ch = (case channel of None \<Rightarrow> '''' | Some f \<Rightarrow> f r)"
  shows "\<exists>ks. ParseKeys sha (joined (CHR '';'') (map spec_line sps)) '''' = Inr ks \<and>
    (if \<exists>sp \<in> set sps. ks_secret sp = secretOf r \<and> grants sp s ch
     then \<exists>k \<in> set ks. Require sha ks s channel serve ctx r st = serve (Some k) r st \<and> Allows k s ch
     else snd (Require sha ks s channel serve ctx r st) = st \<and>
       rs_status (fst (Require sha ks s channel serve ctx r st)) = (if secretOf r \<in> ks_secret ` set sps then 403 else 401))"
proof (intro exI conjI)
  let ?ks = "map (spec_key sha) sps"
  show "ParseKeys sha (joined (CHR '';'') (map spec_line sps)) '''' = Inr ?ks" by (rule ParseKeys_spec [OF specs(1-3)])
  have found: "Find sha ?ks (secretOf r) = Some (spec_key sha sp)" if "sp \<in> set sps" "ks_secret sp = secretOf r" for sp
  proof -
    have "ks_secret sp \<noteq> []" using that(1) specs(2) by (auto simp: list_all_iff spec_ok_def)
    then show ?thesis using Find_spec [OF that(1) _ inj_on_subset [OF sha] specs(4)] that(2) by (simp add: subset_insertI)
  qed
  have none: "Find sha ?ks (secretOf r) = None" if "secretOf r \<notin> ks_secret ` set sps"
  proof -
    have "sha (ks_secret sp) \<noteq> sha (secretOf r)" if "sp \<in> set sps" for sp
      using inj_onD [OF sha, of "ks_secret sp" "secretOf r"] that \<open>secretOf r \<notin> ks_secret ` set sps\<close> by (metis imageI insertCI)
    then show ?thesis by (auto simp: Find_None_iff spec_key_def)
  qed
  have uniq: "sp' = sp" if "sp \<in> set sps" "sp' \<in> set sps" "ks_secret sp' = ks_secret sp" for sp sp'
    using that specs(4) by (auto simp: distinct_map dest: inj_onD)
  show "if \<exists>sp \<in> set sps. ks_secret sp = secretOf r \<and> grants sp s ch
     then \<exists>k \<in> set ?ks. Require sha ?ks s channel serve ctx r st = serve (Some k) r st \<and> Allows k s ch
     else snd (Require sha ?ks s channel serve ctx r st) = st \<and>
       rs_status (fst (Require sha ?ks s channel serve ctx r st)) = (if secretOf r \<in> ks_secret ` set sps then 403 else 401)"
  proof (cases "\<exists>sp \<in> set sps. ks_secret sp = secretOf r")
    case False
    then show ?thesis using none by (auto simp: Require_def)
  next
    case True
    then obtain sp where sp: "sp \<in> set sps" "ks_secret sp = secretOf r" by blast
    have iff: "(\<exists>sp' \<in> set sps. ks_secret sp' = secretOf r \<and> grants sp' s ch) \<longleftrightarrow> grants sp s ch" using sp uniq by metis
    have known: "secretOf r \<in> ks_secret ` set sps" using sp by (metis imageI)
    show ?thesis unfolding iff using sp(1) found [OF sp] known by (auto simp: Require_def Let_def Allows_spec ch [symmetric])
  qed
qed

text \<open>Whatever the text, keys that \<^verbatim>\<open>Parse\<close> accepts are well-formed: there is at least one, names are present and different, every
  key has a hash of 32 bytes, a scope, and at least one channel or all of them, and the empty channel is never listed.\<close>

theorem ParseKeys_wellformed:
  assumes "ParseKeys sha list single = Inr ks" "\<And>x. length (sha x) = 32"
  shows "keys_ok ks"
  by (rule ParseKeys_ok [OF assms])

subsection \<open>Witnesses\<close>

definition w_spec :: key_spec where
  "w_spec = \<lparr>ks_name = ''ops'', ks_secret = ''opsecret1'', ks_scopes = [Schedule, Command], ks_channels = [''c1'', ''c2'']\<rparr>"

definition w_viewer :: key_spec where
  "w_viewer = \<lparr>ks_name = ''viewer'', ks_secret = ''viewsecret'', ks_scopes = [Read], ks_channels = [''*'']\<rparr>"

text \<open>A stand-in for the hash: the first bytes of the secret, filled up to 32.\<close>

definition w_sha :: "string \<Rightarrow> byte list" where
  "w_sha s = take 32 (map of_char s @ replicate 32 0)"

definition w_request :: "string \<Rightarrow> request" where
  "w_request secret = \<lparr>rq_header = (\<lambda>n. if n = ''X-API-Key'' then secret else ''''), rq_query = (\<lambda>_. ''''), rq_param = (\<lambda>_. ''c2''), rq_body = Some ''''\<rparr>"

lemma w_specs: "list_all spec_ok [w_spec, w_viewer]" "distinct (map ks_name [w_spec, w_viewer])" "distinct (map ks_secret [w_spec, w_viewer])"
  by (simp_all add: w_spec_def w_viewer_def spec_ok_def clean_def is_space_def key_sep_def)

lemma w_secret: "secretOf (w_request ''opsecret1'') = ''opsecret1''"
  by (simp add: secretOf_def w_request_def)

lemma w_inj: "inj_on w_sha (insert (secretOf (w_request ''opsecret1'')) (ks_secret ` set [w_spec, w_viewer]))"
proof -
  have "w_sha ''opsecret1'' \<noteq> w_sha ''viewsecret''" by (simp add: w_sha_def numeral_eq_Suc)
  then show ?thesis unfolding w_secret by (auto simp: w_spec_def w_viewer_def inj_on_def)
qed

theorem keys_as_configured_witness:
  "\<exists>ks. ParseKeys w_sha ''ops=opsecret1:schedule+command:c1+c2;viewer=viewsecret:read:*'' '''' = Inr ks \<and>
    (\<exists>k \<in> set ks. Require w_sha ks Command (Some (\<lambda>r. rq_param r ''channel_id'')) (\<lambda>_ _ n. (WriteHeader 204 :: response, n + 1)) None
        (w_request ''opsecret1'') (0 :: nat) = (WriteHeader 204, 1) \<and> Allows k Command ''c2'')"
proof -
  have line: "joined (CHR '';'') (map spec_line [w_spec, w_viewer]) = ''ops=opsecret1:schedule+command:c1+c2;viewer=viewsecret:read:*''"
    by (simp add: spec_line_def w_spec_def w_viewer_def scope_name_def)
  have g: "\<exists>sp \<in> set [w_spec, w_viewer]. ks_secret sp = secretOf (w_request ''opsecret1'') \<and> grants sp Command ''c2''"
    unfolding w_secret by (simp add: w_spec_def w_viewer_def grants_def)
  show ?thesis
    using keys_as_configured [OF _ w_specs w_inj, of "''c2''" "Some (\<lambda>r. rq_param r ''channel_id'')" Command
        "\<lambda>_ _ n. (WriteHeader 204 :: response, n + 1)" None "0 :: nat"] g
    unfolding line by (simp add: w_request_def)
qed

theorem ParseKeys_wellformed_witness:
  "\<exists>ks. ParseKeys w_sha ''ops=opsecret1:schedule+command:c1+c2;viewer=viewsecret:read:*'' '''' = Inr ks \<and> keys_ok ks"
proof -
  have line: "joined (CHR '';'') (map spec_line [w_spec, w_viewer]) = ''ops=opsecret1:schedule+command:c1+c2;viewer=viewsecret:read:*''"
    by (simp add: spec_line_def w_spec_def w_viewer_def scope_name_def)
  have "length (w_sha x) = 32" for x by (simp add: w_sha_def)
  then show ?thesis using ParseKeys_spec [OF _ w_specs(1,2), of w_sha] ParseKeys_wellformed [of w_sha _ "''''"] unfolding line by blast
qed

end
