(* ===== verification/Server.thy ===== *)
theory Server
  imports Storage Auth GoText
begin

text \<open>
  \<^verbatim>\<open>services/control-api/server.go\<close>: the handlers of the control API for channels, assets and the schedule. A handler takes
  the key of the request (the context), the request and the database, and gives the answer and the database after it. What the
  world answers during a request is the record \<open>api_env\<close>: the connection for the n-th question to the database, the two
  clocks, the collation of the database, the hash of a body and the reading of its JSON (\<^verbatim>\<open>encoding/json\<close>).
\<close>

datatype api_error = ApiErr store_error | ReadFailed

abbreviation problem :: "string \<Rightarrow> string \<Rightarrow> api_error" where
  "problem f m \<equiv> ApiErr (EditError (Problem f m))"

text \<open>The documents that the handlers read; a missing field has the zero value.\<close>

record channel_in =
  cn_id :: string
  cn_name :: string
  cn_segment_sec :: int
  cn_ladder :: "string list option"

record update_in =
  ui_name :: "string option"
  ui_ladder :: "string list option"

record asset_in =
  ai_id :: string
  ai_uri :: string
  ai_duration :: int
  ai_tags :: "string list option"
  ai_meta :: "(string \<times> string) list option"

record entryIn =
  ei_Type :: string
  ei_AssetID :: string
  ei_URI :: string
  ei_Start :: gtime
  ei_Duration :: int
  ei_OffsetS :: int
  ei_Category :: string
  ei_SCTE35 :: string

record replace_in =
  ri_From :: gtime
  ri_To :: gtime
  ri_Entries :: "entryIn list"

record commandIn =
  cm_Type :: string
  cm_At :: string
  cm_Duration :: int
  cm_AssetID :: string
  cm_URI :: string
  cm_Category :: string
  cm_SCTE35 :: string
  cm_onlyBreak :: bool

record scte_in =
  sc_Message :: string
  sc_At :: string

text \<open>\<open>Inl\<close> is the message of the decoder; the flag says that more data follows the document.\<close>

type_synonym 'a decoder = "string \<Rightarrow> string + 'a \<times> bool"

record api_env =
  ae_link :: "nat \<Rightarrow> link"
  ae_now :: gtime
  ae_dbnow :: gtime
  ae_cueLead :: duration
  ae_lt :: "string \<Rightarrow> string \<Rightarrow> bool"
  ae_hash :: "string \<Rightarrow> string"
  ae_channel :: "channel_in decoder"
  ae_update :: "update_in decoder"
  ae_asset :: "asset_in decoder"
  ae_replace :: "replace_in decoder"
  ae_command :: "commandIn decoder"
  ae_scte :: "scte_in decoder"
  ae_pg_text :: "pg_error \<Rightarrow> string"

subsection \<open>Helpers\<close>

definition etag :: "int \<Rightarrow> string" where
  "etag v = [CHR 0x22] @ itoa v @ [CHR 0x22]"

definition fail :: "api_error \<Rightarrow> response" where
  "fail e =
     (case e of
        ApiErr (EditError (Problem f m)) \<Rightarrow> WriteProblem [] 400 ''Validation error'' (f @ '': '' @ m)
      | ApiErr (VersionMismatch v) \<Rightarrow> WriteProblem [(''ETag'', etag v)] 412 ''Precondition failed''
          (''the schedule is at version '' @ itoa v @ '', not the one in If-Match'')
      | ApiErr (EditError (ErrNothing m)) \<Rightarrow> WriteProblem [] 409 ''Nothing to do'' m
      | ApiErr ErrNotFound \<Rightarrow> WriteProblem [] 404 ''Not Found'' ''no such resource''
      | ApiErr ErrConflict \<Rightarrow> WriteProblem [] 409 ''Conflict'' ''it already exists''
      | ApiErr ErrAssetInUse \<Rightarrow> WriteProblem [] 409 ''Conflict'' ''the asset is used by a schedule; replace those entries first''
      | ApiErr ErrUnknownReference \<Rightarrow> WriteProblem [] 422 ''Unprocessable'' ''an entry refers to an asset that does not exist''
      | ApiErr ErrIdempotencyConflict \<Rightarrow> WriteProblem [] 422 ''Idempotency-Key reused'' ''this key was used for a different request''
      | _ \<Rightarrow> WriteProblem [] 500 ''Internal error'' ''the request could not be completed'')"

text \<open>\<^verbatim>\<open>if err != nil { s.fail(w, err); return }\<close>.\<close>

definition orFail :: "store_error + 'a \<Rightarrow> ('a \<Rightarrow> response \<times> db) \<Rightarrow> db \<Rightarrow> response \<times> db" where
  "orFail r k d = (case r of Inl e \<Rightarrow> (fail (ApiErr e), d) | Inr x \<Rightarrow> k x)"

definition orFailApi :: "api_error + 'a \<Rightarrow> ('a \<Rightarrow> response \<times> db) \<Rightarrow> db \<Rightarrow> response \<times> db" where
  "orFailApi r k d = (case r of Inl e \<Rightarrow> (fail e, d) | Inr x \<Rightarrow> k x)"

text \<open>The same after a change of the database.\<close>

definition orFailDb :: "(store_error + 'a) \<times> db \<Rightarrow> ('a \<Rightarrow> db \<Rightarrow> response \<times> db) \<Rightarrow> response \<times> db" where
  "orFailDb r k = (case r of (Inl e, d) \<Rightarrow> (fail (ApiErr e), d) | (Inr x, d) \<Rightarrow> k x d)"

definition pg :: "pg_error + 'a \<Rightarrow> store_error + 'a" where
  "pg r = (case r of Inl e \<Rightarrow> Inl (PgError e) | Inr x \<Rightarrow> Inr x)"

definition trim_quotes :: "string \<Rightarrow> string" where
  "trim_quotes s = rev (dropWhile (\<lambda>c. c = CHR 0x22) (rev (dropWhile (\<lambda>c. c = CHR 0x22) s)))"

definition parseIfMatch :: "request \<Rightarrow> api_error + int option" where
  "parseIfMatch r =
     (let h = TrimSpace (rq_header r ''If-Match'') in
      if h = '''' \<or> h = ''*'' then Inr None
      else (case ParseInt64 (trim_quotes h) of (v, ok) \<Rightarrow>
        if \<not> ok \<or> v < 0 then Inl (problem ''If-Match'' (''must be a schedule version such as '' @ [CHR 0x22] @ ''3'' @ [CHR 0x22]))
        else Inr (Some v)))"

definition queryInt :: "request \<Rightarrow> string \<Rightarrow> int \<Rightarrow> int \<Rightarrow> api_error + int" where
  "queryInt r name def hi =
     (let v = rq_query r name in
      if v = '''' then Inr def
      else (case ParseInt64 v of (n, ok) \<Rightarrow>
        if \<not> ok \<or> n < 1 \<or> n > hi then Inl (problem name (''must be between 1 and '' @ itoa hi)) else Inr n))"

definition max_body :: nat where "max_body = 10 * 1024 * 1024"

definition readBody :: "request \<Rightarrow> api_error + string" where
  "readBody r =
     (case rq_body r of None \<Rightarrow> Inl ReadFailed
      | Some b \<Rightarrow> if length b > max_body then Inl (problem ''body'' ''larger than 10 MB'') else Inr b)"

definition decodeStrict :: "'a decoder \<Rightarrow> string \<Rightarrow> api_error + 'a" where
  "decodeStrict f b =
     (case f b of
        Inl m \<Rightarrow> Inl (problem ''body'' (''invalid JSON: '' @ m))
      | Inr (x, rest) \<Rightarrow> if rest then Inl (problem ''body'' ''unexpected data after the JSON document'') else Inr x)"

definition read_json :: "'a decoder \<Rightarrow> request \<Rightarrow> api_error + string \<times> 'a" where
  "read_json f r = bindE (readBody r) (\<lambda>b. bindE (decodeStrict f b) (\<lambda>x. Inr (b, x)))"

definition idemKey :: "request \<Rightarrow> api_error + string" where
  "idemKey r =
     (let k = TrimSpace (rq_header r ''Idempotency-Key'') in
      if length k > 128 then Inl (problem ''Idempotency-Key'' ''longer than 128 characters'') else Inr k)"

text \<open>\<open>sha\<close> is the hex of SHA-256.\<close>

definition bodyHash :: "(string \<Rightarrow> string) \<Rightarrow> string \<Rightarrow> string \<Rightarrow> string \<Rightarrow> string" where
  "bodyHash sha channel op body = sha (channel @ [NL] @ op @ [NL] @ body)"

definition channelParam :: "request \<Rightarrow> string" where
  "channelParam r = rq_param r ''channel_id''"

text \<open>\<^verbatim>\<open>^[A-Za-z0-9_.-]{1,64}$\<close>\<close>

definition id_char :: "char \<Rightarrow> bool" where
  "id_char c \<longleftrightarrow> (let n = of_char c :: nat in 65 \<le> n \<and> n \<le> 90 \<or> 97 \<le> n \<and> n \<le> 122 \<or> 48 \<le> n \<and> n \<le> 57) \<or> c = CHR ''_'' \<or> c = CHR ''.'' \<or> c = CHR ''-''"

definition validID :: "string \<Rightarrow> bool" where
  "validID s \<longleftrightarrow> 1 \<le> length s \<and> length s \<le> 64 \<and> list_all id_char s"

definition id_rule :: string where
  "id_rule = ''may contain letters, digits, '' @ [CHR 0x27] @ ''_'' @ [CHR 0x27] @ '', '' @ [CHR 0x27] @ ''-'' @ [CHR 0x27] @ '', '' @ [CHR 0x27] @ ''.'' @ [CHR 0x27] @ '' (max 64)''"

definition strings_json :: "string list option \<Rightarrow> json" where
  "strings_json xs = (case xs of None \<Rightarrow> JNull | Some ys \<Rightarrow> JList (map JStr ys))"

definition channel_json :: "Channel \<Rightarrow> json" where
  "channel_json c = JObj [(''id'', JStr (ch_ID c)), (''name'', JStr (ch_Name c)), (''segment_sec'', JInt (ch_SegmentSec c)),
     (''ladder'', strings_json (ch_Ladder c)), (''created_at'', JTime (ch_CreatedAt c)), (''schedule_version'', JInt (ch_ScheduleVersion c))]"

text \<open>\<^verbatim>\<open>omitempty\<close>.\<close>

definition omit :: "string \<Rightarrow> string \<Rightarrow> (string \<times> json) list" where
  "omit name s = (if s = '''' then [] else [(name, JStr s)])"

definition asset_json :: "Asset \<Rightarrow> json" where
  "asset_json a = JObj ([(''id'', JStr (as_ID a)), (''uri'', JStr (as_URI a)), (''duration_s'', JInt (as_DurationS a))] @
     (if COALESCE (as_Tags a) [] = [] then [] else [(''tags'', strings_json (as_Tags a))]) @
     (if COALESCE (as_Meta a) [] = [] then [] else [(''meta'', JObj (map (\<lambda>(k, v). (k, JStr v)) (COALESCE (as_Meta a) [])))]) @
     [(''created_at'', JTime (as_CreatedAt a))])"

definition entry_json :: "TimelineEntry \<Rightarrow> json" where
  "entry_json e = JObj ([(''type'', JStr (te_Type e))] @ omit ''asset_id'' (te_AssetID e) @ omit ''uri'' (te_URI e) @
     [(''start'', JTime (te_Start e)), (''duration'', JInt (te_DurationS e))] @ (if te_OffsetS e = 0 then [] else [(''offset_s'', JInt (te_OffsetS e))]) @
     omit ''category'' (te_Category e) @ omit ''scte35'' (te_SCTE35 e))"

subsection \<open>Channels\<close>

text \<open>A page and the cursor of the next one: one row more is read than is shown.\<close>

definition cut_page :: "('a \<Rightarrow> string) \<Rightarrow> int \<Rightarrow> 'a list \<Rightarrow> 'a list \<times> string" where
  "cut_page ident limit items =
     (if int (length items) > limit then (take (nat limit) items, ident (items ! nat (limit - 1))) else (items, ''''))"

definition page_json :: "json list \<Rightarrow> string \<Rightarrow> json" where
  "page_json items next = JObj [(''items'', JList items), (''next_cursor'', JStr next)]"

definition listChannels :: "api_env \<Rightarrow> db handler" where
  "listChannels v ctx r d =
     orFailApi (queryInt r ''limit'' 50 200) (\<lambda>limit.
     orFail (pg (ListChannelsPage (ae_lt v) (ae_link v 0) (rq_query r ''cursor'') (nat (limit + 1)) d)) (\<lambda>items0.
       case cut_page ch_ID limit items0 of (items, next) \<Rightarrow>
         let items = (case ctx of None \<Rightarrow> items | Some k \<Rightarrow> filter (\<lambda>c. Allows k Read (ch_ID c)) items)
         in (WriteJSON [] 200 (page_json (map channel_json items) next), d)) d) d"

definition createChannel :: "api_env \<Rightarrow> db handler" where
  "createChannel v ctx r d =
     orFailApi (read_json (ae_channel v) r) (\<lambda>(_, inp).
       if \<not> validID (cn_id inp) then (fail (problem ''id'' id_rule), d)
       else if TrimSpace (cn_name inp) = '''' then (fail (problem ''name'' ''is required''), d)
       else
         let seg = (if cn_segment_sec inp = 0 then SegmentSec else cn_segment_sec inp) in
         if seg \<noteq> SegmentSec
         then (fail (problem ''segment_sec'' (''must be '' @ itoa SegmentSec @ '': every segment of the stream lasts exactly that long'')), d)
         else
           let c = \<lparr>ch_ID = cn_id inp, ch_Name = cn_name inp, ch_SegmentSec = seg, ch_Ladder = cn_ladder inp, ch_CreatedAt = ae_now v, ch_ScheduleVersion = 0\<rparr>
           in orFailDb (InsertChannelChecked (ae_link v 0) c d) (\<lambda>_ d.
                orFail (GetChannelChecked (ae_link v 1) (ch_ID c) d) (\<lambda>got.
                  (WriteJSON [(''Location'', ''/v1/channels/'' @ ch_ID c)] 201 (channel_json got), d)) d)) d"

definition getChannel :: "api_env \<Rightarrow> db handler" where
  "getChannel v ctx r d =
     orFail (GetChannelChecked (ae_link v 0) (channelParam r) d) (\<lambda>c.
       (WriteJSON [(''ETag'', etag (ch_ScheduleVersion c))] 200 (channel_json c), d)) d"

definition updateChannel :: "api_env \<Rightarrow> db handler" where
  "updateChannel v ctx r d =
     orFailApi (read_json (ae_update v) r) (\<lambda>(_, inp).
       if (case ui_name inp of None \<Rightarrow> False | Some n \<Rightarrow> TrimSpace n = '''') then (fail (problem ''name'' ''must not be empty''), d)
       else orFailDb (UpdateChannel (ae_link v 0) (channelParam r) (ui_name inp) (ui_ladder inp) d) (\<lambda>c d. (WriteJSON [] 200 (channel_json c), d))) d"

definition deleteChannel :: "api_env \<Rightarrow> db handler" where
  "deleteChannel v ctx r d = orFailDb (DeleteChannel (ae_link v 0) (channelParam r) d) (\<lambda>_ d. (WriteHeader 204, d))"

subsection \<open>Assets\<close>

definition listAssets :: "api_env \<Rightarrow> db handler" where
  "listAssets v ctx r d =
     orFailApi (queryInt r ''limit'' 50 200) (\<lambda>limit.
     orFail (pg (ListAssets (ae_lt v) (ae_link v 0) (rq_query r ''tag'') (rq_query r ''cursor'') (nat (limit + 1)) d)) (\<lambda>items0.
       case cut_page as_ID limit items0 of (items, next) \<Rightarrow> (WriteJSON [] 200 (page_json (map asset_json items) next), d)) d) d"

text \<open>The layout \<^verbatim>\<open>20060102T150405.000000000\<close>.\<close>

definition asset_stamp :: "gtime \<Rightarrow> string" where
  "asset_stamp t =
     (let s = Unix t; sod = s mod 86400 in
      case civil_of_days (s div 86400) of (y, m, d) \<Rightarrow>
        pad 4 y @ pad 2 m @ pad 2 d @ ''T'' @ pad 2 (sod div 3600) @ pad 2 (sod div 60 mod 60) @ pad 2 (sod mod 60) @ ''.'' @ pad 9 (Nanosecond t))"

definition createAsset :: "api_env \<Rightarrow> db handler" where
  "createAsset v ctx r d =
     orFailApi (read_json (ae_asset v) r) (\<lambda>(_, inp).
       if length (ai_uri inp) < 5 then (fail (problem ''uri'' ''is required''), d)
       else if ai_duration inp < 1 then (fail (problem ''duration_s'' ''must be at least 1''), d)
       else if ai_id inp \<noteq> '''' \<and> \<not> validID (ai_id inp) then (fail (problem ''id'' id_rule), d)
       else
         let ident = (if ai_id inp = '''' then ''m_'' @ asset_stamp (ae_now v) else ai_id inp);
             a = \<lparr>as_ID = ident, as_URI = ai_uri inp, as_DurationS = ai_duration inp, as_Tags = ai_tags inp, as_Meta = ai_meta inp, as_CreatedAt = ae_now v\<rparr>
         in orFailDb (InsertAssetChecked (ae_link v 0) a d) (\<lambda>_ d.
              (WriteJSON [(''Location'', ''/v1/assets/'' @ ident)] 201 (JObj [(''asset_id'', JStr ident)]), d))) d"

definition getAsset :: "api_env \<Rightarrow> db handler" where
  "getAsset v ctx r d =
     orFail (GetAssetChecked (ae_link v 0) (rq_param r ''asset_id'') d) (\<lambda>a. (WriteJSON [] 200 (asset_json a), d)) d"

definition deleteAsset :: "api_env \<Rightarrow> db handler" where
  "deleteAsset v ctx r d = orFailDb (DeleteAsset (ae_link v 0) (rq_param r ''asset_id'') d) (\<lambda>_ d. (WriteHeader 204, d))"

subsection \<open>Schedule\<close>

definition entry_model :: "entryIn \<Rightarrow> TimelineEntry" where
  "entry_model e = \<lparr>te_Type = ei_Type e, te_AssetID = ei_AssetID e, te_URI = ei_URI e, te_Start = ei_Start e, te_DurationS = ei_Duration e,
     te_OffsetS = ei_OffsetS e, te_Category = ei_Category e, te_SCTE35 = ei_SCTE35 e\<rparr>"

text \<open>A time of the query, with its default.\<close>

definition query_time :: "request \<Rightarrow> string \<Rightarrow> gtime \<Rightarrow> api_error + gtime" where
  "query_time r name def =
     (let s = rq_query r name in
      if s = '''' then Inr def
      else (case parse_time s of None \<Rightarrow> Inl (problem name ''must be an RFC 3339 time'') | Some t \<Rightarrow> Inr t))"

definition getSchedule :: "api_env \<Rightarrow> db handler" where
  "getSchedule v ctx r d =
     orFail (GetChannelChecked (ae_link v 0) (channelParam r) d) (\<lambda>ch.
     orFailApi (query_time r ''from'' (Truncate (ae_now v) second)) (\<lambda>t1.
     orFailApi (query_time r ''to'' (t1 + 6 * 3600 * second)) (\<lambda>t2.
       if \<not> t2 > t1 \<or> Sub t2 t1 > MaxWindow then (fail (problem ''to'' ''must be after from, at most 12 hours''), d)
       else orFail (pg (GetTimelineRange (ae_link v 1) (ch_ID ch) t1 t2 d)) (\<lambda>items.
         (WriteJSON [(''ETag'', etag (ch_ScheduleVersion ch))] 200
            (JObj [(''channel_id'', JStr (ch_ID ch)), (''from'', JTime t1), (''to'', JTime t2), (''version'', JInt (ch_ScheduleVersion ch)),
              (''entries'', JList (map entry_json items))]), d)) d) d) d) d"

definition replace_answer :: "nat \<Rightarrow> int \<Rightarrow> json" where
  "replace_answer n v = JObj [(''replaced'', JInt (int n)), (''version'', JInt v), (''warnings'', JList [])]"

definition answerApply :: "ApplyResult \<Rightarrow> nat \<Rightarrow> response" where
  "answerApply res n =
     (if ar_Replayed res
      then WriteRaw [(''ETag'', etag (ar_Version res)), (''Idempotent-Replay'', ''true'')] 200 (COALESCE (ar_Response res) JNull)
      else WriteJSON [(''ETag'', etag (ar_Version res))] 200 (replace_answer n (ar_Version res)))"

definition asset_ids :: "TimelineEntry list \<Rightarrow> string list" where
  "asset_ids es = rev (foldl (\<lambda>ids e. if te_AssetID e \<noteq> '''' \<and> te_AssetID e \<notin> set ids then te_AssetID e # ids else ids) [] es)"

definition unknownAssets :: "api_env \<Rightarrow> link \<Rightarrow> TimelineEntry list \<Rightarrow> db \<Rightarrow> store_error + string list" where
  "unknownAssets v l es d = pg (MissingAssets (ae_lt v) l (asset_ids es) d)"

fun comma_join :: "string list \<Rightarrow> string" where
  "comma_join [] = ''''"
| "comma_join [x] = x"
| "comma_join (x # xs) = x @ '', '' @ comma_join xs"

definition replaceSchedule :: "api_env \<Rightarrow> db handler" where
  "replaceSchedule v ctx r d =
     orFail (GetChannelChecked (ae_link v 0) (channelParam r) d) (\<lambda>ch.
     orFailApi (read_json (ae_replace v) r) (\<lambda>(body, inp).
     orFailApi (parseIfMatch r) (\<lambda>ifMatch.
     orFailApi (idemKey r) (\<lambda>key.
     orFailApi (case Validate (map entry_model (ri_Entries inp)) (ri_From inp) (ri_To inp) of Inl e \<Rightarrow> Inl (ApiErr (EditError e)) | Inr es \<Rightarrow> Inr es) (\<lambda>entries.
     orFail (unknownAssets v (ae_link v 1) entries d) (\<lambda>bad.
       if bad \<noteq> [] then (WriteProblem [] 422 ''Unprocessable'' (''these assets are not registered: '' @ comma_join bad), d)
       else if rq_query r ''dry_run'' = ''true''
       then (WriteJSON [] 200 (JObj [(''valid'', JBool True), (''entries'', JInt (int (length entries))), (''version'', JInt (ch_ScheduleVersion ch)), (''dry_run'', JBool True)]), d)
       else
         orFailDb (ApplySchedule (ae_link v 2) (ae_dbnow v)
             \<lparr>aq_ChannelID = ch_ID ch, aq_From = ri_From inp, aq_To = ri_To inp, aq_Entries = entries, aq_IfMatch = ifMatch, aq_IdemKey = key,
              aq_BodyHash = bodyHash (ae_hash v) (ch_ID ch) ''replace'' body, aq_Response = Some (replace_answer (length entries))\<rparr> d)
           (\<lambda>res d. (answerApply res (length entries), d))) d) d) d) d) d) d"

definition item_json :: "TimelineEntry option \<Rightarrow> json" where
  "item_json eo =
     (case eo of None \<Rightarrow> JNull
      | Some e \<Rightarrow> JObj ([(''type'', JStr (te_Type e))] @ omit ''asset_id'' (te_AssetID e) @ omit ''uri'' (te_URI e) @
          [(''start'', JTime (te_Start e)), (''end'', JTime (endOf e))]))"

fun now_next_loop :: "gtime \<Rightarrow> TimelineEntry list \<Rightarrow> TimelineEntry option \<times> TimelineEntry option \<Rightarrow> TimelineEntry option \<times> TimelineEntry option" where
  "now_next_loop now [] st = st"
| "now_next_loop now (e # es) (cur, nxt) =
     now_next_loop now es
       (if \<not> te_Start e > now \<and> cur = None then (Some e, nxt)
        else if te_Start e > now \<and> nxt = None then (cur, Some e)
        else (cur, nxt))"

definition nowNext :: "api_env \<Rightarrow> db handler" where
  "nowNext v ctx r d =
     orFail (GetChannelChecked (ae_link v 0) (channelParam r) d) (\<lambda>ch.
       let now = Truncate (ae_now v) second in
       orFail (pg (GetTimelineRange (ae_link v 1) (ch_ID ch) now (now + 12 * 3600 * second) d)) (\<lambda>items.
         case now_next_loop now items (None, None) of (cur, nxt) \<Rightarrow>
           (WriteJSON [] 200 (JObj [(''channel_id'', JStr (ch_ID ch)), (''server_time'', JTime now), (''now'', item_json cur), (''next'', item_json nxt)]), d)) d) d"

text \<open>Ping is the first question.\<close>

definition readyz :: "api_env \<Rightarrow> db handler" where
  "readyz v ctx r d =
     (if ae_link v 0 = Up then (WriteHeader 200, d) else (WriteProblem [] 503 ''postgres not ready'' (ae_pg_text v Unavailable), d))"

end
