(* ===== verification/Commands.thy ===== *)
theory Commands
  imports Server Stitch
begin

text \<open>
  \<^verbatim>\<open>services/control-api/commands.go\<close>: commands that act on the air by editing the schedule, and SCTE-35 messages of an upstream
  system. The theorems compose the handler with the store (\<^verbatim>\<open>Storage\<close>) and the edits (\<^verbatim>\<open>Schedule\<close>): what a command does to
  what is on the air.
\<close>

definition maxCommandSeconds :: int where "maxCommandSeconds = 4 * 3600"

record commandResult =
  cr_Type :: string
  cr_EffectiveAt :: gtime
  cr_Version :: int
  cr_Entries :: nat
  cr_Warnings :: "string list"
  cr_version :: int
  cr_replayed :: bool
  cr_stored :: "json option"

definition zero_result :: commandResult where
  "zero_result = \<lparr>cr_Type = '''', cr_EffectiveAt = zero_time, cr_Version = 0, cr_Entries = 0, cr_Warnings = [], cr_version = 0, cr_replayed = False, cr_stored = None\<rparr>"

text \<open>The exported fields, as JSON.\<close>

definition result_json :: "commandResult \<Rightarrow> json" where
  "result_json c = JObj ([(''type'', JStr (cr_Type c)), (''effective_at'', JTime (cr_EffectiveAt c)), (''version'', JInt (cr_Version c)),
     (''entries'', JInt (int (cr_Entries c)))] @ (if cr_Warnings c = [] then [] else [(''warnings'', JList (map JStr (cr_Warnings c)))]))"

definition answer :: "commandResult \<Rightarrow> commandResult" where
  "answer c = c\<lparr>cr_version := 0\<rparr>"

definition earliest :: "api_env \<Rightarrow> gtime" where
  "earliest v = (let t = ae_now v + ae_cueLead v in if Nanosecond t \<noteq> 0 then Truncate t second + second else t)"

definition command_time :: "api_env \<Rightarrow> commandIn \<Rightarrow> api_error + gtime" where
  "command_time v inp =
     (let at0 = earliest v in
      if cm_At inp \<noteq> '''' \<and> cm_At inp \<noteq> ''now'' then
        (case parse_time (cm_At inp) of
           None \<Rightarrow> Inl (problem ''at'' (''must be '' @ [CHR 0x22] @ ''now'' @ [CHR 0x22] @ '' or an RFC 3339 time''))
         | Some t \<Rightarrow>
             if Nanosecond t \<noteq> 0 then Inl (problem ''at'' ''must be a whole second'')
             else if t < at0 then Inl (problem ''at'' (''is too soon, the earliest moment is '' @ format_rfc3339 at0))
             else Inr t)
      else Inr at0)"

definition too_long :: string where
  "too_long = ''is required, between 1 and '' @ itoa maxCommandSeconds @ '' seconds''"

text \<open>The entry of a command before its duration is checked.\<close>

definition command_entry :: "link \<Rightarrow> commandIn \<Rightarrow> db \<Rightarrow> api_error + TimelineEntry" where
  "command_entry l inp d =
     (if cm_Type inp = ''ad_break'' then
        let e = zero_entry\<lparr>te_Type := ''ad_break'', te_DurationS := cm_Duration inp, te_Category := cm_Category inp, te_SCTE35 := cm_SCTE35 inp\<rparr> in
        if cm_AssetID inp \<noteq> '''' \<or> cm_URI inp \<noteq> '''' then Inl (problem ''asset_id'' ''an ad_break has no asset: the ads service chooses what to play'')
        else Inr (if te_Category e = '''' then e\<lparr>te_Category := ''midroll''\<rparr> else e)
      else if cm_Type inp = ''slate'' then Inr (zero_entry\<lparr>te_Type := ''slate'', te_DurationS := cm_Duration inp\<rparr>)
      else if cm_Type inp = ''insert'' then
        let e = zero_entry\<lparr>te_Type := ''content'', te_AssetID := cm_AssetID inp, te_URI := cm_URI inp, te_DurationS := cm_Duration inp\<rparr> in
        if te_AssetID e = '''' \<and> te_URI e = '''' then Inl (problem ''asset_id'' ''insert needs an asset_id or a uri'')
        else if te_AssetID e \<noteq> '''' then
          (case GetAssetChecked l (te_AssetID e) d of
             Inl ErrNotFound \<Rightarrow> Inl (problem ''asset_id'' ''this asset is not registered'')
           | Inl err \<Rightarrow> Inl (ApiErr err)
           | Inr a \<Rightarrow> Inr (if te_DurationS e = 0 then e\<lparr>te_DurationS := as_DurationS a\<rparr> else e))
        else Inr e
      else Inr zero_entry)"

definition inserted :: "link \<Rightarrow> commandIn \<Rightarrow> db \<Rightarrow> api_error + TimelineEntry" where
  "inserted l inp d =
     (if cm_Type inp = ''skip'' then Inr zero_entry
      else bindE (command_entry l inp d) (\<lambda>e.
        if te_DurationS e < 1 \<or> te_DurationS e > maxCommandSeconds then Inl (problem ''duration'' too_long)
        else if TrimSpace (te_Category e) \<noteq> te_Category e then Inl (problem ''category'' ''has spaces around it'')
        else Inr e))"

text \<open>What \<^verbatim>\<open>runCommand\<close> does inside the transaction.\<close>

definition schedE :: "sched_error + 'a \<Rightarrow> store_error + 'a" where
  "schedE r = (case r of Inl e \<Rightarrow> Inl (EditError e) | Inr x \<Rightarrow> Inr x)"

definition break_on_air :: "gtime \<Rightarrow> TimelineEntry list \<Rightarrow> bool" where
  "break_on_air at0 es = list_ex (\<lambda>e. te_Type e = ''ad_break'' \<and> \<not> te_Start e > at0 \<and> endOf e > at0) es"

definition command_edit :: "commandIn \<Rightarrow> gtime \<Rightarrow> TimelineEntry \<Rightarrow> TimelineEntry list \<Rightarrow> store_error + Edit" where
  "command_edit inp at0 ins existing =
     (if length existing > MaxEntries then Inl (EditError (Problem ''schedule'' ''too long to edit in one step''))
      else bindE (schedE
          (if cm_Type inp = ''skip'' then
             if cm_onlyBreak inp \<and> \<not> break_on_air at0 existing then Inl (ErrNothing ''no ad break is on the air at that moment'')
             else Skip existing at0
           else InsertShift existing at0 ins)) (\<lambda>ed.
        bindE (schedE (CheckEntries (ed_Entries ed) (ed_From ed) (ed_To ed))) (\<lambda>_. Inr ed)))"

definition out_of :: "commandIn \<Rightarrow> gtime \<Rightarrow> nat \<Rightarrow> commandResult" where
  "out_of inp at0 n = zero_result\<lparr>cr_Type := cm_Type inp, cr_EffectiveAt := at0, cr_Entries := n\<rparr>"

definition command_decide :: "commandIn \<Rightarrow> gtime \<Rightarrow> TimelineEntry \<Rightarrow> Reader \<Rightarrow> store_error + Change" where
  "command_decide inp at0 ins rd =
     (let end0 = Horizon rd; end1 = (if end0 < at0 then at0 else end0); existing = Range rd at0 (end1 + second) in
      bindE (command_edit inp at0 ins existing) (\<lambda>ed.
        Inr \<lparr>cg_From = ed_From ed, cg_To = ed_To ed, cg_Entries = ed_Entries ed,
             cg_Response = Some (\<lambda>ver. result_json ((out_of inp at0 (length (ed_Entries ed)))\<lparr>cr_Version := ver\<rparr>))\<rparr>))"

text \<open>The variable \<^verbatim>\<open>out\<close> is set by the edit and keeps its zero value when an answer is repeated.\<close>

definition command_out :: "commandIn \<Rightarrow> gtime \<Rightarrow> TimelineEntry \<Rightarrow> string \<Rightarrow> ApplyResult \<Rightarrow> db \<Rightarrow> commandResult" where
  "command_out inp at0 ins c res d =
     (let out = (if ar_Replayed res then zero_result
                 else (case command_decide inp at0 ins \<lparr>rd_db = d, rd_channelID = c, rd_Version = ar_Version res - 1\<rparr> of
                         Inl _ \<Rightarrow> zero_result | Inr ch \<Rightarrow> out_of inp at0 (length (cg_Entries ch))))
      in out\<lparr>cr_Version := ar_Version res, cr_version := ar_Version res, cr_replayed := ar_Replayed res, cr_stored := ar_Response res\<rparr>)"

definition runCommand :: "api_env \<Rightarrow> Channel \<Rightarrow> commandIn \<Rightarrow> string \<Rightarrow> string \<Rightarrow> db \<Rightarrow> (api_error + commandResult) \<times> db" where
  "runCommand v ch inp key hash d =
     (if cm_Type inp \<notin> {''ad_break'', ''slate'', ''insert'', ''skip''}
      then (Inl (problem ''type'' ''must be ad_break, insert, skip or slate''), d)
      else (case command_time v inp of
          Inl e \<Rightarrow> (Inl e, d)
        | Inr at0 \<Rightarrow>
            (case inserted (ae_link v 1) inp d of
               Inl e \<Rightarrow> (Inl e, d)
             | Inr ins \<Rightarrow>
                 (case EditSchedule (ae_link v 2) (ae_dbnow v) (ch_ID ch) None key hash (command_decide inp at0 ins) d of
                    (Inl e, d') \<Rightarrow> (Inl (ApiErr e), d')
                  | (Inr res, d') \<Rightarrow> (Inr (command_out inp at0 ins (ch_ID ch) res d), d')))))"

definition answer_command :: "commandResult \<Rightarrow> json \<Rightarrow> response" where
  "answer_command res doc =
     (if cr_replayed res
      then WriteRaw [(''ETag'', etag (cr_version res)), (''Idempotent-Replay'', ''true'')] 200 (COALESCE (cr_stored res) JNull)
      else WriteJSON [(''ETag'', etag (cr_version res))] 200 doc)"

definition orFailCmd :: "(api_error + 'a) \<times> db \<Rightarrow> ('a \<Rightarrow> db \<Rightarrow> response \<times> db) \<Rightarrow> response \<times> db" where
  "orFailCmd r k = (case r of (Inl e, d) \<Rightarrow> (fail e, d) | (Inr x, d) \<Rightarrow> k x d)"

definition command :: "api_env \<Rightarrow> db handler" where
  "command v ctx r d =
     orFail (GetChannelChecked (ae_link v 0) (channelParam r) d) (\<lambda>ch.
     orFailApi (read_json (ae_command v) r) (\<lambda>(body, inp).
     orFailApi (idemKey r) (\<lambda>key.
       orFailCmd (runCommand v ch (inp\<lparr>cm_onlyBreak := False\<rparr>) key (bodyHash (ae_hash v) (ch_ID ch) ''command'' body) d) (\<lambda>res d.
         (answer_command res (result_json (answer res)), d))) d) d) d"

subsection \<open>SCTE-35\<close>

text \<open>The command of a message: \<^verbatim>\<open>out\<close> starts a break of its length, rounded up to seconds; \<^verbatim>\<open>in\<close> ends the break on the air.\<close>

definition break_seconds :: "64 word \<Rightarrow> int" where
  "break_seconds ticks = sint (word_of_nat (unat (ticks + 90000 - 1) div 90000) :: 64 word)"

definition zero_command :: commandIn where
  "zero_command = \<lparr>cm_Type = '''', cm_At = '''', cm_Duration = 0, cm_AssetID = '''', cm_URI = '''', cm_Category = '''', cm_SCTE35 = '''', cm_onlyBreak = False\<rparr>"

definition scte_command :: "(scte_error \<Rightarrow> string) \<Rightarrow> scte_in \<Rightarrow> api_error + commandIn \<times> string list" where
  "scte_command txt inp =
     (case ParseSection (sc_Message inp) of
        Inl e \<Rightarrow> Inl (problem ''message'' (txt e))
      | Inr raw \<Rightarrow>
          (case Decode raw of
             Inl e \<Rightarrow> Inl (problem ''message'' (txt e))
           | Inr sec \<Rightarrow>
               (case sec_Insert sec of
                  None \<Rightarrow> Inl (problem ''message'' ''only splice_insert is understood'')
                | Some ins \<Rightarrow>
                    if si_Cancel ins then Inl (problem ''message'' ''splice_event_cancel_indicator is not supported'')
                    else if si_Out ins then
                      let secs = break_seconds (si_DurationTicks ins) in
                      if secs < 1 then Inl (problem ''message'' ''a message that starts a break must carry its break_duration'')
                      else Inr (zero_command\<lparr>cm_At := sc_At inp, cm_Type := ''ad_break'', cm_Duration := secs, cm_SCTE35 := Hex raw\<rparr>,
                                if si_Immediate ins then [] else [''splice_time is not used: the break starts at effective_at''])
                    else Inr (zero_command\<lparr>cm_At := sc_At inp, cm_Type := ''skip'', cm_onlyBreak := True\<rparr>, []))))"

definition scte35 :: "(scte_error \<Rightarrow> string) \<Rightarrow> api_env \<Rightarrow> db handler" where
  "scte35 txt v ctx r d =
     orFail (GetChannelChecked (ae_link v 0) (channelParam r) d) (\<lambda>ch.
     orFailApi (read_json (ae_scte v) r) (\<lambda>(body, inp).
     orFailApi (idemKey r) (\<lambda>key.
     orFailApi (scte_command txt inp) (\<lambda>(cmd, warnings).
       orFailCmd (runCommand v ch cmd key (bodyHash (ae_hash v) (ch_ID ch) ''scte35'' body) d) (\<lambda>res d.
         (answer_command res (result_json (res\<lparr>cr_Warnings := warnings\<rparr>)), d))) d) d) d) d"

subsection \<open>Edits of entries that were read from the store\<close>

text \<open>An entry that was read has its URI already; cutting and moving it does not change that.\<close>

lemma resolved_fields [simp]:
  "te_Start (resolved d e) = te_Start e" "te_DurationS (resolved d e) = te_DurationS e" "te_Type (resolved d e) = te_Type e"
  "te_AssetID (resolved d e) = te_AssetID e" "te_Category (resolved d e) = te_Category e" "te_OffsetS (resolved d e) = te_OffsetS e"
  "endOf (resolved d e) = endOf e" "resolved d (e\<lparr>te_Start := t\<rparr>) = (resolved d e)\<lparr>te_Start := t\<rparr>"
  by (simp_all add: resolved_def endOf_def)

definition settled :: "db \<Rightarrow> TimelineEntry \<Rightarrow> bool" where
  "settled d e \<longleftrightarrow> (te_URI e = '''' \<longrightarrow> COALESCE (asset_uri d (NULLIF (te_AssetID e))) '''' = '''')"

lemma settled_resolved: "settled d e \<Longrightarrow> resolved d e = e"
  by (cases e) (simp add: settled_def resolved_def)

lemma settled_update [simp]:
  "settled d (e\<lparr>te_Start := t\<rparr>) = settled d e" "settled d (e\<lparr>te_DurationS := n\<rparr>) = settled d e" "settled d (e\<lparr>te_OffsetS := n\<rparr>) = settled d e"
  by (simp_all add: settled_def)

lemma view_settled: "db_ok d \<Longrightarrow> e \<in> set (view d c) \<Longrightarrow> settled d e"
  by (auto simp: view_def rows_for_in settled_def entry_of_def NULLIF_def COALESCE_def asset_uri_def db_ok_alt row_ok_def split: option.splits if_splits)

lemma map_settled: "\<forall>e \<in> set es. settled d e \<Longrightarrow> map (resolved d) es = es"
  by (induction es) (simp_all add: settled_resolved)

lemma shift_loop_settled:
  assumes "shift_loop es at0 dur t1 ents after = (t1', ents', after')" "\<forall>e \<in> set (es @ ents @ after). settled d e"
  shows "\<forall>e \<in> set (ents' @ after'). settled d e"
  using assms by (induction es at0 dur t1 ents after rule: shift_loop.induct) (auto simp: Let_def split: if_splits)

lemma InsertShift_settled:
  assumes "InsertShift es at0 ins = Inr ed" "\<forall>e \<in> set es. settled d e"
  shows "InsertShift es at0 (resolved d ins) = Inr (ed\<lparr>ed_Entries := map (resolved d) (ed_Entries ed)\<rparr>)"
proof -
  obtain t1 ents after where l: "shift_loop es at0 (seconds (te_DurationS ins)) at0 [] [] = (t1, ents, after)" by (metis prod_cases3)
  have s: "map (resolved d) ents = ents" "map (resolved d) after = after"
    using shift_loop_settled [OF l] assms(2) by (auto intro: map_settled)
  have last: "endOf (last (map (resolved d) xs)) = endOf (last xs)" if "xs \<noteq> []" for xs using that by (simp add: last_map)
  show ?thesis using assms(1) s last [of "ents @ [ins\<lparr>te_Start := at0\<rparr>] @ after"]
    by (auto simp: InsertShift_def Let_def l split: if_splits)
qed

lemma pull_loop_settled:
  assumes "pull_loop es p prev chain t2 out = (t2', out')" "\<forall>e \<in> set (es @ out). settled d e"
  shows "\<forall>e \<in> set out'. settled d e"
  using assms by (induction es p prev chain t2 out rule: pull_loop.induct) (auto simp: Let_def split: if_splits)

lemma Skip_settled:
  assumes "Skip es at0 = Inr ed" "\<forall>e \<in> set es. settled d e"
  shows "map (resolved d) (ed_Entries ed) = ed_Entries ed"
proof -
  obtain cur rest where c: "dropWhile (\<lambda>e. \<not> (\<not> te_Start e > at0 \<and> endOf e > at0)) es = cur # rest"
    using assms(1) by (auto simp: Skip_def split: list.splits if_splits)
  have sub: "\<forall>e \<in> set (cur # rest). settled d e" using assms(2) set_dropWhileD [of _ _ es] unfolding c [symmetric] by blast
  define ents where "ents = (if at0 > te_Start cur then [cur\<lparr>te_DurationS := go_div (Sub at0 (te_Start cur)) second\<rparr>] else [])"
  obtain t2 es' where p: "pull_loop rest (Sub (endOf cur) at0) (endOf cur) True (endOf cur) ents = (t2, es')" by fastforce
  have "\<forall>e \<in> set (rest @ ents). settled d e" using sub by (auto simp: ents_def)
  then have "\<forall>e \<in> set es'. settled d e" by (rule pull_loop_settled [OF p])
  moreover have "ed_Entries ed = es'" using assms(1) c p by (auto simp: Skip_def Let_def ents_def split: if_splits)
  ultimately show ?thesis by (simp add: map_settled)
qed

subsection \<open>What a command reads and writes\<close>

text \<open>A schedule as commands expect it: stored entries that are valid and do not overlap.\<close>

definition sched_ok :: "db \<Rightarrow> string \<Rightarrow> bool" where
  "sched_ok d c \<longleftrightarrow> wf_sched (view d c) \<and> (\<forall>e \<in> set (view d c). static_ok e)"

lemma command_decide_InrD:
  assumes "command_decide inp at0 ins \<lparr>rd_db = d, rd_channelID = c, rd_Version = ver\<rparr> = Inr ch" and ok: "db_ok d" "wf_sched (view d c)" "whole at0"
  obtains ed where "command_edit inp at0 ins (filter (\<lambda>e. at0 < endOf e) (view d c)) = Inr ed"
    "cg_From ch = ed_From ed" "cg_To ch = ed_To ed" "cg_Entries ch = ed_Entries ed"
  using assms(1) store.range_from [OF ok]
  by (auto simp: command_decide_def Let_def bindE_Inr_iff Horizon_def Range_def)

lemma command_edit_InrD:
  assumes "command_edit inp at0 ins es = Inr ed"
  shows "cm_Type inp \<noteq> ''skip'' \<Longrightarrow> InsertShift es at0 ins = Inr ed" "cm_Type inp = ''skip'' \<Longrightarrow> Skip es at0 = Inr ed"
    "\<forall>e \<in> set (ed_Entries ed). entry_ok (ed_From ed) (ed_To ed) e" "length (ed_Entries ed) \<le> MaxEntries"
    "cm_Type inp = ''skip'' \<Longrightarrow> cm_onlyBreak inp \<Longrightarrow> break_on_air at0 es"
  using assms by (auto simp: command_edit_def bindE_Inr_iff schedE_def CheckEntries_Inr split: if_splits sum.splits)

lemma wf_whole: "wf_sched es \<Longrightarrow> e \<in> set es \<Longrightarrow> whole (te_Start e) \<and> whole (endOf e)"
  by (auto simp: wf_sched_def entry_wf_def endOf_ok dur_ok_def Nanosecond_def)

text \<open>The window of an edit begins and ends at a whole second.\<close>

lemma InsertShift_window:
  assumes "wf_sched es" "InsertShift (filter (\<lambda>e. at0 < endOf e) es) at0 ins = Inr ed" "dur_ok (te_DurationS ins)"
  shows "whole (ed_From ed) \<and> whole (ed_To ed)"
proof -
  have at0: "whole at0" using InsertShift_InrD [OF assms(2)] by simp
  obtain pre st fut where s: "es = pre @ st @ fut" "\<forall>e \<in> set pre. endOf e \<le> at0" "\<forall>e \<in> set fut. at0 \<le> te_Start e"
      "st = [] \<or> (\<exists>s. st = [s] \<and> te_Start s < at0 \<and> at0 < endOf s)"
    using wf_sched_split [OF assms(1)] by metis
  have wf: "wf_sched (pre @ st @ fut)" using assms(1) s(1) by simp
  have ed: "InsertShift (st @ fut) at0 ins = Inr ed" using assms(2) filter_ending_after [OF wf s(2-4)] s(1) by simp
  have wfe: "\<forall>e \<in> set (st @ fut). entry_wf e" using wf by (simp add: wf_sched_def)
  note shape = InsertShift_shape [OF at0 wfe s(3,4) ed]
  have wfn: "wf_sched (pre @ ed_Entries ed)" using wf_inserted [OF wf at0 assms(3) s(2-4)] shape(2) by simp
  have "ed_Entries ed \<noteq> []" by (simp add: shape(2) inserted_entries_def Let_def)
  then have "whole (ed_To ed)" using wf_whole [OF wfn, of "last (ed_Entries ed)"] shape(4) by simp
  moreover have "whole (ed_From ed)" using s(4) at0 wfe by (auto simp: shape(3) entry_wf_def)
  ultimately show ?thesis by simp
qed

lemma fold_max_whole: "whole m \<Longrightarrow> \<forall>e \<in> set es. whole (f e) \<Longrightarrow> whole (fold (\<lambda>e m. max m (f e)) es m)"
  by (induction es arbitrary: m) (auto simp: max_def)

lemma Skip_current:
  assumes "wf_sched es" "Skip (filter (\<lambda>e. at0 < endOf e) es) at0 = Inr ed"
  obtains pre cur rest where "es = pre @ cur # rest" "covers cur at0"
proof -
  have "\<exists>e \<in> set es. covers e at0"
    using Skip_Nothing [of "filter (\<lambda>e. at0 < endOf e) es" at0] Skip_InrD [OF assms(2)] assms(2) by auto
  then show ?thesis using that by (metis split_list)
qed

lemma Skip_window:
  assumes "wf_sched es" "Skip (filter (\<lambda>e. at0 < endOf e) es) at0 = Inr ed"
  shows "whole (ed_From ed) \<and> whole (ed_To ed)"
proof -
  obtain pre cur rest where es: "es = pre @ cur # rest" and cov: "covers cur at0" by (rule Skip_current [OF assms])
  have at0: "whole at0" "te_Start cur \<le> at0" "at0 < endOf cur" using Skip_InrD [OF assms(2)] cov by (auto simp: covers_def)
  have wf: "wf_sched (pre @ cur # rest)" using assms(1) es by simp
  have "Skip (cur # rest) at0 = Inr ed" using assms(2) wf_sched_at [OF wf cov] es by simp
  then have "ed_From ed = te_Start cur" "ed_To ed = fold (\<lambda>e m. max m (endOf e)) rest (endOf cur)"
    using Skip_shape [OF _ at0] wf by (auto simp: wf_sched_def)
  then show ?thesis using wf_whole [OF wf] by (auto intro!: fold_max_whole)
qed

lemma earliest_whole: "whole (earliest v)"
  using whole_Truncate [of 1 "ae_now v + ae_cueLead v"] by (simp add: earliest_def Let_def Nanosecond_def)

lemma command_time_InrD: "command_time v inp = Inr at0 \<Longrightarrow> whole at0 \<and> earliest v \<le> at0"
  using earliest_whole [of v] by (auto simp: command_time_def Let_def split: if_splits option.splits)

lemma inserted_InrD: "inserted l inp d = Inr e \<Longrightarrow> cm_Type inp \<noteq> ''skip'' \<Longrightarrow> 1 \<le> te_DurationS e \<and> te_DurationS e \<le> maxCommandSeconds"
  by (auto simp: inserted_def bindE_Inr_iff split: if_splits)

lemma edit_window:
  assumes "command_edit inp at0 ins (filter (\<lambda>e. at0 < endOf e) es) = Inr ed" "wf_sched es" "cm_Type inp \<noteq> ''skip'' \<Longrightarrow> dur_ok (te_DurationS ins)"
  shows "whole (ed_From ed) \<and> whole (ed_To ed)"
  using command_edit_InrD(1,2) [OF assms(1)] InsertShift_window [OF assms(2)] Skip_window [OF assms(2)] assms(3) by blast

text \<open>A command that was carried out: the edit it decided on, and the store after it.\<close>

lemma runCommand_InrD:
  assumes run: "runCommand v ch inp key hash d = (Inr res, d')" "\<not> cr_replayed res" and ok: "db_ok d" "wf_sched (view d (ch_ID ch))"
  obtains at0 ins ver ed where "command_time v inp = Inr at0" "inserted (ae_link v 1) inp d = Inr ins"
    "command_edit inp at0 ins (filter (\<lambda>e. at0 < endOf e) (view d (ch_ID ch))) = Inr ed" "cr_EffectiveAt res = at0" "cr_Version res = ver + 1"
    "version_of d (ch_ID ch) = Some ver" "cr_Entries res = length (ed_Entries ed)" "cr_Type res = cm_Type inp" "db_ok d'"
    "abs_store d' = (abs_store d)(ch_ID ch \<mapsto> (ver + 1, apply_edit (view d (ch_ID ch)) (ed\<lparr>ed_Entries := map (resolved d) (ed_Entries ed)\<rparr>)))"
proof -
  let ?c = "ch_ID ch"
  obtain at0 where at0: "command_time v inp = Inr at0" using run(1) by (auto simp: runCommand_def split: if_splits sum.splits)
  obtain ins where ins: "inserted (ae_link v 1) inp d = Inr ins" using run(1) at0 by (auto simp: runCommand_def split: if_splits sum.splits)
  let ?dec = "command_decide inp at0 ins"
  obtain ar where e: "EditSchedule (ae_link v 2) (ae_dbnow v) ?c None key hash ?dec d = (Inr ar, d')" and res: "res = command_out inp at0 ins ?c ar d"
    using run(1) at0 ins by (auto simp: runCommand_def split: if_splits sum.splits prod.splits)
  have ar: "\<not> ar_Replayed ar" using run(2) res by (simp add: command_out_def Let_def)
  have tx: "edit_tx (ae_dbnow v) ?c None key hash ?dec d = Inr (ar, d')"
    using e ar by (cases "edit_tx (ae_dbnow v) ?c None key hash ?dec d") (auto simp: EditSchedule_def change_Inr split: if_splits prod.splits sum.splits)
  note t = command_time_InrD [OF at0]
  have wh: "change_whole cg" if "?dec \<lparr>rd_db = d, rd_channelID = ?c, rd_Version = ver\<rparr> = Inr cg" for ver cg
  proof -
    note dec = that
    obtain ed where ed: "command_edit inp at0 ins (filter (\<lambda>e. at0 < endOf e) (view d ?c)) = Inr ed"
      "cg_From cg = ed_From ed" "cg_To cg = ed_To ed" "cg_Entries cg = ed_Entries ed" by (rule command_decide_InrD [OF dec ok]) (use t in auto)
    have "dur_ok (te_DurationS ins)" if "cm_Type inp \<noteq> ''skip''" using inserted_InrD [OF ins that] by (simp add: dur_ok_def maxCommandSeconds_def)
    then have "whole (ed_From ed) \<and> whole (ed_To ed)" by (rule edit_window [OF ed(1) ok(2)])
    then show ?thesis using command_edit_InrD(3) [OF ed(1)] ed by (auto simp: change_whole_def list_all_iff entry_ok_def static_ok_def)
  qed
  obtain ver where ed0: "edited d ?c None ?dec ver d'" and arv: "ar = \<lparr>ar_Version = ver + 1, ar_Replayed = False, ar_Response = None\<rparr>"
    by (rule edit_tx_edited [OF ok(1) wh tx ar])
  obtain cg where cg: "?dec \<lparr>rd_db = d, rd_channelID = ?c, rd_Version = ver\<rparr> = Inr cg" and ver: "version_of d ?c = Some ver"
    and abs': "abs_store d' = (abs_store d)(?c \<mapsto> (ver + 1, apply_edit (view d ?c) (edit_of d cg)))"
    using ed0 by (auto simp: edited_def)
  obtain ed where ed: "command_edit inp at0 ins (filter (\<lambda>e. at0 < endOf e) (view d ?c)) = Inr ed"
      "cg_From cg = ed_From ed" "cg_To cg = ed_To ed" "cg_Entries cg = ed_Entries ed" by (rule command_decide_InrD [OF cg ok]) (use t in auto)
  have "edit_of d cg = ed\<lparr>ed_Entries := map (resolved d) (ed_Entries ed)\<rparr>" using ed by (simp add: edit_of_def)
  moreover have "cr_EffectiveAt res = at0" "cr_Version res = ver + 1" "cr_Entries res = length (ed_Entries ed)" "cr_Type res = cm_Type inp"
    using cg arv ed by (simp_all add: res command_out_def Let_def out_of_def)
  ultimately show ?thesis using that [OF at0 ins ed(1)] ver abs' edit_tx_ok [OF tx ok(1)] by simp
qed

lemma static_resolved: "static_ok e \<Longrightarrow> static_ok (resolved d e)"
  by (auto simp: static_ok_def resolved_def NULLIF_def COALESCE_def asset_uri_def)

lemma view_abs:
  assumes "abs_store d' = (abs_store d)(c \<mapsto> (ver, es))" "version_of d x \<noteq> None \<or> x = c"
  shows "view d' x = (if x = c then es else view d x)" "version_of d' x = (if x = c then Some ver else version_of d x)"
  using fun_cong [OF assms(1), of x] assms(2) by (auto simp: abs_store_def)

lemma static_apply_edit:
  "\<forall>e \<in> set es. static_ok e \<Longrightarrow> \<forall>e \<in> set (ed_Entries ed). static_ok e \<Longrightarrow> \<forall>e \<in> set (apply_edit es ed). static_ok e"
  by (auto simp: apply_edit_def)

subsection \<open>Properties\<close>

text \<open>C24. A command that puts something on the air means what the operator expects. It takes effect at a whole second, not before the
  earliest moment the engine can make; until then the schedule is as it was, then the new entry is on the air for its duration,
  and from then on everything is what was scheduled, later by that duration, a program that was cut going on where it stopped. The
  version grows by one, the schedule stays valid and free of overlaps, and other channels are not touched.\<close>

theorem command_airs:
  assumes ok: "db_ok d" "sched_ok d (ch_ID ch)" and run: "runCommand v ch inp key hash d = (Inr res, d')" "\<not> cr_replayed res" and ty: "cm_Type inp \<noteq> ''skip''"
  shows "\<exists>e. inserted (ae_link v 1) inp d = Inr e \<and>
    (let at0 = cr_EffectiveAt res; dur = te_DurationS e * second in
     whole at0 \<and> earliest v \<le> at0 \<and> 0 < dur \<and> sched_ok d' (ch_ID ch) \<and>
     version_of d (ch_ID ch) = Some (cr_Version res - 1) \<and> version_of d' (ch_ID ch) = Some (cr_Version res) \<and>
     (\<forall>c'. c' \<noteq> ch_ID ch \<longrightarrow> abs_store d' c' = abs_store d c') \<and>
     (\<forall>t. airs (view d' (ch_ID ch)) t =
        (if t < at0 then airs (view d (ch_ID ch)) t
         else if t < at0 + dur then Some (what (resolved d (e\<lparr>te_Start := at0\<rparr>)) t)
         else airs (view d (ch_ID ch)) (t - dur))))"
proof -
  let ?c = "ch_ID ch"
  have wf: "wf_sched (view d ?c)" "\<forall>e \<in> set (view d ?c). static_ok e" using ok(2) by (simp_all add: sched_ok_def)
  obtain at0 ins ver ed where at0: "command_time v inp = Inr at0" and ins: "inserted (ae_link v 1) inp d = Inr ins"
    and ed: "command_edit inp at0 ins (filter (\<lambda>e. at0 < endOf e) (view d ?c)) = Inr ed"
    and res: "cr_EffectiveAt res = at0" "cr_Version res = ver + 1" and ver: "version_of d ?c = Some ver"
    and a': "abs_store d' = (abs_store d)(?c \<mapsto> (ver + 1, apply_edit (view d ?c) (ed\<lparr>ed_Entries := map (resolved d) (ed_Entries ed)\<rparr>)))"
    by (rule runCommand_InrD [OF run ok(1) wf(1)])
  note ce = command_edit_InrD [OF ed] and t = command_time_InrD [OF at0] and dur = inserted_InrD [OF ins ty]
  let ?ed = "ed\<lparr>ed_Entries := map (resolved d) (ed_Entries ed)\<rparr>" and ?ins = "resolved d ins"
  have is0: "InsertShift (filter (\<lambda>e. at0 < endOf e) (view d ?c)) at0 ?ins = Inr ?ed"
    by (rule InsertShift_settled [OF ce(1) [OF ty]]) (use view_settled [OF ok(1)] in auto)
  have m: "te_DurationS ?ins \<le> max_seconds" using dur by (simp add: maxCommandSeconds_def)
  have "ins\<lparr>te_Start := at0\<rparr> \<in> set (ed_Entries ed)" using ce(1) [OF ty] by (auto simp: InsertShift_def Let_def split: if_splits prod.splits)
  then have "static_ok (ins\<lparr>te_Start := at0\<rparr>)" using ce(3) by (auto simp: entry_ok_def)
  then have st: "static_ok (?ins\<lparr>te_Start := at0\<rparr>)" using static_resolved [of "ins\<lparr>te_Start := at0\<rparr>" d] by simp
  have w': "wf_sched (apply_edit (view d ?c) ?ed)" using InsertShift_checked [OF wf st m is0] ce(4) by simp
  have v': "view d' ?c = apply_edit (view d ?c) ?ed" "version_of d' ?c = Some (ver + 1)" using view_abs [OF a', of ?c] by simp_all
  have "\<forall>e \<in> set (apply_edit (view d ?c) ?ed). static_ok e"
    using ce(3) by (intro static_apply_edit [OF wf(2)]) (auto simp: entry_ok_def intro: static_resolved)
  then have so: "sched_ok d' ?c" using w' v' by (simp add: sched_ok_def)
  have airs': "airs (view d' ?c) x = (if x < at0 then airs (view d ?c) x
      else if x < at0 + te_DurationS ins * second then Some (what (?ins\<lparr>te_Start := at0\<rparr>) x) else airs (view d ?c) (x - te_DurationS ins * second))" for x
    using InsertShift_airs [OF wf(1) m is0, of x] v'(1) by (simp add: Let_def)
  have "abs_store d' c' = abs_store d c'" if "c' \<noteq> ?c" for c' using that a' by simp
  then show ?thesis using ins t dur so res ver v' airs' by (intro exI [of _ ins]) (simp add: Let_def)
qed

text \<open>Skipping takes what is on the air off it: until the moment the schedule is as it was; then come the entries that followed
  back to back, earlier by what was left; where their run ended there is nothing until its old end, and after that the schedule is as
  it was. With the return message of SCTE-35 what is skipped is an ad break. The version grows by one and the schedule
  stays valid and free of overlaps.\<close>

theorem skip_airs:
  assumes ok: "db_ok d" "sched_ok d (ch_ID ch)" and run: "runCommand v ch inp key hash d = (Inr res, d')" "\<not> cr_replayed res" and ty: "cm_Type inp = ''skip''"
  shows "\<exists>pre cur rest. view d (ch_ID ch) = pre @ cur # rest \<and>
    (let at0 = cr_EffectiveAt res; pulled = endOf cur - at0; stop = run_end (endOf cur) rest in
     covers cur at0 \<and> (cm_onlyBreak inp \<longrightarrow> te_Type cur = ''ad_break'') \<and> whole at0 \<and> earliest v \<le> at0 \<and> sched_ok d' (ch_ID ch) \<and>
     version_of d (ch_ID ch) = Some (cr_Version res - 1) \<and> version_of d' (ch_ID ch) = Some (cr_Version res) \<and>
     (\<forall>t. airs (view d' (ch_ID ch)) t =
        (if t < at0 then airs (view d (ch_ID ch)) t
         else if t < stop - pulled then airs (view d (ch_ID ch)) (t + pulled)
         else if t < stop then None
         else airs (view d (ch_ID ch)) t)))"
proof -
  let ?c = "ch_ID ch"
  have wf: "wf_sched (view d ?c)" "\<forall>e \<in> set (view d ?c). static_ok e" using ok(2) by (simp_all add: sched_ok_def)
  obtain at0 ins ver ed where at0: "command_time v inp = Inr at0"
    and ed: "command_edit inp at0 ins (filter (\<lambda>e. at0 < endOf e) (view d ?c)) = Inr ed"
    and res: "cr_EffectiveAt res = at0" "cr_Version res = ver + 1" and ver: "version_of d ?c = Some ver"
    and a': "abs_store d' = (abs_store d)(?c \<mapsto> (ver + 1, apply_edit (view d ?c) (ed\<lparr>ed_Entries := map (resolved d) (ed_Entries ed)\<rparr>)))"
    by (rule runCommand_InrD [OF run ok(1) wf(1)])
  note ce = command_edit_InrD [OF ed] and t = command_time_InrD [OF at0]
  have sk: "Skip (filter (\<lambda>e. at0 < endOf e) (view d ?c)) at0 = Inr ed" by (rule ce(2) [OF ty])
  obtain pre cur rest where es: "view d ?c = pre @ cur # rest" and cov: "covers cur at0" by (rule Skip_current [OF wf(1) sk])
  have "map (resolved d) (ed_Entries ed) = ed_Entries ed" using Skip_settled [OF sk, of d] view_settled [OF ok(1)] by auto
  then have "ed\<lparr>ed_Entries := map (resolved d) (ed_Entries ed)\<rparr> = ed" by simp
  then have v': "view d' ?c = apply_edit (view d ?c) ed" "version_of d' ?c = Some (ver + 1)" using view_abs [OF a', of ?c] by simp_all
  have wf': "wf_sched (pre @ cur # rest)" using wf(1) es by simp
  have at: "whole at0" "te_Start cur \<le> at0" "at0 < endOf cur" using t cov by (auto simp: covers_def)
  have sk': "Skip (cur # rest) at0 = Inr ed" using sk wf_sched_at [OF wf' cov] es by simp
  have "wf_sched (apply_edit (pre @ cur # rest) ed)"
    using wf_pulled [OF wf' at] apply_edit_pulled [OF wf' at sk'] by simp
  moreover have "\<forall>e \<in> set (apply_edit (view d ?c) ed). static_ok e"
    using ce(3) by (intro static_apply_edit [OF wf(2)]) (auto simp: entry_ok_def)
  ultimately have so: "sched_ok d' ?c" using v' es by (simp add: sched_ok_def)
  have brk: "te_Type cur = ''ad_break''" if only: "cm_onlyBreak inp"
  proof -
    have "break_on_air at0 (cur # rest)" using ce(5) [OF ty only] unfolding es wf_sched_at [OF wf' cov] .
    then obtain e where "e \<in> set (cur # rest)" "te_Type e = ''ad_break''" "te_Start e \<le> at0"
      by (auto simp: break_on_air_def list_ex_iff not_less)
    moreover have "at0 < te_Start x" if "x \<in> set rest" for x
      using that wf' at(3) by (fastforce simp: wf_sched_def no_overlap_def sorted_wrt_append)
    ultimately show ?thesis by fastforce
  qed
  have airs': "airs (view d' ?c) x = (let pulled = endOf cur - at0; stop = run_end (endOf cur) rest in
      if x < at0 then airs (view d ?c) x else if x < stop - pulled then airs (view d ?c) (x + pulled)
      else if x < stop then None else airs (view d ?c) x)" for x
    using Skip_airs [OF wf' cov, of ed x] sk v'(1) unfolding es by simp
  show ?thesis using es cov brk t so ver v' res airs'
    by (intro exI [of _ pre] exI [of _ cur] exI [of _ rest]) (simp add: Let_def)
qed

lemma ceil_bounds: "((n + 89999) div 90000 - 1) * 90000 < n \<and> n \<le> (n + 89999) div 90000 * 90000" for n :: int
proof -
  define q where "q = (n + 89999) div 90000"
  define r where "r = (n + 89999) mod 90000"
  have "n + 89999 = q * 90000 + r" unfolding q_def r_def by (simp only: div_mult_mod_eq)
  moreover have "0 \<le> r" "r < 90000" unfolding r_def by simp_all
  ultimately have "(q - 1) * 90000 < n \<and> n \<le> q * 90000" by (intro conjI) (simp_all add: left_diff_distrib)
  then show ?thesis by (simp only: q_def)
qed

lemma break_seconds_ceil:
  assumes "unat ticks < 2 ^ 62"
  shows "break_seconds ticks = (int (unat ticks) + 89999) div 90000"
proof -
  have "ticks + 90000 - 1 = ticks + 89999" by simp
  moreover have "unat (ticks + 89999) = unat ticks + 89999"
    using assms by (subst unat_plus_if') simp
  ultimately have u: "unat (ticks + 90000 - 1) = unat ticks + 89999" by metis
  have "(unat ticks + 89999) div 90000 \<le> unat ticks + 89999" by (rule div_le_dividend)
  then have "(unat ticks + 89999) div 90000 < 2 ^ 63" using assms by simp
  then have "sint (word_of_nat ((unat ticks + 89999) div 90000) :: 64 word) = int ((unat ticks + 89999) div 90000)"
    using sint_word_of_int_id [of "int ((unat ticks + 89999) div 90000)"] by simp
  then show ?thesis unfolding break_seconds_def u by (simp add: zdiv_int)
qed

text \<open>C29. A SCTE-35 message of an upstream system reaches the players. Whatever form it was sent in, a decodable message that leaves the
  network and carries a duration becomes a command for an ad break of that duration, rounded up to whole seconds; the entry it
  puts into the schedule carries the message, and the marker that the engine writes for the break publishes exactly these bytes.\<close>

theorem splice_reaches_playlist:
  assumes m: "ParseSection (sc_Message inp) = Inr raw" "Decode raw = Inr sec" "sec_Insert sec = Some ins" "si_Out ins" "\<not> si_Cancel ins"
    and ticks: "0 < unat (si_DurationTicks ins)" "int (unat (si_DurationTicks ins)) \<le> maxCommandSeconds * 90000"
    and mode: "mode = ''daterange'' \<or> mode = ''both''"
  shows "\<exists>cmd ws e. scte_command txt inp = Inr (cmd, ws) \<and> inserted l cmd d = Inr e \<and> te_Type e = ''ad_break'' \<and>
    (te_DurationS e - 1) * 90000 < int (unat (si_DurationTicks ins)) \<and> int (unat (si_DurationTicks ins)) \<le> te_DurationS e * 90000 \<and>
    daterange start ''PLANNED-DURATION'' (te_DurationS e) ''SCTE35-OUT'' (Hex raw) \<in> set (startMarkers mode start (te_DurationS e) (te_SCTE35 e))"
proof -
  let ?t = "int (unat (si_DurationTicks ins))"
  define secs where "secs = (?t + 89999) div 90000"
  have bs: "break_seconds (si_DurationTicks ins) = secs"
    unfolding secs_def
  proof (rule break_seconds_ceil)
    have "maxCommandSeconds * 90000 < int (2 ^ 62)" by (simp add: maxCommandSeconds_def)
    then show "unat (si_DurationTicks ins) < 2 ^ 62" using ticks(2) by linarith
  qed
  have s: "1 \<le> secs" "secs \<le> maxCommandSeconds" "(secs - 1) * 90000 < ?t" "?t \<le> secs * 90000"
    using ticks ceil_bounds [of ?t] unfolding secs_def maxCommandSeconds_def by linarith+
  let ?cmd = "zero_command\<lparr>cm_At := sc_At inp, cm_Type := ''ad_break'', cm_Duration := secs, cm_SCTE35 := Hex raw\<rparr>"
  let ?e = "zero_entry\<lparr>te_Type := ''ad_break'', te_DurationS := secs, te_Category := ''midroll'', te_SCTE35 := Hex raw\<rparr>"
  have "raw \<noteq> []" using Decode_InrD(1) [OF m(2)] by auto
  then have g: "given_payload (Hex raw) = Hex raw" using m(2) by (simp add: given_payload_def ParseSection_Hex)
  have "\<exists>ws. scte_command txt inp = Inr (?cmd, ws)" using m s(1) by (simp add: scte_command_def bs)
  moreover have "inserted l ?cmd d = Inr ?e"
    using s(1,2) by (simp add: inserted_def command_entry_def Let_def zero_command_def zero_entry_def TrimSpace_id is_space_def)
  moreover have "daterange start ''PLANNED-DURATION'' secs ''SCTE35-OUT'' (Hex raw) \<in> set (startMarkers mode start secs (Hex raw))"
    using mode g by (auto simp: startMarkers_def Let_def Hex_def)
  ultimately show ?thesis using s(3,4) by (intro exI [of _ ?cmd] exI [of _ ?e]) auto
qed

subsection \<open>Witnesses\<close>

definition w_channel :: Channel where
  "w_channel = hd (db_channels w_db)"

definition w_env :: api_env where
  "w_env = \<lparr>ae_link = (\<lambda>_. Up), ae_now = 1767837600 * second, ae_dbnow = 1767837600 * second, ae_cueLead = 3 * second, ae_lt = (\<lambda>_ _. False),
     ae_hash = (\<lambda>x. x), ae_channel = (\<lambda>_. Inl ''''), ae_update = (\<lambda>_. Inl ''''), ae_asset = (\<lambda>_. Inl ''''), ae_replace = (\<lambda>_. Inl ''''),
     ae_command = (\<lambda>_. Inl ''''), ae_scte = (\<lambda>_. Inl ''''), ae_pg_text = (\<lambda>_. '''')\<rparr>"

definition w_cmd :: commandIn where
  "w_cmd = zero_command\<lparr>cm_Type := ''ad_break'', cm_Duration := 30\<rparr>"

definition w_skip :: commandIn where
  "w_skip = zero_command\<lparr>cm_Type := ''skip''\<rparr>"

lemma w_view: "view w_db ''c1'' = [w_slate_entry\<lparr>te_DurationS := 10\<rparr>]"
  by (simp add: view_def rows_for_def w_db_def entry_of_def row_of_def w_slate_entry_def zero_entry_def NULLIF_def COALESCE_def asset_uri_def pg_time_def)

lemma w_sched_ok: "sched_ok w_db ''c1''"
  by (simp add: sched_ok_def w_view wf_sched_def no_overlap_def entry_wf_def dur_ok_def static_ok_def w_slate_entry_def zero_entry_def Nanosecond_def)

definition w_at :: gtime where "w_at = 1767837603 * second"

lemma w_time: "command_time w_env w_cmd = Inr w_at" "command_time w_env w_skip = Inr w_at"
  by (simp_all add: w_at_def command_time_def earliest_def w_env_def w_cmd_def w_skip_def zero_command_def Nanosecond_def)

definition w_break_entry :: TimelineEntry where
  "w_break_entry = zero_entry\<lparr>te_Type := ''ad_break'', te_DurationS := 30, te_Category := ''midroll''\<rparr>"

lemma w_inserted: "inserted Up w_cmd w_db = Inr w_break_entry" "inserted Up w_skip w_db = Inr zero_entry"
  by (simp_all add: inserted_def command_entry_def w_cmd_def w_skip_def zero_command_def w_break_entry_def zero_entry_def maxCommandSeconds_def
      TrimSpace_id is_space_def)

lemmas w_edit_defs = command_edit_def InsertShift_def Skip_def CheckEntries_def schedE_def w_cmd_def w_skip_def zero_command_def w_break_entry_def
  w_slate_entry_def zero_entry_def MaxEntries_def endOf_def Nanosecond_def check_entry_def validTypes_def go_div_def

definition w_ins_edit :: Edit where
  "w_ins_edit = \<lparr>ed_From = 1767837600 * second, ed_To = 1767837640 * second, ed_Entries =
     [w_slate_entry\<lparr>te_DurationS := 3\<rparr>, w_break_entry\<lparr>te_Start := w_at\<rparr>,
      w_slate_entry\<lparr>te_Start := 1767837633 * second, te_DurationS := 7, te_OffsetS := 3\<rparr>]\<rparr>"

definition w_skip_edit :: Edit where
  "w_skip_edit = \<lparr>ed_From = 1767837600 * second, ed_To = 1767837610 * second, ed_Entries = [w_slate_entry\<lparr>te_DurationS := 3\<rparr>]\<rparr>"

lemma w_command_edit:
  "command_edit w_cmd w_at w_break_entry [w_slate_entry\<lparr>te_DurationS := 10\<rparr>] = Inr w_ins_edit"
  "command_edit w_skip w_at zero_entry [w_slate_entry\<lparr>te_DurationS := 10\<rparr>] = Inr w_skip_edit"
  by (simp_all add: w_at_def w_edit_defs w_ins_edit_def w_skip_edit_def)

lemma w_decide:
  "command_edit inp w_at ins [w_slate_entry\<lparr>te_DurationS := 10\<rparr>] = Inr ed \<Longrightarrow>
    \<exists>f. command_decide inp w_at ins \<lparr>rd_db = w_db, rd_channelID = ''c1'', rd_Version = 3\<rparr> =
      Inr \<lparr>cg_From = ed_From ed, cg_To = ed_To ed, cg_Entries = ed_Entries ed, cg_Response = Some f\<rparr>"
proof -
  assume e: "command_edit inp w_at ins [w_slate_entry\<lparr>te_DurationS := 10\<rparr>] = Inr ed"
  have "filter (\<lambda>e. w_at < endOf e) (view w_db ''c1'') = [w_slate_entry\<lparr>te_DurationS := 10\<rparr>]"
    by (simp add: w_view w_at_def w_slate_entry_def endOf_def)
  moreover have "whole w_at" by (simp add: w_at_def Nanosecond_def)
  ultimately have r: "query_range ''c1'' w_at ((if horizon ''c1'' w_db < w_at then w_at else horizon ''c1'' w_db) + second) w_db = [w_slate_entry\<lparr>te_DurationS := 10\<rparr>]"
    using store.range_from [OF w_db_ok, of "''c1''" w_at] w_sched_ok by (simp add: sched_ok_def)
  show ?thesis using e unfolding command_decide_def Let_def Horizon_def Range_def Reader.select_convs r by simp
qed

lemma w_replace:
  "\<exists>d'. replaceInTx ''c1'' (ed_From w_ins_edit) (ed_To w_ins_edit) (ed_Entries w_ins_edit) w_db = Inr (4, d')"
  "\<exists>d'. replaceInTx ''c1'' (ed_From w_skip_edit) (ed_To w_skip_edit) (ed_Entries w_skip_edit) w_db = Inr (4, d')"
  by (simp_all add: w_ins_edit_def w_skip_edit_def replaceInTx_def delete_range_def insert_entry_def raise_version_def w_slate_entry_def zero_entry_def row_of_def
      NULLIF_def pg_time_def int4_def validTypes_def refs_ok_def has_channel_def w_db_def w_break_entry_def same_key_def w_at_def)

lemma w_run:
  assumes "cm_Type inp \<in> {''ad_break'', ''skip''}" "command_time w_env inp = Inr w_at" "inserted Up inp w_db = Inr ins"
    "command_edit inp w_at ins [w_slate_entry\<lparr>te_DurationS := 10\<rparr>] = Inr ed"
    "\<exists>d'. replaceInTx ''c1'' (ed_From ed) (ed_To ed) (ed_Entries ed) w_db = Inr (4, d')"
  shows "\<exists>res d'. runCommand w_env w_channel inp '''' '''' w_db = (Inr res, d') \<and> \<not> cr_replayed res \<and> cr_EffectiveAt res = w_at"
proof -
  obtain f where dec: "command_decide inp w_at ins \<lparr>rd_db = w_db, rd_channelID = ''c1'', rd_Version = 3\<rparr> =
      Inr \<lparr>cg_From = ed_From ed, cg_To = ed_To ed, cg_Entries = ed_Entries ed, cg_Response = Some f\<rparr>"
    using w_decide [OF assms(4)] by blast
  obtain d' where rp: "replaceInTx ''c1'' (ed_From ed) (ed_To ed) (ed_Entries ed) w_db = Inr (4, d')" using assms(5) by blast
  have ch: "List.find (\<lambda>c. ch_ID c = ''c1'') (db_channels w_db) = Some w_channel" "ch_ScheduleVersion w_channel = 3" "ch_ID w_channel = ''c1''"
    by (simp_all add: w_db_def w_channel_def)
  have "edit_tx (1767837600 * second) ''c1'' None '''' '''' (command_decide inp w_at ins) w_db =
      Inr (\<lparr>ar_Version = 4, ar_Replayed = False, ar_Response = None\<rparr>, d')"
    by (simp add: edit_tx_def find_row_def mapErrE_def ch dec commit_change_def rp)
  then have "EditSchedule Up (1767837600 * second) ''c1'' None '''' '''' (command_decide inp w_at ins) w_db =
      (Inr \<lparr>ar_Version = 4, ar_Replayed = False, ar_Response = None\<rparr>, d')" by (simp add: EditSchedule_def)
  then show ?thesis using assms(1-3) by (auto simp: runCommand_def w_env_def ch command_out_def Let_def dec out_of_def)
qed

theorem command_airs_witness:
  "\<exists>res d'. runCommand w_env w_channel w_cmd '''' '''' w_db = (Inr res, d') \<and> sched_ok d' ''c1'' \<and>
    airs (view d' ''c1'') (1767837605 * second) = Some (what (resolved w_db (w_break_entry\<lparr>te_Start := w_at\<rparr>)) (1767837605 * second))"
proof -
  obtain res d' where r: "runCommand w_env w_channel w_cmd '''' '''' w_db = (Inr res, d')" "\<not> cr_replayed res" "cr_EffectiveAt res = w_at"
    using w_run [OF _ w_time(1) w_inserted(1) w_command_edit(1) w_replace(1)] by (auto simp: w_cmd_def zero_command_def)
  have ch: "ch_ID w_channel = ''c1''" "ae_link w_env 1 = Up" by (simp_all add: w_channel_def w_db_def w_env_def)
  have ty: "cm_Type w_cmd \<noteq> ''skip''" by (simp add: w_cmd_def zero_command_def)
  obtain e where "inserted (ae_link w_env 1) w_cmd w_db = Inr e" and e: "sched_ok d' ''c1''"
    "\<forall>t. airs (view d' ''c1'') t = (if t < w_at then airs (view w_db ''c1'') t
         else if t < w_at + te_DurationS e * second then Some (what (resolved w_db (e\<lparr>te_Start := w_at\<rparr>)) t)
         else airs (view w_db ''c1'') (t - te_DurationS e * second))"
    using command_airs [OF w_db_ok, of w_channel, unfolded ch(1), OF w_sched_ok r(1,2) ty] r(3) by (auto simp: Let_def)
  then have "e = w_break_entry" using w_inserted(1) ch(2) by simp
  moreover have "w_at \<le> 1767837605 * second" "1767837605 * second < w_at + te_DurationS w_break_entry * second"
    by (simp_all add: w_at_def w_break_entry_def)
  ultimately show ?thesis using r(1) e by (auto simp: not_less)
qed

theorem skip_airs_witness:
  "\<exists>res d'. runCommand w_env w_channel w_skip '''' '''' w_db = (Inr res, d') \<and> sched_ok d' ''c1'' \<and>
    airs (view d' ''c1'') (1767837605 * second) = None"
proof -
  obtain res d' where r: "runCommand w_env w_channel w_skip '''' '''' w_db = (Inr res, d')" "\<not> cr_replayed res" "cr_EffectiveAt res = w_at"
    using w_run [OF _ w_time(2) w_inserted(2) w_command_edit(2) w_replace(2)] by (auto simp: w_skip_def zero_command_def)
  have ch: "ch_ID w_channel = ''c1''" by (simp add: w_channel_def w_db_def)
  obtain pre cur rest where "view w_db ''c1'' = pre @ cur # rest" and so: "sched_ok d' ''c1''"
    and airs': "\<forall>t. airs (view d' ''c1'') t =
        (if t < w_at then airs (view w_db ''c1'') t
         else if t < run_end (endOf cur) rest - (endOf cur - w_at) then airs (view w_db ''c1'') (t + (endOf cur - w_at))
         else if t < run_end (endOf cur) rest then None
         else airs (view w_db ''c1'') t)"
    using skip_airs [OF w_db_ok, of w_channel, unfolded ch, OF w_sched_ok r(1,2)] r(3) by (auto simp: w_skip_def zero_command_def Let_def)
  then have cur: "cur = w_slate_entry\<lparr>te_DurationS := 10\<rparr>" "rest = []"
    unfolding w_view by (simp_all add: Cons_eq_append_conv)
  have "airs (view d' ''c1'') (1767837605 * second) = None"
    by (subst airs' [rule_format]) (simp add: cur endOf_def w_slate_entry_def zero_entry_def w_at_def)
  then show ?thesis using r(1) so by blast
qed

theorem splice_reaches_playlist_witness:
  "\<exists>raw cmd ws e. ParseSection (Hex raw) = Inr raw \<and>
    scte_command (\<lambda>_. '''') \<lparr>sc_Message = Hex raw, sc_At = ''''\<rparr> = Inr (cmd, ws) \<and> inserted Up cmd w_db = Inr e \<and> te_DurationS e = 30 \<and>
    daterange 0 ''PLANNED-DURATION'' 30 ''SCTE35-OUT'' (Hex raw) \<in> set (startMarkers ''both'' 0 30 (te_SCTE35 e))"
proof -
  obtain raw where raw: "0 < length raw"
    "Decode raw = Inr \<lparr>sec_PTSAdjustment = 0, sec_CommandType = CmdSpliceInsert, sec_Insert = Some w_out\<rparr>" using w_out_decodes by blast
  then have p: "ParseSection (Hex raw) = Inr raw" by (simp add: ParseSection_Hex)
  obtain cmd ws e where e: "scte_command (\<lambda>_. '''') \<lparr>sc_Message = Hex raw, sc_At = ''''\<rparr> = Inr (cmd, ws)" "inserted Up cmd w_db = Inr e"
    "(te_DurationS e - 1) * 90000 < 2700000" "2700000 \<le> te_DurationS e * 90000"
    "daterange 0 ''PLANNED-DURATION'' (te_DurationS e) ''SCTE35-OUT'' (Hex raw) \<in> set (startMarkers ''both'' 0 (te_DurationS e) (te_SCTE35 e))"
    using splice_reaches_playlist [of "\<lparr>sc_Message = Hex raw, sc_At = ''''\<rparr>" raw _ w_out "''both''" "\<lambda>_. ''''" Up w_db 0] p raw(2)
    by (auto simp: w_out_def zero_insert_def maxCommandSeconds_def)
  moreover have "te_DurationS e = 30"
  proof -
    have "(te_DurationS e - 31) * 90000 < 0" "0 \<le> (te_DurationS e - 30) * 90000" using e(3,4) by (simp_all only: left_diff_distrib)
    then have "te_DurationS e - 31 < 0" "0 \<le> te_DurationS e - 30" by (simp_all only: mult_less_0_iff zero_le_mult_iff, simp_all)
    then show ?thesis by simp
  qed
  ultimately show ?thesis using p by auto
qed

end
