(* ===== verification/ControlApi.thy ===== *)
theory ControlApi
  imports Commands
begin

text \<open>
  The routes of the control API (\<^verbatim>\<open>services/control-api/server.go\<close>, \<^verbatim>\<open>routes\<close>): every route with the scope its key needs and
  its handler, and what the whole API does to the database. \<open>serve\<close> is the answer of the router to a request of a route;
  the matching of paths is the router's (\<^verbatim>\<open>chi\<close>), as is the text of \<^verbatim>\<open>/metrics\<close>.
\<close>

subsection \<open>Routes\<close>

datatype route = Healthz | Readyz | Metrics
  | ListChannelsR | CreateChannelR | GetChannelR | UpdateChannelR | DeleteChannelR
  | GetScheduleR | ReplaceScheduleR | NowNextR | CommandR | Scte35R
  | ListAssetsR | CreateAssetR | GetAssetR | DeleteAssetR

definition route_pattern :: "route \<Rightarrow> string \<times> string" where
  "route_pattern rt =
     (case rt of
        Healthz \<Rightarrow> (''GET'', ''/healthz'')
      | Readyz \<Rightarrow> (''GET'', ''/readyz'')
      | Metrics \<Rightarrow> (''GET'', ''/metrics'')
      | ListChannelsR \<Rightarrow> (''GET'', ''/v1/channels'')
      | CreateChannelR \<Rightarrow> (''POST'', ''/v1/channels'')
      | GetChannelR \<Rightarrow> (''GET'', ''/v1/channels/{channel_id}'')
      | UpdateChannelR \<Rightarrow> (''PATCH'', ''/v1/channels/{channel_id}'')
      | DeleteChannelR \<Rightarrow> (''DELETE'', ''/v1/channels/{channel_id}'')
      | GetScheduleR \<Rightarrow> (''GET'', ''/v1/channels/{channel_id}/schedule'')
      | ReplaceScheduleR \<Rightarrow> (''POST'', ''/v1/channels/{channel_id}/schedule:replace'')
      | NowNextR \<Rightarrow> (''GET'', ''/v1/channels/{channel_id}/now-next'')
      | CommandR \<Rightarrow> (''POST'', ''/v1/channels/{channel_id}/commands'')
      | Scte35R \<Rightarrow> (''POST'', ''/v1/channels/{channel_id}/scte35'')
      | ListAssetsR \<Rightarrow> (''GET'', ''/v1/assets'')
      | CreateAssetR \<Rightarrow> (''POST'', ''/v1/assets'')
      | GetAssetR \<Rightarrow> (''GET'', ''/v1/assets/{asset_id}'')
      | DeleteAssetR \<Rightarrow> (''DELETE'', ''/v1/assets/{asset_id}''))"

text \<open>The settings of the service: hash function and keys, the texts of SCTE-35 errors, the answer of \<^verbatim>\<open>/metrics\<close>.\<close>

record service =
  sv_sha :: "string \<Rightarrow> byte list"
  sv_keys :: "Key list"
  sv_scte_text :: "scte_error \<Rightarrow> string"
  sv_metrics :: response

definition serve :: "service \<Rightarrow> api_env \<Rightarrow> route \<Rightarrow> db handler" where
  "serve sv v rt =
     (let req = Require (sv_sha sv) (sv_keys sv);
          read = req Read (Some channelParam);
          readAll = req Read None;
          sched = req Schedule (Some channelParam);
          cmd = req Command (Some channelParam);
          admin = req Admin None
      in case rt of
        Healthz \<Rightarrow> (\<lambda>_ _ d. (WriteHeader 200, d))
      | Readyz \<Rightarrow> readyz v
      | Metrics \<Rightarrow> (\<lambda>_ _ d. (sv_metrics sv, d))
      | ListChannelsR \<Rightarrow> readAll (listChannels v)
      | CreateChannelR \<Rightarrow> admin (createChannel v)
      | GetChannelR \<Rightarrow> read (getChannel v)
      | UpdateChannelR \<Rightarrow> admin (updateChannel v)
      | DeleteChannelR \<Rightarrow> admin (deleteChannel v)
      | GetScheduleR \<Rightarrow> read (getSchedule v)
      | ReplaceScheduleR \<Rightarrow> sched (replaceSchedule v)
      | NowNextR \<Rightarrow> read (nowNext v)
      | CommandR \<Rightarrow> cmd (command v)
      | Scte35R \<Rightarrow> cmd (scte35 (sv_scte_text sv) v)
      | ListAssetsR \<Rightarrow> readAll (listAssets v)
      | CreateAssetR \<Rightarrow> admin (createAsset v)
      | GetAssetR \<Rightarrow> readAll (getAsset v)
      | DeleteAssetR \<Rightarrow> admin (deleteAsset v))"

subsection \<open>What a handler does to the database\<close>

text \<open>The change that a handler makes is one operation of the store, on the channel of the request.\<close>

definition edit_valid :: "(Reader \<Rightarrow> store_error + Change) \<Rightarrow> bool" where
  "edit_valid dec \<longleftrightarrow> (\<forall>rd ch. dec rd = Inr ch \<longrightarrow> (\<forall>e \<in> set (cg_Entries ch). static_ok e))"

definition effect :: "db \<Rightarrow> response \<times> db \<Rightarrow> (store_op \<Rightarrow> bool) \<Rightarrow> bool" where
  "effect d r P \<longleftrightarrow> snd r = d \<or> (\<exists>l op. snd r = exec (l, op) d \<and> P op)"

lemma effect_same [intro, simp]: "effect d (rs, d) P"
  by (simp add: effect_def)

lemma effect_orFail: "(\<And>x. r = Inr x \<Longrightarrow> effect d (k x) P) \<Longrightarrow> effect d (orFail r k d) P"
  by (cases r) (auto simp: orFail_def)

lemma effect_orFailApi: "(\<And>x. r = Inr x \<Longrightarrow> effect d (k x) P) \<Longrightarrow> effect d (orFailApi r k d) P"
  by (cases r) (auto simp: orFailApi_def)

lemma effect_orFailDb:
  "snd r = exec (l, op) d \<Longrightarrow> P op \<Longrightarrow> (\<And>x d'. snd (k x d') = d') \<Longrightarrow> effect d (orFailDb r k) P"
  by (cases r; cases "fst r") (auto simp: orFailDb_def effect_def)

lemma effect_InsertChannel: "P (OpInsertChannel c) \<Longrightarrow> (\<And>x d'. snd (k x d') = d') \<Longrightarrow> effect d (orFailDb (InsertChannelChecked l c d) k) P"
  by (rule effect_orFailDb [OF exec.simps(2) [symmetric]])

lemma effect_UpdateChannel: "P (OpUpdateChannel i n lad) \<Longrightarrow> (\<And>x d'. snd (k x d') = d') \<Longrightarrow> effect d (orFailDb (UpdateChannel l i n lad d) k) P"
  by (rule effect_orFailDb [OF exec.simps(3) [symmetric]])

lemma effect_DeleteChannel: "P (OpDeleteChannel i) \<Longrightarrow> (\<And>x d'. snd (k x d') = d') \<Longrightarrow> effect d (orFailDb (DeleteChannel l i d) k) P"
  by (rule effect_orFailDb [OF exec.simps(4) [symmetric]])

lemma effect_InsertAsset: "P (OpInsertAsset a) \<Longrightarrow> (\<And>x d'. snd (k x d') = d') \<Longrightarrow> effect d (orFailDb (InsertAssetChecked l a d) k) P"
  by (rule effect_orFailDb [OF exec.simps(1) [symmetric]])

lemma effect_DeleteAsset: "P (OpDeleteAsset i) \<Longrightarrow> (\<And>x d'. snd (k x d') = d') \<Longrightarrow> effect d (orFailDb (DeleteAsset l i d) k) P"
  by (rule effect_orFailDb [OF exec.simps(5) [symmetric]])

lemma snd_orFail: "(\<And>x. snd (k x) = d) \<Longrightarrow> snd (orFail r k d) = d"
  by (cases r) (auto simp: orFail_def)

lemma effect_createChannel:
  "effect d (createChannel v ctx r d) (\<lambda>op. \<exists>c. op = OpInsertChannel c \<and> validID (ch_ID c) \<and> TrimSpace (ch_Name c) \<noteq> '''' \<and> ch_SegmentSec c = SegmentSec)"
  unfolding createChannel_def
  by (rule effect_orFailApi) (auto simp: Let_def intro!: effect_InsertChannel snd_orFail)

lemma effect_updateChannel:
  "effect d (updateChannel v ctx r d) (\<lambda>op. \<exists>n lad. op = OpUpdateChannel (channelParam r) n lad \<and> (\<forall>x. n = Some x \<longrightarrow> TrimSpace x \<noteq> ''''))"
  unfolding updateChannel_def
  by (rule effect_orFailApi) (auto split: option.split intro!: effect_UpdateChannel)

lemma effect_deleteChannel: "effect d (deleteChannel v ctx r d) (\<lambda>op. op = OpDeleteChannel (channelParam r))"
  unfolding deleteChannel_def by (rule effect_DeleteChannel) auto

lemma effect_createAsset:
  "effect d (createAsset v ctx r d) (\<lambda>op. \<exists>a. op = OpInsertAsset a \<and> 5 \<le> length (as_URI a) \<and> 1 \<le> as_DurationS a \<and> as_ID a \<noteq> '''')"
  unfolding createAsset_def
  by (rule effect_orFailApi) (auto simp: Let_def intro!: effect_InsertAsset)

lemma effect_deleteAsset: "effect d (deleteAsset v ctx r d) (\<lambda>op. op = OpDeleteAsset (rq_param r ''asset_id''))"
  unfolding deleteAsset_def by (rule effect_DeleteAsset) auto

definition on_channel :: "string \<Rightarrow> store_op \<Rightarrow> bool" where
  "on_channel c op \<longleftrightarrow> (\<exists>now im k h dec. op = OpEdit now c im k h dec \<and> edit_valid dec)"

lemma GetChannelChecked_ID: "GetChannelChecked l c d = Inr ch \<Longrightarrow> ch_ID ch = c"
  by (auto simp: GetChannelChecked_def GetChannel_def mapErrE_def ask_def find_row_def find_Some_iff split: sum.splits if_splits option.splits)

lemma effect_edit:
  "snd r = snd (EditSchedule l now c im k h dec d) \<Longrightarrow> edit_valid dec \<Longrightarrow> (\<And>x d'. snd (f x d') = d') \<Longrightarrow> effect d (orFailDb r f) (on_channel c)"
  by (rule effect_orFailDb [where op = "OpEdit now c im k h dec"]) (auto simp: on_channel_def)

lemma Validate_valid: "Validate es t1 t2 = Inr out \<Longrightarrow> \<forall>e \<in> set out. static_ok e"
  by (auto simp: Validate_def CheckEntries_Inr entry_ok_def split: if_splits)

lemma effect_replaceSchedule: "effect d (replaceSchedule v ctx r d) (on_channel (channelParam r))"
  unfolding replaceSchedule_def
proof (rule effect_orFail, rule effect_orFailApi, clarsimp, rule effect_orFailApi, rule effect_orFailApi, rule effect_orFailApi, rule effect_orFail, goal_cases)
  case (1 ch body inp im key es bad)
  have "ch_ID ch = channelParam r" by (rule GetChannelChecked_ID [OF 1(1)])
  moreover have "\<forall>e \<in> set es. static_ok e" using 1(5) by (auto split: sum.splits dest: Validate_valid)
  ultimately show ?case
    by (auto simp: edit_valid_def ApplySchedule_def intro!: effect_edit)
qed

lemma command_decide_valid: "edit_valid (command_decide inp at0 ins)"
  by (auto simp: edit_valid_def command_decide_def Let_def bindE_Inr_iff dest!: command_edit_InrD(3) simp: entry_ok_def)

lemma effect_runCommand:
  assumes "\<And>x d'. snd (f x d') = d'"
  shows "effect d (orFailCmd (runCommand v ch inp key hash d) f) (on_channel (ch_ID ch))"
proof -
  have "snd (runCommand v ch inp key hash d) = d \<or> (\<exists>l op. snd (runCommand v ch inp key hash d) = exec (l, op) d \<and> on_channel (ch_ID ch) op)"
  proof (cases "cm_Type inp \<in> {''ad_break'', ''slate'', ''insert'', ''skip''} \<and> (\<exists>at0 ins. command_time v inp = Inr at0 \<and> inserted (ae_link v 1) inp d = Inr ins)")
    case True
    then obtain at0 ins where i: "cm_Type inp \<in> {''ad_break'', ''slate'', ''insert'', ''skip''}" "command_time v inp = Inr at0" "inserted (ae_link v 1) inp d = Inr ins" by blast
    let ?op = "OpEdit (ae_dbnow v) (ch_ID ch) None key hash (command_decide inp at0 ins)"
    have "snd (runCommand v ch inp key hash d) = exec (ae_link v 2, ?op) d"
      using i by (auto simp: runCommand_def split: prod.split sum.split)
    moreover have "on_channel (ch_ID ch) ?op" using command_decide_valid by (auto simp: on_channel_def)
    ultimately show ?thesis by blast
  next
    case False
    then show ?thesis by (auto simp: runCommand_def split: sum.split)
  qed
  then show ?thesis using assms by (cases "runCommand v ch inp key hash d"; cases "fst (runCommand v ch inp key hash d)") (auto simp: effect_def orFailCmd_def)
qed

lemma effect_command: "effect d (command v ctx r d) (on_channel (channelParam r))"
  unfolding command_def
proof (rule effect_orFail, rule effect_orFailApi, clarsimp, rule effect_orFailApi, goal_cases)
  case (1 ch body inp key)
  show ?case using effect_runCommand unfolding GetChannelChecked_ID [OF 1(1), symmetric] by auto
qed

lemma effect_scte35: "effect d (scte35 txt v ctx r d) (on_channel (channelParam r))"
  unfolding scte35_def
proof (rule effect_orFail, rule effect_orFailApi, clarsimp, rule effect_orFailApi, rule effect_orFailApi, clarsimp, goal_cases)
  case (1 ch body inp key cmd ws)
  show ?case using effect_runCommand unfolding GetChannelChecked_ID [OF 1(1), symmetric] by auto
qed


subsection \<open>What a request may change\<close>

definition allowed :: "route \<Rightarrow> request \<Rightarrow> store_op \<Rightarrow> bool" where
  "allowed rt r op =
     (case rt of
        CreateChannelR \<Rightarrow> (\<exists>c. op = OpInsertChannel c \<and> validID (ch_ID c) \<and> TrimSpace (ch_Name c) \<noteq> '''' \<and> ch_SegmentSec c = SegmentSec)
      | UpdateChannelR \<Rightarrow> (\<exists>n lad. op = OpUpdateChannel (channelParam r) n lad \<and> (\<forall>x. n = Some x \<longrightarrow> TrimSpace x \<noteq> ''''))
      | DeleteChannelR \<Rightarrow> op = OpDeleteChannel (channelParam r)
      | CreateAssetR \<Rightarrow> (\<exists>a. op = OpInsertAsset a \<and> 5 \<le> length (as_URI a) \<and> 1 \<le> as_DurationS a \<and> as_ID a \<noteq> '''')
      | DeleteAssetR \<Rightarrow> op = OpDeleteAsset (rq_param r ''asset_id'')
      | ReplaceScheduleR \<Rightarrow> on_channel (channelParam r) op
      | CommandR \<Rightarrow> on_channel (channelParam r) op
      | Scte35R \<Rightarrow> on_channel (channelParam r) op
      | _ \<Rightarrow> False)"

definition needs :: "route \<Rightarrow> Scope" where
  "needs rt = (case rt of ReplaceScheduleR \<Rightarrow> Schedule | CommandR \<Rightarrow> Command | Scte35R \<Rightarrow> Command
     | CreateChannelR \<Rightarrow> Admin | UpdateChannelR \<Rightarrow> Admin | DeleteChannelR \<Rightarrow> Admin | CreateAssetR \<Rightarrow> Admin | DeleteAssetR \<Rightarrow> Admin | _ \<Rightarrow> Read)"

text \<open>The routes that only read.\<close>

lemma reads_only:
  "snd (listChannels v ctx r d) = d" "snd (getChannel v ctx r d) = d" "snd (getSchedule v ctx r d) = d" "snd (nowNext v ctx r d) = d"
  "snd (listAssets v ctx r d) = d" "snd (getAsset v ctx r d) = d" "snd (readyz v ctx r d) = d"
  by (auto simp: listChannels_def getChannel_def getSchedule_def nowNext_def listAssets_def getAsset_def readyz_def orFail_def orFailApi_def Let_def
      split: sum.split prod.split)

lemma Require_effect:
  assumes "\<And>k. effect d (h (Some k) r d) P"
  shows "effect d (Require sha ks s c h ctx r d) (\<lambda>op. P op \<and> (\<exists>k. Find sha ks (secretOf r) = Some k \<and>
    Allows k s (case c of None \<Rightarrow> '''' | Some f \<Rightarrow> f r)))"
proof (cases "Find sha ks (secretOf r)")
  case (Some k)
  then show ?thesis using assms [of k] by (auto simp: Require_def Let_def effect_def)
qed (simp add: Require_def)

lemma effect_mono: "effect d r P \<Longrightarrow> (\<And>op. P op \<Longrightarrow> Q op) \<Longrightarrow> effect d r Q"
  by (auto simp: effect_def)

lemma effect_read: "snd r = d \<Longrightarrow> effect d r P"
  by (simp add: effect_def)

lemma serve_effect:
  "effect d (serve sv v rt ctx r d) (\<lambda>op. allowed rt r op \<and> (\<exists>k. Find (sv_sha sv) (sv_keys sv) (secretOf r) = Some k \<and>
     Allows k (needs rt) (if rt \<in> {ReplaceScheduleR, CommandR, Scte35R} then channelParam r else '''')))"
proof -
  note reads = effect_read [OF reads_only(1)] effect_read [OF reads_only(2)] effect_read [OF reads_only(3)] effect_read [OF reads_only(4)]
    effect_read [OF reads_only(5)] effect_read [OF reads_only(6)]
  note rd = Require_effect [OF reads(1), where P = "\<lambda>_. False"] Require_effect [OF reads(2), where P = "\<lambda>_. False"]
    Require_effect [OF reads(3), where P = "\<lambda>_. False"] Require_effect [OF reads(4), where P = "\<lambda>_. False"]
    Require_effect [OF reads(5), where P = "\<lambda>_. False"] Require_effect [OF reads(6), where P = "\<lambda>_. False"]
  note wr = Require_effect [OF effect_createChannel] Require_effect [OF effect_updateChannel] Require_effect [OF effect_deleteChannel]
    Require_effect [OF effect_createAsset] Require_effect [OF effect_deleteAsset] Require_effect [OF effect_replaceSchedule]
    Require_effect [OF effect_command] Require_effect [OF effect_scte35]
  show ?thesis
    unfolding serve_def Let_def
    by (cases rt) (use reads_only(7) in \<open>auto simp: allowed_def needs_def intro: effect_mono [OF rd(1)] effect_mono [OF rd(2)] effect_mono [OF rd(3)]
      effect_mono [OF rd(4)] effect_mono [OF rd(5)] effect_mono [OF rd(6)] effect_mono [OF wr(1)] effect_mono [OF wr(2)] effect_mono [OF wr(3)]
      effect_mono [OF wr(4)] effect_mono [OF wr(5)] effect_mono [OF wr(6)] effect_mono [OF wr(7)] effect_mono [OF wr(8)] effect_read\<close>)
qed

subsection \<open>Keys confine requests\<close>

text \<open>Everything but the schedule, the version and the stored answers of one channel.\<close>

definition elsewhere :: "string \<Rightarrow> db \<Rightarrow> Channel list \<times> Asset list \<times> timeline_row list" where
  "elsewhere c d = (filter (\<lambda>x. ch_ID x \<noteq> c) (db_channels d), db_assets d, filter (\<lambda>r. tr_channel r \<noteq> c) (db_timeline d))"

lemma raise_version_elsewhere: "raise_version c d = Inr (v, d') \<Longrightarrow> elsewhere c d' = elsewhere c d"
proof -
  have "filter (\<lambda>x. ch_ID x \<noteq> c) (map (\<lambda>x. if ch_ID x = c then x\<lparr>ch_ScheduleVersion := n x\<rparr> else x) xs) = filter (\<lambda>x. ch_ID x \<noteq> c) xs" for xs n
    by (induction xs) auto
  then show "raise_version c d = Inr (v, d') \<Longrightarrow> elsewhere c d' = elsewhere c d"
    by (auto simp: raise_version_def elsewhere_def split: option.splits)
qed

lemma replaceInTx_elsewhere: "replaceInTx c t1 t2 es d = Inr (v, d') \<Longrightarrow> elsewhere c d' = elsewhere c d"
proof -
  assume "replaceInTx c t1 t2 es d = Inr (v, d')"
  then obtain d1 where d1: "batch (insert_entry c) es (delete_range c t1 t2 d) = Inr d1" "raise_version c d1 = Inr (v, d')"
    by (auto simp: replaceInTx_def bindE_Inr_iff)
  have "elsewhere c d1 = elsewhere c d"
    using batch_frame [OF d1(1)] by (auto simp: elsewhere_def delete_range_def intro!: filter_cong)
  then show ?thesis using raise_version_elsewhere [OF d1(2)] by simp
qed

lemma edit_elsewhere: "elsewhere c (snd (EditSchedule l now c im k h dec d)) = elsewhere c d"
proof (rule EditSchedule_db [of l now c im k h dec d])
  fix r d' assume tx: "edit_tx now c im k h dec d = Inr (r, d')" and s: "snd (EditSchedule l now c im k h dec d) = d'"
  have "elsewhere c d' = elsewhere c d"
    using tx
  proof (cases rule: edit_tx_cases)
    case (commit v ch d1)
    then show ?thesis using replaceInTx_elsewhere [OF commit(6)] by (auto simp: elsewhere_def store_answer_def Let_def)
  qed simp
  then show ?thesis using s by simp
qed simp


subsection \<open>The data of the API\<close>

definition row_valid :: "timeline_row \<Rightarrow> bool" where
  "row_valid r \<longleftrightarrow> (tr_type r \<in> {''content'', ''bumper''} \<longrightarrow> tr_asset r \<noteq> None \<or> tr_uri r \<noteq> None) \<and>
     (tr_type r = ''ad_break'' \<longrightarrow> tr_asset r = None \<and> tr_uri r = None) \<and> 0 < tr_duration r \<and> 0 \<le> tr_offset r \<and> whole (tr_start r)"

definition channel_valid :: "Channel \<Rightarrow> bool" where
  "channel_valid c \<longleftrightarrow> validID (ch_ID c) \<and> TrimSpace (ch_Name c) \<noteq> '''' \<and> ch_SegmentSec c = SegmentSec \<and> 0 \<le> ch_ScheduleVersion c"

definition asset_valid :: "Asset \<Rightarrow> bool" where
  "asset_valid a \<longleftrightarrow> as_ID a \<noteq> '''' \<and> 5 \<le> length (as_URI a) \<and> 1 \<le> as_DurationS a"

definition api_data :: "db \<Rightarrow> bool" where
  "api_data d \<longleftrightarrow> db_ok d \<and> (\<forall>c \<in> set (db_channels d). channel_valid c) \<and> (\<forall>a \<in> set (db_assets d). asset_valid a) \<and> (\<forall>r \<in> set (db_timeline d). row_valid r)"

lemma row_valid_of: "static_ok e \<Longrightarrow> row_valid (row_of c e)"
  by (auto simp: static_ok_def row_valid_def pg_time_whole) (auto simp: row_of_def NULLIF_def)

lemma static_row: "db_ok d \<Longrightarrow> r \<in> set (db_timeline d) \<Longrightarrow> row_valid r \<Longrightarrow> static_ok (entry_of d r)"
  by (auto simp: db_ok_alt row_ok_def row_valid_def static_ok_def entry_of_def validTypes_def COALESCE_def asset_uri_def split: option.splits)

lemma api_data_view: "api_data d \<Longrightarrow> e \<in> set (view d c) \<Longrightarrow> static_ok e"
  by (auto simp: api_data_def view_def rows_for_in static_row)

lemma api_data_frame:
  assumes "api_data d" "db_ok d'" "set (db_timeline d') \<subseteq> set (db_timeline d) \<union> Collect row_valid" "set (db_assets d') \<subseteq> set (db_assets d) \<union> Collect asset_valid"
    "set (db_channels d') \<subseteq> set (db_channels d) \<union> Collect channel_valid"
  shows "api_data d'"
  using assms by (auto simp: api_data_def)

lemma raise_version_valid:
  "raise_version c d = Inr (v, d') \<Longrightarrow> \<forall>x \<in> set (db_channels d). channel_valid x \<Longrightarrow> \<forall>x \<in> set (db_channels d'). channel_valid x"
  by (auto simp: raise_version_def channel_valid_def split: option.splits)

lemma edit_api_data:
  assumes ok: "api_data d" and dec: "edit_valid dec"
  shows "api_data (snd (EditSchedule l now c im k h dec d))"
proof (rule EditSchedule_db [of l now c im k h dec d])
  fix r d' assume tx: "edit_tx now c im k h dec d = Inr (r, d')" and s: "snd (EditSchedule l now c im k h dec d) = d'"
  have d: "db_ok d" using ok by (simp add: api_data_def)
  have ok': "db_ok d'" by (rule edit_tx_ok [OF tx d])
  have "api_data d'"
    using tx
  proof (cases rule: edit_tx_cases)
    case replay
    then show ?thesis using ok by simp
  next
    case (commit v ch d1)
    note rp = commit(6)
    have rows: "\<forall>x \<in> set (map (row_of c) (cg_Entries ch)). row_valid x" using commit(5) dec by (auto simp: edit_valid_def row_valid_of)
    obtain d0 where d0: "batch (insert_entry c) (cg_Entries ch) (delete_range c (cg_From ch) (cg_To ch) d) = Inr d0" "raise_version c d0 = Inr (v + 1, d1)"
      using rp by (auto simp: replaceInTx_def bindE_Inr_iff)
    have "\<forall>x \<in> set (db_channels d1). channel_valid x"
      using raise_version_valid [OF d0(2)] batch_frame(1) [OF d0(1)] ok by (simp add: delete_range_def api_data_def)
    then have "\<forall>x \<in> set (db_channels d'). channel_valid x" "db_assets d' = db_assets d"
      "db_timeline d' = db_timeline (delete_range c (cg_From ch) (cg_To ch) d) @ map (row_of c) (cg_Entries ch)"
      using commit replaceInTx_frame [OF rp] by (auto simp: store_answer_def Let_def split: if_splits)
    then show ?thesis using rows ok ok' by (intro api_data_frame [OF ok ok']) (auto simp: delete_range_def)
  qed
  then show "api_data (snd (EditSchedule l now c im k h dec d))" using s by simp
qed (use ok in simp)

lemma insert_channel_data:
  "api_data d \<Longrightarrow> validID (ch_ID c) \<Longrightarrow> TrimSpace (ch_Name c) \<noteq> '''' \<Longrightarrow> ch_SegmentSec c = SegmentSec \<Longrightarrow> insert_channel c d = Inr (u, d') \<Longrightarrow> api_data d'"
  using insert_channel_ok [of c d u d']
  by (auto simp: insert_channel_def api_data_def channel_valid_def split: if_splits)

lemma insert_asset_data:
  "api_data d \<Longrightarrow> asset_valid a \<Longrightarrow> insert_asset a d = Inr (u, d') \<Longrightarrow> api_data d'"
  using insert_asset_ok [of a d u d'] by (auto simp: insert_asset_def api_data_def asset_valid_def split: if_splits)

lemma update_channel_data:
  "api_data d \<Longrightarrow> \<forall>x. n = Some x \<longrightarrow> TrimSpace x \<noteq> '''' \<Longrightarrow> update_channel i n lad d = Inr (c, d') \<Longrightarrow> api_data d'"
  using update_channel_ok [of i n lad d c d']
  by (auto simp: update_channel_def Let_def api_data_def channel_valid_def COALESCE_def split: option.splits if_splits)

lemma delete_channel_data: "api_data d \<Longrightarrow> delete_channel i d = Inr (u, d') \<Longrightarrow> api_data d'"
  using delete_channel_ok [of i d u d'] by (auto simp: delete_channel_def Let_def api_data_def split: if_splits)

lemma delete_asset_data: "api_data d \<Longrightarrow> delete_asset i d = Inr (u, d') \<Longrightarrow> api_data d'"
  using delete_asset_ok [of i d u d'] by (auto simp: delete_asset_def api_data_def split: if_splits)

lemma change_data: "api_data d \<Longrightarrow> (\<And>x d'. r = Inr (x, d') \<Longrightarrow> api_data d') \<Longrightarrow> api_data (snd (change l f lost r d))"
  by (rule change_cases [of l f lost r d]) auto

lemma serve_data: "api_data d \<Longrightarrow> api_data (snd (serve sv v rt ctx r d))"
proof -
  assume ok: "api_data d"
  have "snd (serve sv v rt ctx r d) = d \<or> (\<exists>l op. snd (serve sv v rt ctx r d) = exec (l, op) d \<and> allowed rt r op)"
    using serve_effect [of d sv v rt ctx r] by (auto simp: effect_def)
  moreover have "api_data (exec (l, op) d)" if op: "allowed rt r op" for l op
  proof -
    note ch = change_data [OF ok]
    have "api_data (exec (l, OpInsertChannel c) d)" if "validID (ch_ID c)" "TrimSpace (ch_Name c) \<noteq> ''''" "ch_SegmentSec c = SegmentSec" for c
      using that by (auto simp: InsertChannelChecked_def InsertChannel_def Let_def intro!: ch elim!: insert_channel_data [OF ok, rotated 3])
    moreover have "api_data (exec (l, OpInsertAsset a) d)" if "5 \<le> length (as_URI a)" "1 \<le> as_DurationS a" "as_ID a \<noteq> ''''" for a
      using that by (auto simp: InsertAssetChecked_def InsertAsset_def Let_def asset_valid_def intro!: ch elim!: insert_asset_data [OF ok, rotated 1])
    moreover have "api_data (exec (l, OpUpdateChannel i n lad) d)" if "\<forall>x. n = Some x \<longrightarrow> TrimSpace x \<noteq> ''''" for i n lad
      by (auto simp: UpdateChannel_def intro!: ch elim!: update_channel_data [OF ok that])
    moreover have "api_data (exec (l, OpDeleteChannel i) d)" for i
      by (auto simp: DeleteChannel_def intro!: ch elim!: delete_channel_data [OF ok])
    moreover have "api_data (exec (l, OpDeleteAsset i) d)" for i
      by (auto simp: DeleteAsset_def intro!: ch elim!: delete_asset_data [OF ok])
    moreover have "api_data (exec (l, OpEdit now c im k h dec) d)" if "edit_valid dec" for now c im k h dec
      using edit_api_data [OF ok that] by simp
    ultimately show ?thesis using op by (cases rt) (auto simp: allowed_def on_channel_def)
  qed
  ultimately show ?thesis using ok by auto
qed

text \<open>C36. Whatever requests come in, in any order, with connections that fail at any point, the stored data keeps its types: keys are
  unique and references exist, every channel has a valid id, a name and segments of one second, every asset a duration, and every
  entry of every schedule is one that \<^verbatim>\<open>CheckEntries\<close> accepts by itself: a known type, an asset where the type needs one and none
  where it must not, a positive duration, and a start at a whole second.\<close>

theorem stored_data_valid:
  "let d = fold (\<lambda>(v, rt, r) d. snd (serve sv v rt None r d)) reqs empty_db in
   db_ok d \<and> list_all channel_valid (db_channels d) \<and> list_all asset_valid (db_assets d) \<and> (\<forall>c. list_all static_ok (view d c))"
proof -
  have "api_data d \<Longrightarrow> api_data (fold (\<lambda>(v, rt, r) d. snd (serve sv v rt None r d)) reqs d)" for d
    by (induction reqs arbitrary: d) (auto intro: serve_data)
  moreover have "api_data empty_db" by (simp add: api_data_def empty_ok) (simp add: empty_db_def)
  ultimately have "api_data (fold (\<lambda>(v, rt, r) d. snd (serve sv v rt None r d)) reqs empty_db)" by blast
  then show ?thesis using api_data_view by (simp add: api_data_def Let_def list_all_iff)
qed

subsection \<open>Pages\<close>

text \<open>A client that reads a list page by page: it asks for \<open>limit\<close> items after the cursor until there is no next cursor; it gives up
  after \<open>n\<close> pages.\<close>

definition page_request :: "int \<Rightarrow> string \<Rightarrow> request" where
  "page_request limit cur = \<lparr>rq_header = (\<lambda>_. ''''), rq_query = (\<lambda>name. if name = ''limit'' then itoa limit else if name = ''cursor'' then cur else ''''),
     rq_param = (\<lambda>_. ''''), rq_body = Some ''''\<rparr>"

definition page_of :: "response \<Rightarrow> (json list \<times> string) option" where
  "page_of rs = (case rs_body rs of JsonBody (JObj [(_, JList items), (_, JStr next)]) \<Rightarrow> Some (items, next) | _ \<Rightarrow> None)"

fun follow :: "db handler \<Rightarrow> Key option \<Rightarrow> int \<Rightarrow> db \<Rightarrow> nat \<Rightarrow> string \<Rightarrow> (json list) option" where
  "follow h ctx limit d 0 cur = None"
| "follow h ctx limit d (Suc n) cur =
     (case page_of (fst (h ctx (page_request limit cur) d)) of
        None \<Rightarrow> None
      | Some (items, next) \<Rightarrow> if next = '''' then Some items else map_option (\<lambda>rest. items @ rest) (follow h ctx limit d n next))"

text \<open>The collation of the database: a strict linear order with the empty string first.\<close>

definition collation :: "(string \<Rightarrow> string \<Rightarrow> bool) \<Rightarrow> bool" where
  "collation lt \<longleftrightarrow> (\<forall>x. \<not> lt x x) \<and> (\<forall>x y z. lt x y \<longrightarrow> lt y z \<longrightarrow> lt x z) \<and> (\<forall>x y. lt x y \<or> x = y \<or> lt y x) \<and> (\<forall>x. x \<noteq> '''' \<longrightarrow> lt '''' x)"

lemma order_by_Cons: "order_by lt f (x # xs) = takeWhile (\<lambda>y. lt (f y) (f x)) (order_by lt f xs) @ x # dropWhile (\<lambda>y. lt (f y) (f x)) (order_by lt f xs)"
  by (simp add: order_by_def)

lemma order_by_Nil [simp]: "order_by lt f [] = []"
  by (simp add: order_by_def)

lemma order_by_mset: "mset (order_by lt f xs) = mset xs"
proof (induction xs)
  case (Cons x xs)
  have "mset (takeWhile P ys) + mset (dropWhile P ys) = mset ys" for P and ys :: "'a list"
    by (metis mset_append takeWhile_dropWhile_id)
  then show ?case using Cons by (simp add: order_by_Cons)
qed simp

lemma order_by_set [simp]: "set (order_by lt f xs) = set xs"
  by (metis order_by_mset set_mset_mset)

lemma order_by_length [simp]: "length (order_by lt f xs) = length xs"
  by (metis order_by_mset size_mset)

lemma order_by_sorted:
  assumes "collation lt" "distinct (map f xs)"
  shows "sorted_wrt (\<lambda>x y. lt (f x) (f y)) (order_by lt f xs)"
  using assms(2)
proof (induction xs)
  case (Cons x xs)
  let ?ys = "order_by lt f xs" let ?P = "\<lambda>y. lt (f y) (f x)"
  have s: "sorted_wrt (\<lambda>x y. lt (f x) (f y)) (takeWhile ?P ?ys @ dropWhile ?P ?ys)" using Cons by simp
  have new: "\<forall>w \<in> set xs. f w \<noteq> f x" using Cons.prems by (auto, metis imageI)
  have gt: "lt (f x) (f y)" if y: "y \<in> set (dropWhile ?P ?ys)" for y
  proof (cases "dropWhile ?P ?ys")
    case (Cons z zs)
    then have "\<not> ?P z" using hd_dropWhile [of ?P ?ys] by simp
    moreover note new
    moreover have "z \<in> set ?ys" "y \<in> set ?ys" using Cons y set_dropWhileD [of _ ?P ?ys] by auto
    ultimately have "lt (f x) (f z)" using assms(1) unfolding collation_def by (metis order_by_set)
    moreover have "y = z \<or> lt (f z) (f y)" using s y Cons by (auto simp: sorted_wrt_append)
    ultimately show ?thesis using assms(1) unfolding collation_def by metis
  next
    case Nil
    then show ?thesis using y by (metis empty_iff list.set(1))
  qed
  have lt: "lt (f y) (f x)" if "y \<in> set (takeWhile ?P ?ys)" for y using that set_takeWhileD by fastforce
  define T D where "T = takeWhile ?P ?ys" and "D = dropWhile ?P ?ys"
  have "sorted_wrt (\<lambda>x y. lt (f x) (f y)) T" "sorted_wrt (\<lambda>x y. lt (f x) (f y)) D" "\<forall>a \<in> set T. \<forall>b \<in> set D. lt (f a) (f b)"
    using s unfolding T_def [symmetric] D_def [symmetric] by (auto simp only: sorted_wrt_append)
  then show ?case using gt lt unfolding order_by_Cons T_def [symmetric] D_def [symmetric] by (auto simp: sorted_wrt_append)
qed simp

lemma strictly_sorted_unique:
  assumes irr: "\<forall>x. \<not> R x x" and tr: "\<forall>x y z. R x y \<longrightarrow> R y z \<longrightarrow> R x z"
  shows "sorted_wrt R xs \<Longrightarrow> sorted_wrt R ys \<Longrightarrow> set xs = set ys \<Longrightarrow> xs = ys"
proof (induction xs arbitrary: ys)
  case (Cons x xs)
  then obtain y ys' where ys: "ys = y # ys'" by (cases ys) auto
  have "x = y"
  proof (rule ccontr)
    assume "x \<noteq> y"
    moreover have "x \<in> set (y # ys')" "y \<in> set (x # xs)" using Cons.prems(3) ys by auto
    ultimately have "x \<in> set ys'" "y \<in> set xs" by auto
    then have "R y x" "R x y" using Cons.prems(1,2) ys by auto
    then show False using irr tr by blast
  qed
  moreover have "x \<notin> set xs" "y \<notin> set ys'" using Cons.prems(1,2) ys irr by auto
  ultimately have "set xs = set ys'" using Cons.prems(3) ys by auto
  then show ?case using Cons.IH [of ys'] Cons.prems(1,2) ys \<open>x = y\<close> by simp
qed simp

text \<open>What is behind a cursor; the rest of a page is what is behind its last item.\<close>

definition behind :: "(string \<Rightarrow> string \<Rightarrow> bool) \<Rightarrow> ('a \<Rightarrow> string) \<Rightarrow> 'a list \<Rightarrow> string \<Rightarrow> 'a list" where
  "behind lt f xs cur = order_by lt f (filter (\<lambda>x. lt cur (f x)) xs)"

lemma behind_rest:
  assumes lt: "collation lt" and dist: "distinct (map f xs)" and n: "n < length (behind lt f xs cur)"
  shows "behind lt f xs (f (behind lt f xs cur ! n)) = drop (Suc n) (behind lt f xs cur)"
proof -
  let ?R = "\<lambda>x y. lt (f x) (f y)" let ?b = "behind lt f xs cur" let ?c = "f (?b ! n)"
  have tr: "\<And>x y z. lt x y \<Longrightarrow> lt y z \<Longrightarrow> lt x z" and irr: "\<And>x. \<not> lt x x" using lt unfolding collation_def by blast+
  have sorted: "sorted_wrt ?R (behind lt f xs c)" for c
    unfolding behind_def by (rule order_by_sorted [OF lt]) (simp add: dist distinct_map_filter)
  have split: "?b = take n ?b @ ?b ! n # drop (Suc n) ?b" by (rule id_take_nth_drop [OF n])
  have s: "sorted_wrt ?R (take n ?b @ ?b ! n # drop (Suc n) ?b)" using sorted [of cur] split by simp
  have le: "\<forall>x \<in> set (take n ?b). ?R x (?b ! n)" and gt: "\<forall>x \<in> set (drop (Suc n) ?b). ?R (?b ! n) x"
    using s by (auto simp: sorted_wrt_append)
  have cur: "lt cur ?c" using nth_mem [OF n] by (simp add: behind_def)
  have set_behind: "set (behind lt f xs c) = {x \<in> set xs. lt c (f x)}" for c by (auto simp: behind_def)
  have "set (behind lt f xs ?c) = {x \<in> set ?b. lt ?c (f x)}"
    unfolding set_behind using tr [OF cur] by blast
  also have "\<dots> = set (drop (Suc n) ?b)"
  proof -
    have set_b: "set ?b = set (take n ?b) \<union> {?b ! n} \<union> set (drop (Suc n) ?b)"
      by (subst split) (simp only: set_append list.set Un_assoc Un_insert_left Un_empty_left insert_is_Un [symmetric])
    show ?thesis unfolding set_b using le gt irr tr by blast
  qed
  finally show ?thesis
    using sorted sorted_wrt_drop [OF sorted] irr tr by (intro strictly_sorted_unique [of ?R]) blast+
qed

lemma behind_start: "collation lt \<Longrightarrow> \<forall>x \<in> set xs. f x \<noteq> '''' \<Longrightarrow> behind lt f xs '''' = order_by lt f xs"
proof -
  assume "collation lt" "\<forall>x \<in> set xs. f x \<noteq> ''''"
  then have "filter (\<lambda>x. lt '''' (f x)) xs = xs" by (simp add: collation_def filter_id_conv)
  then show ?thesis by (simp add: behind_def)
qed

text \<open>A handler whose answers are pages of a list gives the whole list to a client that follows its cursors.\<close>

lemma follow_pages:
  assumes lt: "collation lt" and dist: "distinct (map f xs)" and ne: "\<forall>x \<in> set xs. f x \<noteq> ''''" and lim: "0 < limit"
    and page: "\<And>cur. page_of (fst (h ctx (page_request limit cur) d)) =
      Some (case cut_page f limit (take (nat (limit + 1)) (behind lt f xs cur)) of (items, next) \<Rightarrow> (map js items, next))"
  shows "length (behind lt f xs cur) < n \<Longrightarrow> follow h ctx limit d n cur = Some (map js (behind lt f xs cur))"
proof (induction n arbitrary: cur)
  case (Suc n)
  let ?b = "behind lt f xs cur"
  show ?case
  proof (cases "length ?b \<le> nat limit")
    case True
    then have "\<not> limit < int (length ?b)" using lim by linarith
    with True show ?thesis using lim by (simp add: page cut_page_def nat_add_distrib)
  next
    case False
    define m where "m = nat (limit - 1)"
    have m: "Suc m = nat limit" "m < length ?b" "limit = int m + 1" using False lim by (auto simp: m_def)
    have "f (?b ! m) \<noteq> ''''" using nth_mem [OF m(2)] ne by (auto simp: behind_def)
    moreover have "cut_page f limit (take (nat (limit + 1)) ?b) = (take (Suc m) ?b, f (?b ! m))"
      using False m by (simp add: cut_page_def)
    moreover have "follow h ctx limit d n (f (?b ! m)) = Some (map js (drop (Suc m) ?b))"
      using Suc.IH [of "f (?b ! m)"] Suc.prems m(2) unfolding behind_rest [OF lt dist m(2)] by simp
    ultimately show ?thesis by (simp add: page map_append [symmetric] del: map_append)
  qed
qed simp

lemma queryInt_page: "1 \<le> limit \<Longrightarrow> limit \<le> 200 \<Longrightarrow> queryInt (page_request limit cur) ''limit'' 50 200 = Inr limit"
proof -
  assume l: "1 \<le> limit" "limit \<le> 200"
  then have "ParseInt64 (itoa limit) = (limit, True)" by (intro ParseInt64_itoa) simp_all
  moreover then have "itoa limit \<noteq> ''''" by (auto simp: ParseInt64_def cut_sign_def)
  ultimately show ?thesis using l by (simp add: queryInt_def page_request_def)
qed


subsection \<open>What was written is read\<close>

lemma orFail_changed: "orFail r k d = (rs, d') \<Longrightarrow> d' \<noteq> d \<Longrightarrow> \<exists>x. r = Inr x \<and> k x = (rs, d')"
  by (cases r) (auto simp: orFail_def)

lemma orFailApi_changed: "orFailApi r k d = (rs, d') \<Longrightarrow> d' \<noteq> d \<Longrightarrow> \<exists>x. r = Inr x \<and> k x = (rs, d')"
  by (cases r) (auto simp: orFailApi_def)

definition replace_change :: "replace_in \<Rightarrow> TimelineEntry list \<Rightarrow> Change" where
  "replace_change inp es = \<lparr>cg_From = ri_From inp, cg_To = ri_To inp, cg_Entries = es, cg_Response = Some (replace_answer (length es))\<rparr>"

lemma replaceSchedule_changed:
  assumes "replaceSchedule v ctx r d = (rs, d')" "d' \<noteq> d"
  obtains body inp im key h es res where "read_json (ae_replace v) r = Inr (body, inp)" "parseIfMatch r = Inr im"
    "Validate (map entry_model (ri_Entries inp)) (ri_From inp) (ri_To inp) = Inr es"
    "edit_tx (ae_dbnow v) (channelParam r) im key h (\<lambda>_. Inr (replace_change inp es)) d = Inr (res, d')" "\<not> ar_Replayed res"
proof -
  obtain ch where ch: "GetChannelChecked (ae_link v 0) (channelParam r) d = Inr ch" and k1: "orFailApi (read_json (ae_replace v) r) (\<lambda>(body, inp).
     orFailApi (parseIfMatch r) (\<lambda>ifMatch.
     orFailApi (idemKey r) (\<lambda>key.
     orFailApi (case Validate (map entry_model (ri_Entries inp)) (ri_From inp) (ri_To inp) of Inl e \<Rightarrow> Inl (ApiErr (EditError e)) | Inr es \<Rightarrow> Inr es) (\<lambda>entries.
     orFail (unknownAssets v (ae_link v 1) entries d) (\<lambda>bad.
       if bad \<noteq> [] then (WriteProblem [] 422 ''Unprocessable'' (''these assets are not registered: '' @ comma_join bad), d)
       else if rq_query r ''dry_run'' = ''true''
       then (WriteJSON [] 200 (JObj [(''valid'', JBool True), (''entries'', JInt (int (length entries))), (''version'', JInt (ch_ScheduleVersion ch)), (''dry_run'', JBool True)]), d)
       else
         orFailDb (ApplySchedule (ae_link v 2) (ae_dbnow v)
             \<lparr>aq_ChannelID = ch_ID ch, aq_From = ri_From inp, aq_To = ri_To inp, aq_Entries = entries, aq_IfMatch = ifMatch, aq_IdemKey = key,
              aq_BodyHash = bodyHash (ae_hash v) (ch_ID ch) ''replace'' body, aq_Response = Some (replace_answer (length entries))\<rparr> d)
           (\<lambda>res d. (answerApply res (length entries), d))) d) d) d) d) d = (rs, d')"
    using orFail_changed [OF assms(1) [unfolded replaceSchedule_def] assms(2)] by blast
  note c = GetChannelChecked_ID [OF ch]
  obtain body inp where inp: "read_json (ae_replace v) r = Inr (body, inp)"
    using orFailApi_changed [OF k1 assms(2)] by auto
  obtain im where im: "parseIfMatch r = Inr im" using k1 assms(2) by (cases "parseIfMatch r") (auto simp: orFailApi_def inp)
  obtain key where key: "idemKey r = Inr key" using k1 assms(2) by (cases "idemKey r") (auto simp: orFailApi_def inp im)
  obtain es where es: "Validate (map entry_model (ri_Entries inp)) (ri_From inp) (ri_To inp) = Inr es"
    using k1 assms(2) by (cases "Validate (map entry_model (ri_Entries inp)) (ri_From inp) (ri_To inp)") (auto simp: orFailApi_def inp im key)
  let ?h = "bodyHash (ae_hash v) (ch_ID ch) ''replace'' body"
  have d': "d' = snd (EditSchedule (ae_link v 2) (ae_dbnow v) (channelParam r) im key ?h (\<lambda>_. Inr (replace_change inp es)) d)"
    using k1 assms(2)
    by (auto simp: orFailApi_def inp im key es orFail_def orFailDb_def ApplySchedule_def replace_change_def c split: sum.splits if_splits prod.splits)
  obtain res where "edit_tx (ae_dbnow v) (channelParam r) im key ?h (\<lambda>_. Inr (replace_change inp es)) d = Inr (res, d')" "\<not> ar_Replayed res"
    by (rule EditSchedule_db [of "ae_link v 2" "ae_dbnow v" "channelParam r" im key ?h "\<lambda>_. Inr (replace_change inp es)" d]) (use d' assms(2) in auto)
  then show ?thesis using that inp im es by blast
qed

lemma Validate_InrD:
  assumes "Validate es t1 t2 = Inr out"
  shows "whole t1" "whole t2" "t1 < t2" "t2 - t1 \<le> MaxWindow" "\<forall>e \<in> set out. static_ok e \<and> t1 \<le> te_Start e \<and> te_Start e < t2"
    "sorted (map te_Start out)" "mset out = mset es" "length out \<le> MaxEntries"
proof -
  have s: "Sub t2 t1 \<le> MaxWindow" using assms by (auto simp: Validate_def split: if_splits)
  show "whole t1" "whole t2" "t1 < t2" using assms by (auto simp: Validate_def split: if_splits)
  show "t2 - t1 \<le> MaxWindow" using s by (auto simp: Sub_def MaxWindow_def split: if_splits)
  have c: "CheckEntries es t1 t2 = Inr out" using assms by (auto simp: Validate_def split: if_splits)
  show "\<forall>e \<in> set out. static_ok e \<and> t1 \<le> te_Start e \<and> te_Start e < t2" "sorted (map te_Start out)" "mset out = mset es" "length out \<le> MaxEntries"
    using c unfolding CheckEntries_Inr by (auto simp: entry_ok_def)
qed

lemma view_endOf: "db_ok d \<Longrightarrow> e \<in> set (view d c) \<Longrightarrow> endOf e = te_Start e + te_DurationS e * second"
  by (auto simp: view_def rows_for_in row_endOf row_end_def)

lemma replaced_range:
  assumes ok: "db_ok d" "db_ok d'" and val: "Validate es0 t1 t2 = Inr es"
    and v': "view d' c = apply_edit (view d c) \<lparr>ed_From = t1, ed_To = t2, ed_Entries = map (resolved d) es\<rparr>"
    and fresh: "\<forall>e \<in> set (view d c). te_Start e < t1 \<longrightarrow> endOf e \<le> t1"
  shows "query_range c t1 t2 d' = map (resolved d) es"
proof -
  note val = Validate_InrD [OF val]
  let ?Q = "\<lambda>e. te_Start e < t2 \<and> t1 < endOf e"
  have t: "pg_time t1 = t1" "pg_time t2 = t2" using val(1,2) by (simp_all add: pg_time_whole)
  have old: "filter ?Q (filter (\<lambda>e. \<not> (t1 \<le> te_Start e \<and> te_Start e < t2)) (view d c)) = []"
    using fresh by (auto simp: filter_empty_conv not_le)
  have new: "filter ?Q (map (resolved d) es) = map (resolved d) es"
  proof (rule filter_True, rule ballI)
    fix e assume e: "e \<in> set (map (resolved d) es)"
    then have "e \<in> set (view d' c)" unfolding v' apply_edit_def by simp
    then have "endOf e = te_Start e + te_DurationS e * second" by (rule view_endOf [OF ok(2)])
    moreover have "0 < te_DurationS e" "t1 \<le> te_Start e" "te_Start e < t2" using e val(5) by (auto simp: static_ok_def)
    ultimately show "te_Start e < t2 \<and> t1 < endOf e" by (simp add: add_strict_increasing2)
  qed
  have "query_range c t1 t2 d' = filter ?Q (view d' c)" by (simp add: query_range_view [OF ok(2)] t)
  also have "\<dots> = sort_key te_Start (filter ?Q (map (resolved d) es))"
    unfolding v' apply_edit_def by (simp only: Edit.select_convs filter_sort filter_append old append_Nil)
  also have "\<dots> = map (resolved d) es" unfolding new
    by (rule sort_key_id_if_sorted) (use val(6) in \<open>simp add: comp_def\<close>)
  finally show ?thesis .
qed

lemma parse_time_Nil: "parse_time [] = None"
  by (simp add: parse_time_def num_fixed_def)

lemma getSchedule_answer:
  assumes "version_of d c = Some ver" "channelParam r = c" "parse_time (rq_query r ''from'') = Some t1" "parse_time (rq_query r ''to'') = Some t2"
    "ae_link v 0 = Up" "ae_link v 1 = Up" "t1 < t2" "t2 - t1 \<le> MaxWindow"
  shows "getSchedule v ctx r d = (WriteJSON [(''ETag'', etag ver)] 200
    (JObj [(''channel_id'', JStr c), (''from'', JTime t1), (''to'', JTime t2), (''version'', JInt ver),
      (''entries'', JList (map entry_json (query_range c t1 t2 d)))]), d)"
proof -
  obtain ch where ch: "List.find (\<lambda>x. ch_ID x = c) (db_channels d) = Some ch" "ch_ScheduleVersion ch = ver"
    using assms(1) by (auto simp: version_of_def)
  then have "GetChannelChecked (ae_link v 0) c d = Inr ch" using assms(5) by (simp add: GetChannelChecked_def GetChannel_def mapErrE_def ask_def find_row_def)
  moreover have "ch_ID ch = c" using ch(1) by (auto simp: find_Some_iff)
  moreover have "rq_query r ''from'' \<noteq> ''''" "rq_query r ''to'' \<noteq> ''''" using assms(3,4) by (auto simp: parse_time_Nil)
  moreover have "Sub t2 t1 \<le> MaxWindow" using assms(7,8) by (simp add: Sub_def MaxWindow_def)
  ultimately show ?thesis using assms ch(2)
    by (simp add: getSchedule_def orFail_def orFailApi_def query_time_def pg_def GetTimelineRange_def ask_def)
qed


subsection \<open>Now and next\<close>

lemma now_next_find:
  "now_next_loop now es (c, n) =
     (if c = None then List.find (\<lambda>e. \<not> te_Start e > now) es else c, if n = None then List.find (\<lambda>e. te_Start e > now) es else n)"
  by (induction es arbitrary: c n) auto

lemma find_filter: "List.find P (filter Q es) = List.find (\<lambda>e. Q e \<and> P e) es"
  by (induction es) auto

lemma find_cong': "(\<And>x. x \<in> set es \<Longrightarrow> P x = Q x) \<Longrightarrow> List.find P es = List.find Q es"
  by (induction es) auto


subsection \<open>An admin key is not confined\<close>

text \<open>The routes that change channels need an admin key but do not look at its channels.\<close>

lemma admin_deletes_any_channel:
  assumes "Find (sv_sha sv) (sv_keys sv) (secretOf r) = Some k" "Admin \<in> ky_scopes k" "ae_link v 0 = Up" "has_channel d (channelParam r)"
  shows "rs_status (fst (serve sv v DeleteChannelR ctx r d)) = 204 \<and> \<not> has_channel (snd (serve sv v DeleteChannelR ctx r d)) (channelParam r)"
  using assms by (auto simp: serve_def Require_def Let_def Allows_def deleteChannel_def DeleteChannel_def delete_channel_def orFailDb_def has_channel_def list_ex_iff)

subsection \<open>Witnesses\<close>

definition w_key :: Key where
  "w_key = \<lparr>ky_Name = ''ops'', ky_hash = w_sha ''opsecret1'', ky_scopes = {Schedule}, ky_channels = {''c1''}, ky_allChannels = False\<rparr>"

definition w_service :: service where
  "w_service = \<lparr>sv_sha = w_sha, sv_keys = [w_key], sv_scte_text = (\<lambda>_. ''''), sv_metrics = WriteHeader 200\<rparr>"

definition w_replace_in :: replace_in where
  "w_replace_in = \<lparr>ri_From = 1767837600 * second, ri_To = 1767841200 * second, ri_Entries =
     [\<lparr>ei_Type = ''slate'', ei_AssetID = '''', ei_URI = '''', ei_Start = 1767837600 * second, ei_Duration = 60, ei_OffsetS = 0, ei_Category = '''', ei_SCTE35 = ''''\<rparr>]\<rparr>"

definition w_api :: api_env where
  "w_api = w_env\<lparr>ae_replace := (\<lambda>_. Inr (w_replace_in, False))\<rparr>"

definition w_post :: request where
  "w_post = \<lparr>rq_header = (\<lambda>n. if n = ''X-API-Key'' then ''opsecret1'' else ''''),
     rq_query = (\<lambda>n. if n = ''from'' then ''2026-01-08T02:00:00Z'' else if n = ''to'' then ''2026-01-08T03:00:00Z'' else ''''),
     rq_param = (\<lambda>_. ''c1''), rq_body = Some ''{}''\<rparr>"

lemma w_find: "Find w_sha [w_key] (secretOf w_post) = Some w_key"
  by (simp add: Find_def secretOf_def w_post_def w_key_def)

lemma w_validate: "Validate (map entry_model (ri_Entries w_replace_in)) (ri_From w_replace_in) (ri_To w_replace_in) = Inr [w_slate_entry]"
  by (simp add: Validate_def w_replace_in_def zero_time_def Sub_def MaxWindow_def Nanosecond_def CheckEntries_def MaxEntries_def check_entry_def
      validTypes_def entry_model_def w_slate_entry_def zero_entry_def)

lemma w_read: "read_json (ae_replace w_api) w_post = Inr (''{}'', w_replace_in)"
  by (simp add: read_json_def readBody_def w_post_def max_body_def decodeStrict_def w_api_def)

lemma w_posted: "\<exists>rs d'. replaceSchedule w_api ctx w_post w_db = (rs, d') \<and> d' \<noteq> w_db"
proof -
  have ch: "GetChannelChecked Up ''c1'' w_db = Inr w_channel" "ch_ID w_channel = ''c1''"
    by (simp_all add: GetChannelChecked_def GetChannel_def mapErrE_def ask_def find_row_def w_db_def w_channel_def)
  have env: "ae_link w_api n = Up" "channelParam w_post = ''c1''" "rq_query w_post ''dry_run'' = ''''" for n
    by (simp_all add: w_api_def w_env_def w_post_def channelParam_def)
  have inp: "parseIfMatch w_post = Inr None" "idemKey w_post = Inr ''''"
    by (simp_all add: parseIfMatch_def idemKey_def w_post_def TrimSpace_def)
  have bad: "unknownAssets w_api Up [w_slate_entry] w_db = Inr []"
    by (simp add: unknownAssets_def asset_ids_def MissingAssets_def pg_def w_slate_entry_def zero_entry_def)
  have tx: "\<exists>rs d'. edit_tx now ''c1'' None '''' h (\<lambda>_. Inr (replace_change w_replace_in [w_slate_entry])) w_db = Inr (rs, d') \<and> d' \<noteq> w_db \<and> \<not> ar_Replayed rs" for now h
    by (simp add: edit_tx_def find_row_def mapErrE_def find_idem_def replace_change_def w_replace_in_def commit_change_def replaceInTx_def delete_range_def insert_entry_def
      raise_version_def w_slate_entry_def zero_entry_def row_of_def NULLIF_def pg_time_def int4_def validTypes_def refs_ok_def has_channel_def w_db_def)
  let ?h = "bodyHash (ae_hash w_api) ''c1'' ''replace'' ''{}''"
  obtain res d' where tx': "edit_tx (ae_dbnow w_api) ''c1'' None '''' ?h (\<lambda>_. Inr (replace_change w_replace_in [w_slate_entry])) w_db = Inr (res, d')" "d' \<noteq> w_db" "\<not> ar_Replayed res"
    using tx by blast
  then have ap: "ApplySchedule Up (ae_dbnow w_api) \<lparr>aq_ChannelID = ''c1'', aq_From = ri_From w_replace_in, aq_To = ri_To w_replace_in, aq_Entries = [w_slate_entry],
      aq_IfMatch = None, aq_IdemKey = '''', aq_BodyHash = ?h, aq_Response = Some (replace_answer (length [w_slate_entry]))\<rparr> w_db = (Inr res, d')"
    by (simp add: ApplySchedule_def EditSchedule_def replace_change_def)
  have "replaceSchedule w_api ctx w_post w_db = (answerApply res (length [w_slate_entry]), d')"
    unfolding replaceSchedule_def orFail_def orFailApi_def env ch(1) w_read inp prod.case sum.case w_validate bad if_False
    by (simp add: env ch ap [simplified] orFailDb_def)
  then show ?thesis using tx'(2) by blast
qed





text \<open>The byte order (collation \<^verbatim>\<open>C\<close>).\<close>

definition c_order :: "string \<Rightarrow> string \<Rightarrow> bool" where
  "c_order x y \<longleftrightarrow> (x, y) \<in> lexord {(a, b). (of_char a :: nat) < of_char b}"

lemma c_order_collation: "collation c_order"
proof -
  let ?r = "{(a :: char, b). (of_char a :: nat) < of_char b}"
  have tr: "trans ?r" by (auto intro: transI)
  have tot: "\<forall>a b. (a, b) \<in> ?r \<or> a = b \<or> (b, a) \<in> ?r" by (metis (mono_tags, lifting) case_prodI linorder_neqE_nat mem_Collect_eq of_char_eq_iff)
  have "\<not> c_order x x" for x unfolding c_order_def by (rule lexord_irreflexive) simp
  moreover have "c_order x z" if "c_order x y" "c_order y z" for x y z
    using transD [OF lexord_transI [OF tr]] that unfolding c_order_def by blast
  moreover have "c_order x y \<or> x = y \<or> c_order y x" for x y unfolding c_order_def by (rule lexord_linear [OF tot])
  moreover have "x \<noteq> '''' \<Longrightarrow> c_order '''' x" for x by (cases x) (simp_all add: c_order_def)
  ultimately show ?thesis unfolding collation_def by blast
qed

definition w_channels :: db where
  "w_channels = empty_db\<lparr>db_channels := [\<lparr>ch_ID = ''b'', ch_Name = ''two'', ch_SegmentSec = 1, ch_Ladder = None, ch_CreatedAt = 0, ch_ScheduleVersion = 0\<rparr>,
     \<lparr>ch_ID = ''a'', ch_Name = ''one'', ch_SegmentSec = 1, ch_Ladder = None, ch_CreatedAt = 0, ch_ScheduleVersion = 0\<rparr>]\<rparr>"


end
