(* ===== verification/Webhook.thy ===== *)
theory Webhook
  imports Hub GoText "HOL-Library.Sublist"
begin

text \<open>
  \<^verbatim>\<open>pkg/events/webhook.go\<close>: the delivery of events to webhook endpoints. One goroutine forwards the events of the hub into a
  queue per endpoint, and a worker per endpoint delivers them; every \<^verbatim>\<open>select\<close> of the forwarder and every step of a worker is an
  action, so that a run is a list of actions in any order. \<open>ln_log\<close>, \<open>ln_lost\<close>, \<open>ws_pushed\<close>, \<open>ws_published\<close> and \<open>ws_gap\<close>
  record what happened; the code does not have them.
\<close>

subsection \<open>Endpoints\<close>

record Endpoint =
  ep_URL :: string
  ep_Secret :: string

definition endpoint_sep :: "char \<Rightarrow> bool" where
  "endpoint_sep c \<longleftrightarrow> c = CHR '';'' \<or> c = CHR 0x0A"

definition http_url :: "string \<Rightarrow> bool" where
  "http_url u \<longleftrightarrow> HasPrefix u ''http://'' \<or> HasPrefix u ''https://''"

text \<open>An error carries the URL it is about.\<close>

fun endpoint_loop :: "string list \<Rightarrow> Endpoint list \<Rightarrow> string + Endpoint list" where
  "endpoint_loop [] out = Inr out"
| "endpoint_loop (part0 # parts) out =
     (let part = TrimSpace part0 in
      if part = '''' then endpoint_loop parts out
      else (case cut_at (CHR ''|'') part of (url0, secret, _) \<Rightarrow>
        let url = TrimSpace url0 in
        if \<not> http_url url then Inl url
        else endpoint_loop parts (out @ [\<lparr>ep_URL = url, ep_Secret = TrimSpace secret\<rparr>])))"

definition ParseEndpoints :: "string \<Rightarrow> string + Endpoint list" where
  "ParseEndpoints s = endpoint_loop (fields_func endpoint_sep s) []"

text \<open>\<open>mac\<close> stands for the hex of HMAC-SHA256.\<close>

definition Sign :: "(string \<Rightarrow> string \<Rightarrow> string) \<Rightarrow> string \<Rightarrow> string \<Rightarrow> string" where
  "Sign mac secret body = ''sha256='' @ mac secret body"

subsection \<open>One delivery\<close>

record Sender =
  sd_Retries :: int
  sd_Backoff :: duration
  sd_Timeout :: duration

definition defaults :: "Sender \<Rightarrow> Sender" where
  "defaults s =
     (let s = (if sd_Retries s = 0 then s\<lparr>sd_Retries := 5\<rparr> else s);
          s = (if sd_Backoff s = 0 then s\<lparr>sd_Backoff := second\<rparr> else s)
      in if sd_Timeout s = 0 then s\<lparr>sd_Timeout := 5 * second\<rparr> else s)"

text \<open>What comes of an attempt: the request cannot be built, it gets no answer, or it gets a status.\<close>

datatype attempt = BadURL | NoAnswer | Status int

datatype deliver_error = Stopped | RequestFailed | Refused int | GaveUp int "attempt option"

datatype act = Pause duration | Post

definition retryable :: "int \<Rightarrow> bool" where
  "retryable c \<longleftrightarrow> c = 408 \<or> c = 429 \<or> c \<ge> 500"

text \<open>
  The loop of \<^verbatim>\<open>deliver\<close>: \<open>ans n\<close> is the outcome of attempt \<open>n\<close>, \<open>stop n\<close> says that the sender is stopped during the pause before it.
  It gives the error, if any, and what was done.
\<close>

function deliver_loop :: "(nat \<Rightarrow> attempt) \<Rightarrow> (nat \<Rightarrow> bool) \<Rightarrow> int \<Rightarrow> nat \<Rightarrow> duration \<Rightarrow> attempt option \<Rightarrow> deliver_error option \<times> act list" where
  "deliver_loop ans stop retries n pause lst =
     (if \<not> int n \<le> retries then (Some (GaveUp (retries + 1) lst), [])
      else if n > 0 \<and> stop n then (Some Stopped, [])
      else
        let waits = (if n > 0 then [Pause pause] else []);
            pause' = (if n > 0 then wrap64 (pause * 2) else pause);
            again = (let (e, acts) = deliver_loop ans stop retries (Suc n) pause' (Some (ans n)) in (e, waits @ Post # acts))
        in case ans n of
             BadURL \<Rightarrow> (Some RequestFailed, waits)
           | NoAnswer \<Rightarrow> again
           | Status c \<Rightarrow>
               if c \<ge> 200 \<and> c < 300 then (None, waits @ [Post])
               else if retryable c then again
               else (Some (Refused c), waits @ [Post]))"
  by pat_completeness auto
termination by (relation "measure (\<lambda>(ans, stop, retries, n, pause, lst). nat (retries + 1 - int n))") auto

declare deliver_loop.simps [simp del]

definition deliver :: "Sender \<Rightarrow> (nat \<Rightarrow> attempt) \<Rightarrow> (nat \<Rightarrow> bool) \<Rightarrow> deliver_error option \<times> act list" where
  "deliver s ans stop = deliver_loop ans stop (sd_Retries s) 0 (sd_Backoff s) None"

text \<open>The request of an attempt: its headers and its body.\<close>

definition webhook_request :: "(string \<Rightarrow> string \<Rightarrow> string) \<Rightarrow> (Event \<Rightarrow> string) \<Rightarrow> Endpoint \<Rightarrow> Event \<Rightarrow> (string \<times> string) list \<times> string" where
  "webhook_request mac json ep ev =
     (let body = json ev in
      ([(''Content-Type'', ''application/json''), (''X-FTVX-Event'', ev_Type ev), (''X-FTVX-Delivery'', itoa (ev_ID ev))] @
       (if ep_Secret ep \<noteq> '''' then [(''X-FTVX-Signature'', Sign mac (ep_Secret ep) body)] else []), body))"

subsection \<open>The queues\<close>

definition queue_cap :: nat where "queue_cap = 512"

record lane =
  ln_queue :: "Event list"
  ln_busy :: "Event option"
  ln_log :: "(Event \<times> bool) list"
  ln_lost :: "Event list"

text \<open>Where the forwarder is: between two events, or in one of the three \<^verbatim>\<open>select\<close>s of \<^verbatim>\<open>push\<close> for the queue \<open>i\<close>.\<close>

datatype phase = Idle | Offering nat Event | Draining nat Event | Retrying nat Event

record ws =
  ws_hub :: Hub
  ws_last :: int
  ws_sub :: nat
  ws_pending :: "Event list"
  ws_phase :: phase
  ws_lanes :: "lane list"
  ws_delivered :: nat
  ws_failed :: nat
  ws_dropped :: nat
  ws_pushed :: "Event list"
  ws_published :: "Event list"
  ws_gap :: bool

text \<open>\<^verbatim>\<open>Run\<close> up to its goroutines, \<open>lst\<close> being what \<^verbatim>\<open>h.Last()\<close> said a moment ago.\<close>

definition start :: "int \<Rightarrow> Hub \<Rightarrow> nat \<Rightarrow> ws" where
  "start lst h n =
     (case Subscribe lst h of (replay, a, h') \<Rightarrow>
        \<lparr>ws_hub = h', ws_last = lst, ws_sub = a, ws_pending = replay, ws_phase = Idle,
         ws_lanes = replicate n \<lparr>ln_queue = [], ln_busy = None, ln_log = [], ln_lost = []\<rparr>, ws_delivered = 0, ws_failed = 0, ws_dropped = 0,
         ws_pushed = [], ws_published = replay, ws_gap = (Last h - lst > int (hb_cap h))\<rparr>)"

definition begin_push :: "Event \<Rightarrow> ws \<Rightarrow> ws" where
  "begin_push ev st = st\<lparr>ws_last := ev_ID ev, ws_phase := Offering 0 ev, ws_pushed := ws_pushed st @ [ev]\<rparr>"

text \<open>Between two events: the rest of a replay goes first; a closed subscription is replaced.\<close>

definition next_event :: "ws \<Rightarrow> ws" where
  "next_event st =
     (case ws_pending st of
        ev # evs \<Rightarrow> begin_push ev (st\<lparr>ws_pending := evs\<rparr>)
      | [] \<Rightarrow>
          (case recv (ws_sub st) (ws_hub st) of
             Some (ev, h) \<Rightarrow> begin_push ev (st\<lparr>ws_hub := h\<rparr>)
           | None \<Rightarrow>
               if sb_closed (hb_store (ws_hub st) ! ws_sub st) then
                 (case Subscribe (ws_last st) (ws_hub st) of (replay, a, h) \<Rightarrow>
                    st\<lparr>ws_hub := h, ws_sub := a, ws_pending := replay,
                       ws_gap := ws_gap st \<or> Last (ws_hub st) - ws_last st > int (hb_cap (ws_hub st))\<rparr>)
               else st))"

definition update_lane :: "nat \<Rightarrow> (lane \<Rightarrow> lane) \<Rightarrow> ws \<Rightarrow> ws" where
  "update_lane i f st = st\<lparr>ws_lanes := (ws_lanes st)[i := f (ws_lanes st ! i)]\<rparr>"

definition enqueue :: "nat \<Rightarrow> Event \<Rightarrow> ws \<Rightarrow> ws" where
  "enqueue i ev st = update_lane i (\<lambda>l. l\<lparr>ln_queue := ln_queue l @ [ev]\<rparr>) (st\<lparr>ws_phase := Offering (Suc i) ev\<rparr>)"

definition forward :: "ws \<Rightarrow> ws" where
  "forward st =
     (case ws_phase st of
        Idle \<Rightarrow> next_event st
      | Offering i ev \<Rightarrow>
          if i \<ge> length (ws_lanes st) then st\<lparr>ws_phase := Idle\<rparr>
          else if length (ln_queue (ws_lanes st ! i)) < queue_cap then enqueue i ev st
          else st\<lparr>ws_phase := Draining i ev\<rparr>
      | Draining i ev \<Rightarrow>
          (case ln_queue (ws_lanes st ! i) of
             [] \<Rightarrow> st\<lparr>ws_phase := Retrying i ev\<rparr>
           | x # xs \<Rightarrow> update_lane i (\<lambda>l. l\<lparr>ln_queue := xs, ln_lost := ln_lost l @ [x]\<rparr>)
                        (st\<lparr>ws_phase := Retrying i ev, ws_dropped := ws_dropped st + 1\<rparr>))
      | Retrying i ev \<Rightarrow>
          if length (ln_queue (ws_lanes st ! i)) < queue_cap then enqueue i ev st
          else update_lane i (\<lambda>l. l\<lparr>ln_lost := ln_lost l @ [ev]\<rparr>) (st\<lparr>ws_phase := Offering (Suc i) ev, ws_dropped := ws_dropped st + 1\<rparr>))"

definition take_event :: "nat \<Rightarrow> ws \<Rightarrow> ws" where
  "take_event i st =
     (if i < length (ws_lanes st) \<and> ln_busy (ws_lanes st ! i) = None then
        (case ln_queue (ws_lanes st ! i) of
           [] \<Rightarrow> st
         | x # xs \<Rightarrow> update_lane i (\<lambda>l. l\<lparr>ln_queue := xs, ln_busy := Some x\<rparr>) st)
      else st)"

definition finish_event :: "Sender \<Rightarrow> nat \<Rightarrow> (nat \<Rightarrow> attempt) \<Rightarrow> (nat \<Rightarrow> bool) \<Rightarrow> ws \<Rightarrow> ws" where
  "finish_event s i ans stop st =
     (if i < length (ws_lanes st) then
        (case ln_busy (ws_lanes st ! i) of
           None \<Rightarrow> st
         | Some ev \<Rightarrow>
             let good = (fst (deliver s ans stop) = None);
                 st = update_lane i (\<lambda>l. l\<lparr>ln_busy := None, ln_log := ln_log l @ [(ev, good)]\<rparr>) st
             in if good then st\<lparr>ws_delivered := ws_delivered st + 1\<rparr> else st\<lparr>ws_failed := ws_failed st + 1\<rparr>)
      else st)"

text \<open>What can happen: the engine publishes, other clients of the hub come and go, the forwarder or a worker makes a step.\<close>

datatype action = Pub string string data gtime | OtherSubscribe int | OtherRecv nat | OtherClose nat
  | Forward | Take nat | Finish nat "nat \<Rightarrow> attempt" "nat \<Rightarrow> bool"

fun act_on :: "Sender \<Rightarrow> action \<Rightarrow> ws \<Rightarrow> ws" where
  "act_on s (Pub typ channel dat now) st =
     (case Publish typ channel dat now (ws_hub st) of (ev, h) \<Rightarrow> st\<lparr>ws_hub := h, ws_published := ws_published st @ [ev]\<rparr>)"
| "act_on s (OtherSubscribe after) st = st\<lparr>ws_hub := snd (snd (Subscribe after (ws_hub st)))\<rparr>"
| "act_on s (OtherRecv b) st = (if b = ws_sub st then st else (case recv b (ws_hub st) of None \<Rightarrow> st | Some (_, h) \<Rightarrow> st\<lparr>ws_hub := h\<rparr>))"
| "act_on s (OtherClose b) st = (if b = ws_sub st then st else st\<lparr>ws_hub := Close b (ws_hub st)\<rparr>)"
| "act_on s Forward st = forward st"
| "act_on s (Take i) st = take_event i st"
| "act_on s (Finish i ans stop) st = finish_event s i ans stop st"

subsection \<open>What a delivery does\<close>

definition is_success :: "attempt \<Rightarrow> bool" where
  "is_success a \<longleftrightarrow> (case a of Status c \<Rightarrow> 200 \<le> c \<and> c < 300 | _ \<Rightarrow> False)"

definition try_again :: "attempt \<Rightarrow> bool" where
  "try_again a \<longleftrightarrow> (case a of NoAnswer \<Rightarrow> True | Status c \<Rightarrow> retryable c | BadURL \<Rightarrow> False)"

lemma deliver_loop_end: "retries < int n \<Longrightarrow> deliver_loop ans stop retries n pause lst = (Some (GaveUp (retries + 1) lst), [])"
  by (simp add: deliver_loop.simps)

lemma deliver_loop_stop: "int n \<le> retries \<Longrightarrow> 0 < n \<Longrightarrow> stop n \<Longrightarrow> deliver_loop ans stop retries n pause lst = (Some Stopped, [])"
  by (subst deliver_loop.simps) simp

lemma deliver_loop_step:
  assumes "int n \<le> retries" "n = 0 \<or> \<not> stop n"
  shows "deliver_loop ans stop retries n pause lst =
    (let waits = (if n > 0 then [Pause pause] else []) in
     if is_success (ans n) then (None, waits @ [Post])
     else if try_again (ans n) then
       apsnd (\<lambda>acts. waits @ Post # acts) (deliver_loop ans stop retries (Suc n) (if n > 0 then wrap64 (pause * 2) else pause) (Some (ans n)))
     else (Some (case ans n of Status c \<Rightarrow> Refused c | _ \<Rightarrow> RequestFailed), (if ans n = BadURL then waits else waits @ [Post])))"
proof -
  have r: "retryable c \<Longrightarrow> \<not> (200 \<le> c \<and> c < 300)" for c by (auto simp: retryable_def)
  show ?thesis
    using assms by (subst deliver_loop.simps) (auto simp: is_success_def try_again_def Let_def r split: attempt.split prod.split)
qed

text \<open>An attempt is made when all before it asked for another one and nobody stopped the sender.\<close>

definition reaches :: "(nat \<Rightarrow> attempt) \<Rightarrow> (nat \<Rightarrow> bool) \<Rightarrow> nat \<Rightarrow> nat \<Rightarrow> bool" where
  "reaches ans stop n m \<longleftrightarrow> n \<le> m \<and> (\<forall>i. n \<le> i \<and> i < m \<longrightarrow> try_again (ans i)) \<and> (\<forall>i. n \<le> i \<and> i \<le> m \<and> 0 < i \<longrightarrow> \<not> stop i)"

lemma reaches_Suc: "try_again (ans n) \<Longrightarrow> n = 0 \<or> \<not> stop n \<Longrightarrow> reaches ans stop n m \<longleftrightarrow> m = n \<or> reaches ans stop (Suc n) m"
  unfolding reaches_def by (metis Suc_le_eq le_eq_less_or_eq not_less_eq_eq order_refl)

lemma reaches_here: "\<not> try_again (ans n) \<Longrightarrow> reaches ans stop n m \<Longrightarrow> m = n"
  unfolding reaches_def by (metis le_eq_less_or_eq order_refl)

lemma success_no_retry: "is_success a \<Longrightarrow> \<not> try_again a"
  by (auto simp: is_success_def try_again_def retryable_def split: attempt.splits)

lemma deliver_loop_success:
  "fst (deliver_loop ans stop retries n pause lst) = None \<longleftrightarrow> (\<exists>m. int m \<le> retries \<and> reaches ans stop n m \<and> is_success (ans m))"
proof (induction "nat (retries + 1 - int n)" arbitrary: n pause lst)
  case 0
  then have "retries < int n" by simp
  moreover have "\<not> (int m \<le> retries \<and> reaches ans stop n m)" for m using calculation by (auto simp: reaches_def)
  ultimately show ?case by (auto simp: deliver_loop_end)
next
  case (Suc k)
  then have n: "int n \<le> retries" by simp
  show ?case
  proof (cases "n = 0 \<or> \<not> stop n")
    case False
    then have "\<not> reaches ans stop n m" for m by (auto simp: reaches_def)
    then show ?thesis using False n by (simp add: deliver_loop_stop)
  next
    case True
    have IH: "fst (deliver_loop ans stop retries (Suc n) p l) = None \<longleftrightarrow> (\<exists>m. int m \<le> retries \<and> reaches ans stop (Suc n) m \<and> is_success (ans m))" for p l
      using Suc.hyps(1) [of "Suc n" p l] Suc.hyps(2) n by simp
    have here: "reaches ans stop n n" using True by (auto simp: reaches_def)
    show ?thesis
    proof (cases "try_again (ans n)")
      case t: True
      then have "\<not> is_success (ans n)" using success_no_retry by blast
      then show ?thesis using t by (auto simp: deliver_loop_step [where stop = stop and ans = ans, OF n True] Let_def IH reaches_Suc [where stop = stop and ans = ans, OF t True])
    next
      case False
      then show ?thesis using here n reaches_here [where ans = ans and stop = stop, OF False]
        by (auto simp: deliver_loop_step [where stop = stop and ans = ans, OF n True] Let_def)
    qed
  qed
qed

text \<open>The pauses double; the acts of a delivery from attempt \<open>n\<close> on, \<open>k\<close> requests.\<close>

definition pause_before :: "duration \<Rightarrow> nat \<Rightarrow> act list" where
  "pause_before b n = (if n = 0 then [] else [Pause (b * 2 ^ (n - 1))])"

fun requests :: "duration \<Rightarrow> nat \<Rightarrow> nat \<Rightarrow> act list" where
  "requests b n 0 = []"
| "requests b n (Suc k) = pause_before b n @ Post # requests b (Suc n) k"

lemma deliver_loop_acts:
  assumes "0 \<le> b" "b * 2 ^ nat retries < 2 ^ 63" "pause = b * 2 ^ (n - 1)"
  shows "\<exists>k. (k = 0 \<or> int (n + k) \<le> retries + 1) \<and>
    (snd (deliver_loop ans stop retries n pause lst) = requests b n k \<or>
     snd (deliver_loop ans stop retries n pause lst) = requests b n k @ pause_before b (n + k) \<and> int (n + k) \<le> retries)"
  using assms(3)
proof (induction "nat (retries + 1 - int n)" arbitrary: n pause lst)
  case 0
  then show ?case by (intro exI [of _ 0]) (simp add: deliver_loop_end)
next
  case (Suc k)
  then have n: "int n \<le> retries" by simp
  show ?case
  proof (cases "n = 0 \<or> \<not> stop n")
    case False
    then show ?thesis using n by (intro exI [of _ 0]) (simp add: deliver_loop_stop)
  next
    case True
    have w: "(if 0 < n then [Pause pause] else []) = pause_before b n" using Suc.prems by (simp add: pause_before_def)
    show ?thesis
    proof (cases "try_again (ans n)")
      case t: True
      let ?p = "if n > 0 then wrap64 (pause * 2) else pause"
      have "b * 2 ^ n \<le> b * 2 ^ nat retries" using assms(1) n by (intro mult_left_mono power_increasing) auto
      then have "0 \<le> b * 2 ^ n" "b * 2 ^ n < 2 ^ 63" using assms(1,2) by simp_all
      then have "?p = b * 2 ^ (Suc n - 1)" using Suc.prems by (cases n) (simp_all add: mult.assoc mult.commute [of 2])
      moreover have "k = nat (retries + 1 - int (Suc n))" using Suc.hyps(2) n by linarith
      ultimately obtain j where j: "j = 0 \<or> int (Suc n + j) \<le> retries + 1"
        "snd (deliver_loop ans stop retries (Suc n) ?p (Some (ans n))) = requests b (Suc n) j \<or>
         snd (deliver_loop ans stop retries (Suc n) ?p (Some (ans n))) = requests b (Suc n) j @ pause_before b (Suc n + j) \<and> int (Suc n + j) \<le> retries"
        using Suc.hyps(1) [of "Suc n" ?p "Some (ans n)"] by blast
      have "\<not> is_success (ans n)" using t success_no_retry by blast
      then show ?thesis using t j n by (intro exI [of _ "Suc j"]) (auto simp: deliver_loop_step [where stop = stop and ans = ans, OF n True] w Let_def)
    next
      case False
      show ?thesis
      proof (cases "ans n = BadURL")
        case True
        then show ?thesis using False n \<open>n = 0 \<or> \<not> stop n\<close>
          by (intro exI [of _ 0]) (simp add: deliver_loop_step [where stop = stop and ans = ans, OF n] w Let_def is_success_def)
      next
        case b: False
        then show ?thesis using False True n
          by (intro exI [of _ 1]) (simp add: deliver_loop_step [where stop = stop and ans = ans, OF n True] w Let_def)
      qed
    qed
  qed
qed

definition posts :: "act list \<Rightarrow> nat" where
  "posts acts = length (filter (\<lambda>a. a = Post) acts)"

definition waited :: "act list \<Rightarrow> duration" where
  "waited acts = sum_list (map (\<lambda>a. case a of Pause d \<Rightarrow> d | Post \<Rightarrow> 0) acts)"

lemma posts_simps [simp]: "posts [] = 0" "posts (Post # as) = Suc (posts as)" "posts (Pause d # as) = posts as" "posts (as @ bs) = posts as + posts bs"
  by (simp_all add: posts_def)

lemma waited_simps [simp]: "waited [] = 0" "waited (Post # as) = waited as" "waited (Pause d # as) = d + waited as" "waited (as @ bs) = waited as + waited bs"
  by (simp_all add: waited_def)

lemma posts_requests [simp]: "posts (pause_before b n) = 0" "posts (requests b n k) = k"
  by (simp add: pause_before_def, induction k arbitrary: n) (simp_all add: pause_before_def)

lemma waited_requests: "waited (requests b (Suc n) k) = b * 2 ^ (n + k) - b * 2 ^ n"
  by (induction k arbitrary: n) (simp_all add: pause_before_def)

lemma waited_from_0: "waited (requests b 0 k) = (if k = 0 then 0 else b * 2 ^ (k - 1) - b)"
  using waited_requests [of b 0] by (cases k) (simp_all add: pause_before_def)

text \<open>A delivery always comes to an end. It succeeds exactly when some attempt gets a 2xx answer, every attempt before it got no
  answer or a status that asks for another try, and nobody stopped the sender meanwhile. It makes at most one request and \<^verbatim>\<open>Retries\<close> repeats,
  and as long as the doubled pauses fit into a duration, all pauses together are at most \<^verbatim>\<open>Backoff * (2^Retries - 1)\<close>.\<close>

theorem delivery_bounded:
  assumes "0 \<le> sd_Backoff s" "0 \<le> sd_Retries s" "sd_Backoff s * 2 ^ nat (sd_Retries s) < 2 ^ 63"
  shows "(fst (deliver s ans stop) = None \<longleftrightarrow>
      (\<exists>m. int m \<le> sd_Retries s \<and> (\<forall>i < m. try_again (ans i)) \<and> (\<forall>i. 0 < i \<and> i \<le> m \<longrightarrow> \<not> stop i) \<and> is_success (ans m))) \<and>
    int (posts (snd (deliver s ans stop))) \<le> sd_Retries s + 1 \<and>
    waited (snd (deliver s ans stop)) \<le> sd_Backoff s * (2 ^ nat (sd_Retries s) - 1)"
proof -
  let ?b = "sd_Backoff s" let ?r = "sd_Retries s" let ?acts = "snd (deliver s ans stop)"
  have succ: "fst (deliver s ans stop) = None \<longleftrightarrow>
      (\<exists>m. int m \<le> ?r \<and> (\<forall>i < m. try_again (ans i)) \<and> (\<forall>i. 0 < i \<and> i \<le> m \<longrightarrow> \<not> stop i) \<and> is_success (ans m))"
    by (auto simp: deliver_def deliver_loop_success reaches_def)
  have pow: "?b * 2 ^ k \<le> ?b * 2 ^ nat ?r" if "int k \<le> ?r" for k
    using assms(1) that by (intro mult_left_mono power_increasing) auto
  obtain k where k: "k = 0 \<or> int k \<le> ?r + 1" and acts: "?acts = requests ?b 0 k \<or> ?acts = requests ?b 0 k @ pause_before ?b k \<and> int k \<le> ?r"
    using deliver_loop_acts [OF assms(1,3), of ?b 0 ans stop None] by (auto simp: deliver_def)
  have "int (posts ?acts) \<le> ?r + 1" using acts k assms(2) by auto
  moreover have "waited ?acts \<le> ?b * 2 ^ nat ?r - ?b"
    using acts
  proof
    assume a: "?acts = requests ?b 0 k"
    show ?thesis
    proof (cases k)
      case 0
      then show ?thesis using a pow [of 0] assms(2) by (simp add: waited_from_0)
    next
      case (Suc j)
      then show ?thesis using pow [of j] k unfolding a waited_from_0 by simp
    qed
  next
    assume a: "?acts = requests ?b 0 k @ pause_before ?b k \<and> int k \<le> ?r"
    then show ?thesis using pow [of k] waited_requests [of ?b 0] by (cases k) (simp_all add: pause_before_def)
  qed
  ultimately show ?thesis using succ by (simp add: right_diff_distrib)
qed

subsection \<open>The queues\<close>

lemmas update_defs = update_lane_def enqueue_def begin_push_def

text \<open>Has the queue \<open>i\<close> had its turn with the event that is being pushed?\<close>

fun served :: "phase \<Rightarrow> nat \<Rightarrow> bool" where
  "served Idle i = True"
| "served (Offering j ev) i = (i < j)"
| "served (Draining j ev) i = (i < j)"
| "served (Retrying j ev) i = (i < j)"

fun pushing :: "phase \<Rightarrow> Event option" where
  "pushing Idle = None"
| "pushing (Offering j ev) = Some ev"
| "pushing (Draining j ev) = Some ev"
| "pushing (Retrying j ev) = Some ev"

definition offered :: "ws \<Rightarrow> nat \<Rightarrow> Event list" where
  "offered st i = (if served (ws_phase st) i then ws_pushed st else butlast (ws_pushed st))"

definition busy_list :: "lane \<Rightarrow> Event list" where
  "busy_list l = (case ln_busy l of None \<Rightarrow> [] | Some e \<Rightarrow> [e])"

text \<open>What a worker has handled, handles and will handle: in the order of pushing; together with what was dropped it is everything.\<close>

definition handled :: "lane \<Rightarrow> Event list" where
  "handled l = map fst (ln_log l) @ busy_list l @ ln_queue l"

definition lane_ok :: "Event list \<Rightarrow> lane \<Rightarrow> bool" where
  "lane_ok evs l \<longleftrightarrow> subseq (handled l) evs \<and> mset (handled l) + mset (ln_lost l) = mset evs \<and> length (ln_queue l) \<le> queue_cap"

fun in_range :: "phase \<Rightarrow> nat \<Rightarrow> bool" where
  "in_range (Draining i ev) n = (i < n)"
| "in_range (Retrying i ev) n = (i < n)"
| "in_range _ n = True"

definition lanes_ok :: "ws \<Rightarrow> bool" where
  "lanes_ok st \<longleftrightarrow> (\<forall>i < length (ws_lanes st). lane_ok (offered st i) (ws_lanes st ! i)) \<and>
     (\<forall>ev. pushing (ws_phase st) = Some ev \<longrightarrow> ws_pushed st \<noteq> [] \<and> last (ws_pushed st) = ev) \<and>
     in_range (ws_phase st) (length (ws_lanes st))"

lemma update_lane_fields [simp]:
  "ws_phase (update_lane i f st) = ws_phase st" "ws_pushed (update_lane i f st) = ws_pushed st" "length (ws_lanes (update_lane i f st)) = length (ws_lanes st)"
  "offered (update_lane i f st) = offered st" "ws_hub (update_lane i f st) = ws_hub st" "ws_last (update_lane i f st) = ws_last st"
  "ws_sub (update_lane i f st) = ws_sub st" "ws_pending (update_lane i f st) = ws_pending st" "ws_published (update_lane i f st) = ws_published st"
  "ws_gap (update_lane i f st) = ws_gap st"
  by (simp_all add: update_lane_def offered_def fun_eq_iff)

lemma update_lane_nth: "i < length (ws_lanes st) \<Longrightarrow> ws_lanes (update_lane i f st) ! j = (if j = i then f (ws_lanes st ! i) else ws_lanes st ! j)"
  by (simp add: update_lane_def nth_list_update)

lemma lane_ok_enqueue:
  assumes "lane_ok evs l" "length (ln_queue l) < queue_cap"
  shows "lane_ok (evs @ [ev]) (l\<lparr>ln_queue := ln_queue l @ [ev]\<rparr>)"
  using assms list_emb_append_mono [of "(=)" "handled l" evs "[ev]" "[ev]"] by (simp add: lane_ok_def handled_def busy_list_def)

lemma lane_ok_drop_new: "lane_ok evs l \<Longrightarrow> lane_ok (evs @ [ev]) (l\<lparr>ln_lost := ln_lost l @ [ev]\<rparr>)"
  by (simp add: lane_ok_def handled_def busy_list_def subseq_rev_drop_many)

lemma lane_ok_drop_old: "lane_ok evs l \<Longrightarrow> ln_queue l = x # xs \<Longrightarrow> lane_ok evs (l\<lparr>ln_queue := xs, ln_lost := ln_lost l @ [x]\<rparr>)"
proof -
  assume ok: "lane_ok evs l" and q: "ln_queue l = x # xs"
  have "subseq (map fst (ln_log l) @ busy_list l @ xs) (map fst (ln_log l) @ busy_list l @ x # xs)"
    by (auto intro: list_emb_append_mono list_emb_Cons)
  then have "subseq (map fst (ln_log l) @ busy_list l @ xs) evs"
    by (rule subseq_order.trans) (use ok q in \<open>simp add: lane_ok_def handled_def\<close>)
  then show ?thesis using ok q by (simp add: lane_ok_def handled_def busy_list_def)
qed

lemma lane_ok_take: "lane_ok evs l \<Longrightarrow> ln_busy l = None \<Longrightarrow> ln_queue l = x # xs \<Longrightarrow> lane_ok evs (l\<lparr>ln_queue := xs, ln_busy := Some x\<rparr>)"
  by (simp add: lane_ok_def handled_def busy_list_def)

lemma lane_ok_finish: "lane_ok evs l \<Longrightarrow> ln_busy l = Some ev \<Longrightarrow> lane_ok evs (l\<lparr>ln_busy := None, ln_log := ln_log l @ [(ev, good)]\<rparr>)"
  by (simp add: lane_ok_def handled_def busy_list_def)

lemma lanes_ok_update:
  assumes "lanes_ok st" "\<And>evs l. l = ws_lanes st ! i \<Longrightarrow> lane_ok evs l \<Longrightarrow> lane_ok evs (f l)"
  shows "lanes_ok (update_lane i f st)"
proof (cases "i < length (ws_lanes st)")
  case True
  then show ?thesis using assms unfolding lanes_ok_def update_lane_fields by (simp add: update_lane_nth)
next
  case False
  then have "update_lane i f st = st" by (simp add: update_lane_def list_update_beyond)
  then show ?thesis using assms(1) by simp
qed

lemma lanes_ok_counters [simp]:
  "lanes_ok (st\<lparr>ws_delivered := n\<rparr>) = lanes_ok st" "lanes_ok (st\<lparr>ws_failed := n\<rparr>) = lanes_ok st" "lanes_ok (st\<lparr>ws_dropped := n\<rparr>) = lanes_ok st"
  "lanes_ok (st\<lparr>ws_hub := h\<rparr>) = lanes_ok st" "lanes_ok (st\<lparr>ws_pending := es\<rparr>) = lanes_ok st" "lanes_ok (st\<lparr>ws_sub := a\<rparr>) = lanes_ok st"
  "lanes_ok (st\<lparr>ws_gap := g\<rparr>) = lanes_ok st" "lanes_ok (st\<lparr>ws_published := es\<rparr>) = lanes_ok st"
  by (simp_all add: lanes_ok_def offered_def)

lemma lanes_ok_begin: "lanes_ok st \<Longrightarrow> ws_phase st = Idle \<Longrightarrow> lanes_ok (begin_push ev st)"
  by (simp add: lanes_ok_def begin_push_def offered_def)

text \<open>A queue gets its turn: the others are not touched.\<close>

lemma lanes_ok_turn:
  assumes ok: "lanes_ok st" and ph: "pushing (ws_phase st) = Some ev" "\<And>j. served (ws_phase st) j = (j < i)"
    and f: "\<And>evs. lane_ok evs (ws_lanes st ! i) \<Longrightarrow> lane_ok (evs @ [ev]) (f (ws_lanes st ! i))"
  shows "lanes_ok (update_lane i f (st\<lparr>ws_phase := Offering (Suc i) ev\<rparr>))"
proof -
  have ne: "ws_pushed st \<noteq> []" "last (ws_pushed st) = ev" using ok ph(1) by (auto simp: lanes_ok_def)
  then have split: "butlast (ws_pushed st) @ [ev] = ws_pushed st" by (metis append_butlast_last_id)
  have L: "lane_ok (if j < i then ws_pushed st else butlast (ws_pushed st)) (ws_lanes st ! j)" if "j < length (ws_lanes st)" for j
    using ok that ph(2) by (auto simp: lanes_ok_def offered_def)
  have new: "lane_ok (ws_pushed st) (f (ws_lanes st ! i))" if "i < length (ws_lanes st)"
    using f [of "butlast (ws_pushed st)"] L [OF that] split by simp
  let ?st = "st\<lparr>ws_phase := Offering (Suc i) ev\<rparr>"
  have "lane_ok (offered ?st j) (ws_lanes (update_lane i f ?st) ! j)" if j: "j < length (ws_lanes st)" for j
  proof (cases "i < length (ws_lanes st)")
    case True
    then show ?thesis using new L [OF j] by (auto simp: update_lane_nth offered_def less_Suc_eq split: if_splits)
  next
    case False
    then have "update_lane i f ?st = ?st" by (simp add: update_lane_def list_update_beyond)
    then show ?thesis using L [OF j] j False by (simp add: offered_def)
  qed
  then show ?thesis using ne by (simp add: lanes_ok_def)
qed

lemma lanes_ok_forward: "lanes_ok st \<Longrightarrow> lanes_ok (forward st)"
proof -
  assume ok: "lanes_ok st"
  show ?thesis
  proof (cases "ws_phase st")
    case Idle
    then show ?thesis using ok
      by (auto simp: forward_def next_event_def split: list.split option.split prod.split intro!: lanes_ok_begin)
  next
    case (Offering i ev)
    show ?thesis
    proof (cases "i < length (ws_lanes st) \<and> length (ln_queue (ws_lanes st ! i)) < queue_cap")
      case True
      then show ?thesis using Offering lanes_ok_turn [OF ok, of ev i] lane_ok_enqueue by (auto simp: forward_def enqueue_def)
    next
      case False
      have L: "lane_ok (if j < i then ws_pushed st else butlast (ws_pushed st)) (ws_lanes st ! j)" if "j < length (ws_lanes st)" for j
        using ok that Offering by (auto simp: lanes_ok_def offered_def)
      have ev: "ws_pushed st \<noteq> [] \<and> last (ws_pushed st) = ev" using ok Offering by (simp add: lanes_ok_def)
      show ?thesis
      proof (cases "i < length (ws_lanes st)")
        case True
        have "lane_ok (ws_pushed st) (ws_lanes st ! j)" if "j < i" for j using L [of j] that True by simp
        moreover have "lane_ok (butlast (ws_pushed st)) (ws_lanes st ! j)" if "\<not> j < i" "j < length (ws_lanes st)" for j using L [of j] that by simp
        ultimately show ?thesis using True False Offering ev by (simp add: forward_def lanes_ok_def offered_def)
      next
        case out: False
        have "lane_ok (ws_pushed st) (ws_lanes st ! j)" if "j < length (ws_lanes st)" for j using L [OF that] that out by simp
        then show ?thesis using out Offering by (simp add: forward_def lanes_ok_def offered_def)
      qed
    qed
  next
    case (Draining i ev)
    have off: "offered (st\<lparr>ws_phase := Retrying i ev\<rparr>) = offered st" by (simp add: offered_def fun_eq_iff Draining)
    have dr: "lanes_ok (st\<lparr>ws_phase := Retrying i ev\<rparr>)" using ok Draining by (auto simp: lanes_ok_def off)
    show ?thesis
    proof (cases "ln_queue (ws_lanes st ! i)")
      case Nil
      then show ?thesis using dr Draining by (simp add: forward_def)
    next
      case (Cons x xs)
      have "lanes_ok (update_lane i (\<lambda>l. l\<lparr>ln_queue := xs, ln_lost := ln_lost l @ [x]\<rparr>) (st\<lparr>ws_phase := Retrying i ev, ws_dropped := ws_dropped st + 1\<rparr>))"
        using dr Cons lane_ok_drop_old by (intro lanes_ok_update) auto
      then show ?thesis using Draining Cons by (simp add: forward_def)
    qed
  next
    case (Retrying i ev)
    have sv: "pushing (ws_phase st) = Some ev" "served (ws_phase st) j = (j < i)" for j using Retrying by simp_all
    show ?thesis
    proof (cases "length (ln_queue (ws_lanes st ! i)) < queue_cap")
      case True
      then show ?thesis using Retrying lanes_ok_turn [OF ok sv] lane_ok_enqueue by (simp add: forward_def enqueue_def)
    next
      case False
      let ?st = "st\<lparr>ws_dropped := ws_dropped st + 1\<rparr>"
      have "lanes_ok ?st" "pushing (ws_phase ?st) = Some ev" "served (ws_phase ?st) j = (j < i)" for j using ok sv by simp_all
      then have "lanes_ok (update_lane i (\<lambda>l. l\<lparr>ln_lost := ln_lost l @ [ev]\<rparr>) (?st\<lparr>ws_phase := Offering (Suc i) ev\<rparr>))"
        by (rule lanes_ok_turn) (rule lane_ok_drop_new)
      moreover have "?st\<lparr>ws_phase := Offering (Suc i) ev\<rparr> = st\<lparr>ws_phase := Offering (Suc i) ev, ws_dropped := ws_dropped st + 1\<rparr>" by simp
      ultimately have "lanes_ok (update_lane i (\<lambda>l. l\<lparr>ln_lost := ln_lost l @ [ev]\<rparr>) (st\<lparr>ws_phase := Offering (Suc i) ev, ws_dropped := ws_dropped st + 1\<rparr>))" by metis
      then show ?thesis using Retrying False by (simp add: forward_def)
    qed
  qed
qed

lemma lanes_ok_act: "lanes_ok st \<Longrightarrow> lanes_ok (act_on s a st)"
proof (cases a)
  case (Take i)
  assume "lanes_ok st"
  then show ?thesis using Take by (auto simp: take_event_def split: list.split intro!: lanes_ok_update lane_ok_take)
next
  case (Finish i ans stop)
  assume "lanes_ok st"
  then show ?thesis using Finish by (auto simp: finish_event_def Let_def split: option.split intro!: lanes_ok_update lane_ok_finish)
qed (auto simp: lanes_ok_forward split: prod.split option.split)

lemma lanes_ok_start: "lanes_ok (start lst h n)"
  by (simp add: start_def lanes_ok_def offered_def lane_ok_def handled_def busy_list_def split: prod.split)

lemma lanes_ok_run: "lanes_ok st \<Longrightarrow> lanes_ok (fold (act_on s) acts st)"
  by (induction acts arbitrary: st) (simp_all add: lanes_ok_act)

subsection \<open>The stream of the forwarder\<close>

definition buffer :: "ws \<Rightarrow> Event list" where
  "buffer st = sb_C (hb_store (ws_hub st) ! ws_sub st)"

definition cut_off :: "ws \<Rightarrow> bool" where
  "cut_off st \<longleftrightarrow> sb_closed (hb_store (ws_hub st) ! ws_sub st)"

text \<open>What has been handed on and what is on its way is in the order of the ids; it is what was published, cut short only while the subscription is closed.\<close>

definition ordered :: "Event list \<Rightarrow> bool" where
  "ordered evs \<longleftrightarrow> sorted_wrt (\<lambda>a b. ev_ID a < ev_ID b) evs"

definition on_its_way :: "ws \<Rightarrow> Event list" where
  "on_its_way st = ws_pending st @ buffer st"

definition complete :: "ws \<Rightarrow> bool" where
  "complete st \<longleftrightarrow> (\<exists>rest. ws_published st = ws_pushed st @ on_its_way st @ rest \<and> (rest \<noteq> [] \<longrightarrow> cut_off st)) \<and>
     ws_last st = hb_nextID (ws_hub st) - int (length (ws_published st)) - 1 + int (length (ws_pushed st))"

definition history :: "Hub \<Rightarrow> Event list \<Rightarrow> bool" where
  "history h evs \<longleftrightarrow> (\<exists>pre d. ids_from (hb_nextID h - int (length (pre @ evs))) (pre @ evs) \<and> int (length (pre @ evs)) < hb_nextID h \<and> pre @ evs = d @ hb_ring h)"

definition stream_inv :: "ws \<Rightarrow> bool" where
  "stream_inv st \<longleftrightarrow> hub_inv (ws_hub st) \<and> ws_sub st < length (hb_store (ws_hub st)) \<and> ordered (ws_pushed st @ on_its_way st) \<and>
     (\<forall>e \<in> set (ws_pushed st). ev_ID e \<le> ws_last st) \<and> (\<forall>e \<in> set (on_its_way st). ws_last st < ev_ID e \<and> ev_ID e \<le> Last (ws_hub st)) \<and>
     ws_last st \<le> Last (ws_hub st) \<and> history (ws_hub st) (ws_published st) \<and> (\<not> ws_gap st \<longrightarrow> complete st)"

lemma ids_from_bound: "ids_from n es \<Longrightarrow> e \<in> set es \<Longrightarrow> n \<le> ev_ID e \<and> ev_ID e < n + int (length es)"
  by (induction es arbitrary: n) fastforce+

lemma ids_from_ordered: "ids_from n es \<Longrightarrow> ordered es"
  unfolding ordered_def by (induction es arbitrary: n) (use ids_from_bound in fastforce)+

text \<open>A new replay is exactly what followed, unless more was published than the hub remembers.\<close>

lemma replay_rest:
  assumes h: "hub_inv h" and all: "ids_from n all" "n + int (length all) = hb_nextID h" "1 \<le> n" "all = d @ hb_ring h"
    and lst: "Last h - lst \<le> int (hb_cap h)" "n - 1 \<le> lst"
  shows "filter (\<lambda>e. ev_ID e > lst) (hb_ring h) = drop (nat (lst + 1 - n)) all"
proof -
  have r: "length (hb_ring h) = min (hb_cap h) (nat (hb_nextID h - 1))" "1 \<le> hb_nextID h" using hub_inv_ringD [OF h] by blast+
  have d: "ids_from n d" "int (length d) + int (length (hb_ring h)) = hb_nextID h - n" using all by auto
  have "\<not> ev_ID e > lst" if "e \<in> set d" for e
  proof -
    have "ev_ID e < n + int (length d)" using ids_from_bound [OF d(1) that] by simp
    moreover have "0 < length d" using that by (cases d) auto
    moreover have "length (hb_ring h) = hb_cap h \<or> int (length (hb_ring h)) = hb_nextID h - 1" using r by linarith
    ultimately show ?thesis using d(2) all(3) lst(1) unfolding Last_def by linarith
  qed
  then have "filter (\<lambda>e. ev_ID e > lst) all = filter (\<lambda>e. ev_ID e > lst) (hb_ring h)" using all(4) by (simp add: filter_empty_conv)
  then show ?thesis using ids_from_filter [OF all(1)] by metis
qed

lemma history_publish: "history h evs \<Longrightarrow> Publish typ channel dat now h = (ev, h') \<Longrightarrow> history h' (evs @ [ev])"
proof -
  assume hist: "history h evs" and pub: "Publish typ channel dat now h = (ev, h')"
  obtain pre d where pd: "ids_from (hb_nextID h - int (length (pre @ evs))) (pre @ evs)" "int (length (pre @ evs)) < hb_nextID h" "pre @ evs = d @ hb_ring h"
    using hist unfolding history_def by blast
  note p = Publish_ring [OF pub]
  obtain d' where d': "hb_ring h @ [ev] = d' @ hb_ring h'" using p(4) by blast
  define all where "all = pre @ evs"
  have a: "ids_from (hb_nextID h - int (length all)) all" "int (length all) < hb_nextID h" "all = d @ hb_ring h" using pd by (simp_all only: all_def)
  have e: "all @ [ev] = (d @ d') @ hb_ring h'" using a(3) d' by simp
  have n: "hb_nextID h' - int (length (all @ [ev])) = hb_nextID h - int (length all)" using p(2) by simp
  have "ids_from (hb_nextID h' - int (length (all @ [ev]))) (all @ [ev])" unfolding n using a(1) p(1) by simp
  moreover have "int (length (all @ [ev])) < hb_nextID h'" using a(2) p(2) by simp
  ultimately have "ids_from (hb_nextID h' - int (length (all @ [ev]))) (all @ [ev]) \<and> int (length (all @ [ev])) < hb_nextID h' \<and> all @ [ev] = (d @ d') @ hb_ring h'"
    using e by blast
  then show "history h' (evs @ [ev])" unfolding history_def all_def by - (rule exI [of _ pre], rule exI [of _ "d @ d'"], unfold append_assoc, assumption)
qed

lemma stream_publish:
  assumes ok: "stream_inv st"
  shows "stream_inv (act_on s (Pub ty channel dat now) st)"
proof -
  obtain ev h where pub: "Publish ty channel dat now (ws_hub st) = (ev, h)" by fastforce
  let ?h0 = "ws_hub st" let ?a = "ws_sub st"
  let ?st = "st\<lparr>ws_hub := h, ws_published := ws_published st @ [ev]\<rparr>"
  have inv: "hub_inv ?h0" "?a < length (hb_store ?h0)" using ok by (auto simp: stream_inv_def)
  note sto = Publish_store [OF inv(1) pub inv(2)] and ring = Publish_ring [OF pub]
  have h: "hub_inv h" using Publish_inv [OF inv(1), of ty channel dat now] pub by simp
  have lastn: "Last h = Last ?h0 + 1" using ring(2) by (simp add: Last_def)
  have b: "buffer ?st = buffer st \<and> (cut_off ?st \<longleftrightarrow> cut_off st \<or> \<not> length (buffer st) < chan_cap) \<or>
      buffer ?st = buffer st @ [ev] \<and> \<not> cut_off st \<and> \<not> cut_off ?st"
    using sto inv(2) by (auto simp: buffer_def cut_off_def offer_def closeLocked_def Let_def)
  have evid: "ev_ID ev = Last ?h0 + 1" using ring(1) by (simp add: Last_def)
  have "ordered (ws_pushed ?st @ on_its_way ?st)"
    using b ok evid by (force simp: ordered_def on_its_way_def stream_inv_def sorted_wrt_append)
  moreover have "\<forall>e \<in> set (on_its_way ?st). ws_last ?st < ev_ID e \<and> ev_ID e \<le> Last h"
    using b ok evid lastn by (force simp: on_its_way_def stream_inv_def)
  moreover have "complete ?st" if ng: "\<not> ws_gap st"
  proof -
    obtain rest where r: "ws_published st = ws_pushed st @ on_its_way st @ rest" "rest \<noteq> [] \<longrightarrow> cut_off st"
      "ws_last st = hb_nextID ?h0 - int (length (ws_published st)) - 1 + int (length (ws_pushed st))"
      using ok ng by (auto simp: stream_inv_def complete_def)
    show ?thesis using b
    proof
      assume "buffer ?st = buffer st \<and> (cut_off ?st \<longleftrightarrow> cut_off st \<or> \<not> length (buffer st) < chan_cap)"
      moreover have "cut_off st \<or> \<not> length (buffer st) < chan_cap"
        using calculation sto(1) inv(2) by (auto simp: buffer_def cut_off_def offer_def Let_def)
      ultimately show ?thesis using r ring(2) by (auto simp: complete_def on_its_way_def)
    next
      assume "buffer ?st = buffer st @ [ev] \<and> \<not> cut_off st \<and> \<not> cut_off ?st"
      then show ?thesis using r ring(2) by (auto simp: complete_def on_its_way_def)
    qed
  qed
  moreover have "history h (ws_published ?st)" using history_publish [OF _ pub] ok by (simp add: stream_inv_def)
  ultimately have "stream_inv ?st" using ok h sto(2) lastn by (auto simp: stream_inv_def)
  then show ?thesis by (simp add: pub)
qed

text \<open>What other clients do to the hub does not touch the subscription of the forwarder.\<close>

lemma stream_other:
  assumes ok: "stream_inv st" and h: "hub_inv h" "hb_nextID h = hb_nextID (ws_hub st)" "hb_ring h = hb_ring (ws_hub st)"
    "length (hb_store (ws_hub st)) \<le> length (hb_store h)" "hb_store h ! ws_sub st = hb_store (ws_hub st) ! ws_sub st"
  shows "stream_inv (st\<lparr>ws_hub := h\<rparr>)"
proof -
  let ?st = "st\<lparr>ws_hub := h\<rparr>"
  have "buffer ?st = buffer st" "cut_off ?st = cut_off st" using h(5) by (simp_all add: buffer_def cut_off_def)
  moreover have "Last h = Last (ws_hub st)" "history h evs = history (ws_hub st) evs" for evs using h(2,3) by (simp_all add: Last_def history_def)
  ultimately show ?thesis using ok h by (auto simp: stream_inv_def on_its_way_def complete_def)
qed

lemma recv_frame: "recv b h = Some (e, h') \<Longrightarrow> hb_nextID h' = hb_nextID h \<and> hb_ring h' = hb_ring h \<and> hb_cap h' = hb_cap h \<and>
    length (hb_store h') = length (hb_store h) \<and> (\<forall>a. a \<noteq> b \<longrightarrow> hb_store h' ! a = hb_store h ! a)"
  by (auto simp: recv_def split: if_splits list.splits)

lemma stream_others:
  assumes ok: "stream_inv st"
  shows "stream_inv (act_on s (OtherSubscribe after) st)" "stream_inv (act_on s (OtherRecv b) st)" "stream_inv (act_on s (OtherClose b) st)"
proof -
  have inv: "hub_inv (ws_hub st)" "ws_sub st < length (hb_store (ws_hub st))" using ok by (auto simp: stream_inv_def)
  show "stream_inv (act_on s (OtherSubscribe after) st)"
    using Subscribe_inv [OF inv(1)] inv(2) by (auto simp: Subscribe_def nth_append intro!: stream_other [OF ok])
  show "stream_inv (act_on s (OtherRecv b) st)"
    using recv_inv [OF inv(1)] recv_frame [of b "ws_hub st"] ok by (auto split: option.split intro!: stream_other [OF ok])
  have "hb_store (Close b (ws_hub st)) ! ws_sub st = hb_store (ws_hub st) ! ws_sub st" if "b \<noteq> ws_sub st"
    using that by (simp add: Close_def closeLocked_def Let_def)
  then show "stream_inv (act_on s (OtherClose b) st)"
    using Close_inv [OF inv(1), of b] ok by (auto simp: Close_def closeLocked_def Let_def intro!: stream_other [OF ok])
qed

text \<open>The steps that do not concern the hub.\<close>

lemma stream_frame:
  assumes "stream_inv st" "ws_hub st' = ws_hub st" "ws_last st' = ws_last st" "ws_sub st' = ws_sub st" "ws_pending st' = ws_pending st"
    "ws_pushed st' = ws_pushed st" "ws_published st' = ws_published st" "ws_gap st' = ws_gap st"
  shows "stream_inv st'"
  using assms by (simp add: stream_inv_def complete_def on_its_way_def buffer_def cut_off_def)

lemma stream_push:
  assumes ok: "stream_inv st" and ev: "on_its_way st = ev # es"
    and st': "ws_pushed st' = ws_pushed st @ [ev]" "on_its_way st' = es" "ws_last st' = ev_ID ev" "cut_off st' = cut_off st"
      "hub_inv (ws_hub st')" "ws_sub st' < length (hb_store (ws_hub st'))" "hb_nextID (ws_hub st') = hb_nextID (ws_hub st)" "hb_ring (ws_hub st') = hb_ring (ws_hub st)"
      "ws_published st' = ws_published st" "ws_gap st' = ws_gap st"
  shows "stream_inv st'"
proof -
  have o: "ordered (ws_pushed st @ ev # es)" using ok ev by (simp add: stream_inv_def)
  have last: "Last (ws_hub st') = Last (ws_hub st)" "history (ws_hub st') evs = history (ws_hub st) evs" for evs using st'(7,8) by (simp_all add: Last_def history_def)
  have "\<forall>e \<in> set es. ev_ID ev < ev_ID e" using o by (simp add: ordered_def sorted_wrt_append)
  moreover have "\<forall>e \<in> set (ws_pushed st'). ev_ID e \<le> ev_ID ev" using o st'(1) by (fastforce simp: ordered_def sorted_wrt_append)
  moreover have "\<forall>e \<in> set es. ev_ID e \<le> Last (ws_hub st)" "ev_ID ev \<le> Last (ws_hub st)" using ok ev by (auto simp: stream_inv_def)
  moreover have "complete st'" if ng: "\<not> ws_gap st"
  proof -
    have c: "complete st" using ok ng by (simp add: stream_inv_def)
    then obtain rest where r: "ws_published st = ws_pushed st @ ev # es @ rest" "rest \<noteq> [] \<longrightarrow> cut_off st"
      using ev by (auto simp: complete_def)
    obtain pre where "ids_from (hb_nextID (ws_hub st) - int (length (pre @ ws_published st))) (pre @ ws_published st)"
      using ok by (auto simp: stream_inv_def history_def)
    then have "ids_from (hb_nextID (ws_hub st) - int (length (ws_published st))) (ws_published st)" by (simp add: algebra_simps)
    then have "ev_ID ev = hb_nextID (ws_hub st) - int (length (ws_published st)) + int (length (ws_pushed st))"
      using r(1) by (simp add: algebra_simps)
    then show ?thesis using r st' by (auto simp: complete_def)
  qed
  ultimately show ?thesis using ok o st' last by (simp add: stream_inv_def)
qed

lemma stream_resubscribe:
  assumes ok: "stream_inv st" and empty: "on_its_way st = []" and sub: "Subscribe (ws_last st) (ws_hub st) = (replay, a, h)"
  shows "stream_inv (st\<lparr>ws_hub := h, ws_sub := a, ws_pending := replay,
    ws_gap := ws_gap st \<or> Last (ws_hub st) - ws_last st > int (hb_cap (ws_hub st))\<rparr>)" (is "stream_inv ?st")
proof -
  let ?h = "ws_hub st"
  have inv: "hub_inv ?h" using ok by (simp add: stream_inv_def)
  have replay: "replay = filter (\<lambda>e. ev_ID e > ws_last st) (hb_ring ?h)" and a: "a = length (hb_store ?h)"
    and h: "h = ?h\<lparr>hb_store := hb_store ?h @ [\<lparr>sb_C = [], sb_closed = False\<rparr>], hb_subs := hb_subs ?h @ [a]\<rparr>"
    using sub by (auto simp: Subscribe_def)
  have way: "on_its_way ?st = replay" "\<not> cut_off ?st" by (simp_all add: on_its_way_def buffer_def cut_off_def h a)
  have ring: "ids_from (hb_nextID ?h - int (length (hb_ring ?h))) (hb_ring ?h)" using hub_inv_ringD [OF inv] by blast
  have "ordered (hb_ring ?h)" by (rule ids_from_ordered [OF ring])
  then have "ordered replay" unfolding replay ordered_def by (rule sorted_wrt_filter)
  moreover have new: "\<forall>e \<in> set replay. ws_last st < ev_ID e \<and> ev_ID e \<le> Last ?h"
    using ids_from_bound [OF ring] by (auto simp: replay Last_def)
  ultimately have "ordered (ws_pushed st @ replay)"
    using ok empty by (force simp: stream_inv_def ordered_def sorted_wrt_append)
  moreover have "complete ?st" if ng: "\<not> ws_gap ?st"
  proof -
    have c: "complete st" and lapped: "Last ?h - ws_last st \<le> int (hb_cap ?h)" using ok ng by (auto simp: stream_inv_def)
    obtain rest where r: "ws_published st = ws_pushed st @ rest" "ws_last st = hb_nextID ?h - int (length (ws_published st)) - 1 + int (length (ws_pushed st))"
      using c empty by (auto simp: complete_def)
    obtain pre d where pd: "ids_from (hb_nextID ?h - int (length (pre @ ws_published st))) (pre @ ws_published st)"
      "int (length (pre @ ws_published st)) < hb_nextID ?h" "pre @ ws_published st = d @ hb_ring ?h"
      using ok unfolding stream_inv_def history_def by blast
    let ?n = "hb_nextID ?h - int (length (pre @ ws_published st))"
    have "?n + int (length (pre @ ws_published st)) = hb_nextID ?h" "1 \<le> ?n" "?n - 1 \<le> ws_last st" using pd(2) r(2) by simp_all
    then have "replay = drop (nat (ws_last st + 1 - ?n)) (pre @ ws_published st)"
      unfolding replay using replay_rest [OF inv pd(1) _ _ pd(3) lapped] by blast
    moreover have "nat (ws_last st + 1 - ?n) = length (pre @ ws_pushed st)" using r(2) by simp
    ultimately have "replay = rest" using r(1) by simp
    then show ?thesis using r way by (auto simp: complete_def h)
  qed
  moreover have "hub_inv h" by (rule Subscribe_inv [OF inv sub])
  ultimately show ?thesis using ok new way by (auto simp: stream_inv_def h a Last_def history_def)
qed

lemma stream_forward: "stream_inv st \<Longrightarrow> stream_inv (forward st)"
proof -
  assume ok: "stream_inv st"
  have inv: "hub_inv (ws_hub st)" "ws_sub st < length (hb_store (ws_hub st))" using ok by (auto simp: stream_inv_def)
  show ?thesis
  proof (cases "ws_phase st")
    case Idle
    show ?thesis
    proof (cases "ws_pending st")
      case (Cons ev evs)
      then show ?thesis using Idle inv
        by (auto simp: forward_def next_event_def begin_push_def on_its_way_def buffer_def cut_off_def intro!: stream_push [OF ok, of ev "evs @ buffer st"])
    next
      case Nil
      show ?thesis
      proof (cases "recv (ws_sub st) (ws_hub st)")
        case (Some r)
        obtain ev h where r: "recv (ws_sub st) (ws_hub st) = Some (ev, h)" using Some by (cases r) auto
        then obtain es where es: "buffer st = ev # es" "sb_C (hb_store h ! ws_sub st) = es" "sb_closed (hb_store h ! ws_sub st) = cut_off st"
          using inv(2) by (auto simp: recv_def buffer_def cut_off_def split: list.splits)
        have h: "hub_inv h" "ws_sub st < length (hb_store h)" using recv_inv [OF inv(1) r] recv_frame [OF r] inv(2) by simp_all
        have f: "forward st = begin_push ev (st\<lparr>ws_hub := h\<rparr>)" using Nil Idle r by (simp add: forward_def next_event_def)
        show ?thesis unfolding f
          by (rule stream_push [OF ok, of ev es]) (use Nil es h recv_frame [OF r] in \<open>simp_all add: begin_push_def on_its_way_def buffer_def cut_off_def\<close>)
      next
        case None
        then have "on_its_way st = []" using Nil inv(2) by (auto simp: recv_def on_its_way_def buffer_def split: list.splits)
        then show ?thesis using Nil None Idle ok stream_resubscribe [OF ok]
          by (auto simp: forward_def next_event_def split: prod.split)
      qed
    qed
  next
    case (Offering i ev)
    then show ?thesis by (intro stream_frame [OF ok]) (auto simp: forward_def enqueue_def)
  next
    case (Draining i ev)
    then show ?thesis by (intro stream_frame [OF ok]) (auto simp: forward_def split: list.split)
  next
    case (Retrying i ev)
    then show ?thesis by (intro stream_frame [OF ok]) (auto simp: forward_def enqueue_def)
  qed
qed

lemma stream_act: "stream_inv st \<Longrightarrow> stream_inv (act_on s a st)"
proof (cases a)
  case (Pub ty channel dat now)
  then show "stream_inv st \<Longrightarrow> stream_inv (act_on s a st)" using stream_publish by blast
next
  case (Take i)
  then show "stream_inv st \<Longrightarrow> stream_inv (act_on s a st)"
    by (elim stream_frame) (auto simp: take_event_def split: list.split)
next
  case (Finish i ans stop)
  then show "stream_inv st \<Longrightarrow> stream_inv (act_on s a st)"
    by (elim stream_frame) (auto simp: finish_event_def Let_def split: option.split)
qed (simp_all only: stream_others, simp add: stream_forward)

lemma stream_start:
  assumes "hub_inv h" "0 \<le> lst" "lst \<le> Last h"
  shows "stream_inv (start lst h n)"
proof -
  obtain replay a h' where sub: "Subscribe lst h = (replay, a, h')" by (metis surj_pair)
  have replay: "replay = filter (\<lambda>e. ev_ID e > lst) (hb_ring h)" and a: "a = length (hb_store h)"
    and h': "h' = h\<lparr>hb_store := hb_store h @ [\<lparr>sb_C = [], sb_closed = False\<rparr>], hb_subs := hb_subs h @ [a]\<rparr>"
    using sub by (auto simp: Subscribe_def)
  note r = hub_inv_ringD [OF assms(1)]
  then have ring: "ids_from (hb_nextID h - int (length (hb_ring h))) (hb_ring h)" by blast
  have "ordered replay" unfolding replay ordered_def using ids_from_ordered [OF ring] unfolding ordered_def by (rule sorted_wrt_filter)
  moreover have "\<forall>e \<in> set replay. lst < ev_ID e \<and> ev_ID e \<le> Last h" using ids_from_bound [OF ring] by (auto simp: replay Last_def)
  moreover have "history h' replay"
  proof -
    obtain pre where "hb_ring h = pre @ replay" using Subscribe_replay(1) [OF assms(1) sub assms(3)] by blast
    moreover have "int (length (hb_ring h)) < hb_nextID h" using r by auto
    ultimately show ?thesis using ring unfolding history_def h' by (intro exI [of _ pre] exI [of _ "[]"]) simp
  qed
  moreover have "int (length replay) = Last h - lst" if "Last h - lst \<le> int (hb_cap h)"
    using Subscribe_replay(2) [OF assms(1) sub assms(3)] r that assms(2) by (auto simp: Last_def min_def split: if_splits)
  moreover have "hub_inv h'" by (rule Subscribe_inv [OF assms(1) sub])
  ultimately show ?thesis
    using assms(3) by (auto simp: start_def sub stream_inv_def on_its_way_def buffer_def complete_def h' a Last_def)
qed

lemma stream_run: "stream_inv st \<Longrightarrow> stream_inv (fold (act_on s) acts st)"
  by (induction acts arbitrary: st) (simp_all add: stream_act)

subsection \<open>Counting\<close>

definition lane_sum :: "(lane \<Rightarrow> nat) \<Rightarrow> ws \<Rightarrow> nat" where
  "lane_sum f st = sum_list (map f (ws_lanes st))"

definition counted :: "ws \<Rightarrow> bool" where
  "counted st \<longleftrightarrow> ws_delivered st = lane_sum (\<lambda>l. length (filter snd (ln_log l))) st \<and>
     ws_failed st = lane_sum (\<lambda>l. length (filter (\<lambda>x. \<not> snd x) (ln_log l))) st \<and> ws_dropped st = lane_sum (\<lambda>l. length (ln_lost l)) st"

lemma lane_sum_update: "i < length (ws_lanes st) \<Longrightarrow> lane_sum f (update_lane i g st) + f (ws_lanes st ! i) = lane_sum f st + f (g (ws_lanes st ! i))"
proof -
  have "i < length xs \<Longrightarrow> sum_list (map f (xs[i := g (xs ! i)])) + f (xs ! i) = sum_list (map f xs) + f (g (xs ! i))" for xs
    by (induction xs arbitrary: i) (auto split: nat.split)
  then show "i < length (ws_lanes st) \<Longrightarrow> lane_sum f (update_lane i g st) + f (ws_lanes st ! i) = lane_sum f st + f (g (ws_lanes st ! i))"
    by (simp add: lane_sum_def update_lane_def)
qed

lemma lane_sum_keep: "(\<And>l. l = ws_lanes st ! i \<Longrightarrow> f (g l) = f l) \<Longrightarrow> lane_sum f (update_lane i g st) = lane_sum f st"
proof (cases "i < length (ws_lanes st)")
  case True
  then show "(\<And>l. l = ws_lanes st ! i \<Longrightarrow> f (g l) = f l) \<Longrightarrow> ?thesis" using lane_sum_update [OF True, of f g] by simp
qed (simp add: update_lane_def list_update_beyond)

lemma lane_sum_cong: "ws_lanes st' = ws_lanes st \<Longrightarrow> lane_sum f st' = lane_sum f st"
  by (simp add: lane_sum_def)

lemma update_lane_counters [simp]:
  "ws_delivered (update_lane i f st) = ws_delivered st" "ws_failed (update_lane i f st) = ws_failed st" "ws_dropped (update_lane i f st) = ws_dropped st"
  by (simp_all add: update_lane_def)

lemma counted_frame:
  assumes "counted st" "ws_lanes st' = ws_lanes st" "ws_delivered st' = ws_delivered st" "ws_failed st' = ws_failed st" "ws_dropped st' = ws_dropped st"
  shows "counted st'"
  using assms lane_sum_cong [OF assms(2)] by (simp add: counted_def)

lemma counted_update:
  assumes "counted st" "\<And>l. l = ws_lanes st ! i \<Longrightarrow> ln_log (f l) = ln_log l \<and> ln_lost (f l) = ln_lost l"
  shows "counted (update_lane i f st)"
  using assms by (simp add: counted_def lane_sum_keep)

lemma counted_enqueue: "counted st \<Longrightarrow> counted (enqueue i ev st)"
  unfolding enqueue_def by (rule counted_update) (auto elim: counted_frame)

lemma counted_lost:
  assumes "counted st" "i < length (ws_lanes st)" "\<And>l. l = ws_lanes st ! i \<Longrightarrow> ln_log (f l) = ln_log l \<and> length (ln_lost (f l)) = length (ln_lost l) + 1"
    "ws_lanes st' = ws_lanes st" "ws_delivered st' = ws_delivered st" "ws_failed st' = ws_failed st" "ws_dropped st' = ws_dropped st + 1"
  shows "counted (update_lane i f st')"
  using assms lane_sum_update [of i st' "\<lambda>l. length (ln_lost l)" f]
  by (simp add: counted_def lane_sum_keep lane_sum_cong [OF assms(4)])

lemma counted_forward: "counted st \<Longrightarrow> lanes_ok st \<Longrightarrow> counted (forward st)"
proof -
  assume ok: "counted st" and lanes: "lanes_ok st"
  show ?thesis
  proof (cases "ws_phase st")
    case Idle
    then show ?thesis
      by (intro counted_frame [OF ok]) (auto simp: forward_def next_event_def begin_push_def split: list.split option.split prod.split)
  next
    case (Offering i ev)
    then show ?thesis using ok by (auto simp: forward_def intro: counted_enqueue counted_frame)
  next
    case (Draining i ev)
    then have "i < length (ws_lanes st)" using lanes by (simp add: lanes_ok_def)
    then show ?thesis using ok Draining by (auto simp: forward_def split: list.split intro: counted_frame counted_lost)
  next
    case (Retrying i ev)
    then have "i < length (ws_lanes st)" using lanes by (simp add: lanes_ok_def)
    then show ?thesis using ok Retrying by (auto simp: forward_def intro: counted_enqueue counted_lost)
  qed
qed

lemma counted_finish: "counted st \<Longrightarrow> counted (finish_event s i ans stop st)"
proof -
  assume ok: "counted st"
  show ?thesis
  proof (cases "i < length (ws_lanes st) \<and> ln_busy (ws_lanes st ! i) \<noteq> None")
    case True
    then obtain ev where i: "i < length (ws_lanes st)" "ln_busy (ws_lanes st ! i) = Some ev" by auto
    let ?f = "\<lambda>l. l\<lparr>ln_busy := None, ln_log := ln_log l @ [(ev, fst (deliver s ans stop) = None)]\<rparr>"
    have "lane_sum (\<lambda>l. length (ln_lost l)) (update_lane i ?f st) = lane_sum (\<lambda>l. length (ln_lost l)) st" by (rule lane_sum_keep) simp
    then show ?thesis
      using ok i lane_sum_update [OF i(1), of "\<lambda>l. length (filter snd (ln_log l))" ?f]
        lane_sum_update [OF i(1), of "\<lambda>l. length (filter (\<lambda>x. \<not> snd x) (ln_log l))" ?f]
      by (auto simp: finish_event_def Let_def counted_def lane_sum_cong [of "_\<lparr>ws_delivered := _\<rparr>"] lane_sum_cong [of "_\<lparr>ws_failed := _\<rparr>"])
  next
    case False
    then show ?thesis using ok by (auto simp: finish_event_def)
  qed
qed

lemma counted_act: "counted st \<Longrightarrow> lanes_ok st \<Longrightarrow> counted (act_on s a st)"
proof (cases a)
  case (Take i)
  then show "counted st \<Longrightarrow> ?thesis" by (auto simp: take_event_def split: list.split intro!: counted_update)
next
  case (Finish i ans stop)
  then show "counted st \<Longrightarrow> ?thesis" by (simp add: counted_finish)
next
  case Forward
  then show "counted st \<Longrightarrow> lanes_ok st \<Longrightarrow> ?thesis" by (simp add: counted_forward)
qed (auto split: prod.split option.split elim: counted_frame)

lemma lanes_length: "length (ws_lanes (fold (act_on s) acts st)) = length (ws_lanes st)"
proof -
  have fw: "length (ws_lanes (forward st)) = length (ws_lanes st)" for st
    by (auto simp: forward_def enqueue_def next_event_def begin_push_def split: phase.split list.split option.split prod.split)
  have "length (ws_lanes (act_on s a st)) = length (ws_lanes st)" for a st
    by (cases a) (auto simp: fw take_event_def finish_event_def Let_def split: list.split option.split prod.split)
  then show ?thesis by (induction acts arbitrary: st) simp_all
qed

lemma counted_run: "counted st \<Longrightarrow> lanes_ok st \<Longrightarrow> counted (fold (act_on s) acts st)"
  by (induction acts arbitrary: st) (simp_all add: counted_act lanes_ok_act)

lemma counted_start: "counted (start lst h n)"
  by (simp add: start_def counted_def lane_sum_def sum_list_replicate split: prod.split)

subsection \<open>What the webhooks promise\<close>

text \<open>C39. Every endpoint gets the events in order and none twice. Whatever the engine publishes, however slowly workers and forwarder
  run against each other, and even when the hub cuts the forwarder off: what an endpoint was sent, is being sent and
  has waiting is a subsequence of what was pushed, the pushed events have growing ids, and as long as the hub still remembers
  everything when the forwarder comes back, nothing that was published is skipped: pushed and on its way is exactly what was
  published, cut short only until the forwarder notices that it was cut off.\<close>

theorem webhooks_in_order:
  assumes "hub_inv h" "0 \<le> lst" "lst \<le> Last h"
  shows "let st = fold (act_on s) acts (start lst h n) in
    (\<forall>l \<in> set (ws_lanes st). subseq (handled l) (ws_pushed st)) \<and> ordered (ws_pushed st) \<and>
    (ws_gap st \<or> (\<exists>rest. ws_published st = ws_pushed st @ on_its_way st @ rest \<and> (rest \<noteq> [] \<longrightarrow> cut_off st)))"
proof -
  define st where "st = fold (act_on s) acts (start lst h n)"
  have lanes: "lanes_ok st" unfolding st_def by (rule lanes_ok_run [OF lanes_ok_start])
  have inv: "stream_inv st" unfolding st_def by (rule stream_run [OF stream_start [OF assms]])
  have "subseq (handled l) (ws_pushed st)" if l: "l \<in> set (ws_lanes st)" for l
  proof -
    obtain i where i: "i < length (ws_lanes st)" "l = ws_lanes st ! i" using l by (auto simp: in_set_conv_nth)
    then have "subseq (handled l) (offered st i)" using lanes by (simp add: lanes_ok_def lane_ok_def)
    moreover have "subseq (offered st i) (ws_pushed st)"
      by (cases "ws_pushed st" rule: rev_cases) (simp_all add: offered_def subseq_rev_drop_many)
    ultimately show ?thesis by (rule subseq_order.trans)
  qed
  moreover have "ordered (ws_pushed st)" using inv by (auto simp: stream_inv_def ordered_def sorted_wrt_append)
  moreover have "ws_gap st \<or> (\<exists>rest. ws_published st = ws_pushed st @ on_its_way st @ rest \<and> (rest \<noteq> [] \<longrightarrow> cut_off st))"
    using inv by (auto simp: stream_inv_def complete_def)
  ultimately show ?thesis unfolding st_def [symmetric] by (simp add: Let_def)
qed

text \<open>C40. No event gets lost without being counted, and no endpoint holds another one up. No queue is ever longer than 512 events, and
  between two pushes the three counters and the events that are queued or being delivered add up to the number
  of pushed events, for every endpoint: each of them was delivered, failed, was dropped, or is still waiting.\<close>

theorem webhooks_accounted:
  "let st = fold (act_on s) acts (start lst h n) in
   (\<forall>l \<in> set (ws_lanes st). length (ln_queue l) \<le> queue_cap) \<and>
   (ws_phase st = Idle \<longrightarrow> ws_delivered st + ws_failed st + ws_dropped st + lane_sum (\<lambda>l. length (busy_list l) + length (ln_queue l)) st = n * length (ws_pushed st))"
proof -
  define st where "st = fold (act_on s) acts (start lst h n)"
  have lanes: "lanes_ok st" unfolding st_def by (rule lanes_ok_run [OF lanes_ok_start])
  have cnt: "counted st" unfolding st_def by (rule counted_run [OF counted_start lanes_ok_start])
  have n: "length (ws_lanes st) = n" unfolding st_def lanes_length by (simp add: start_def split: prod.split)
  have all: "lane_ok (offered st i) (ws_lanes st ! i)" if "i < length (ws_lanes st)" for i using lanes that by (simp add: lanes_ok_def)
  have "ws_delivered st + ws_failed st + ws_dropped st + lane_sum (\<lambda>l. length (busy_list l) + length (ln_queue l)) st = n * length (ws_pushed st)"
    if idle: "ws_phase st = Idle"
  proof -
    let ?f = "\<lambda>l. length (filter snd (ln_log l)) + length (filter (\<lambda>x. \<not> snd x) (ln_log l)) + length (ln_lost l) + (length (busy_list l) + length (ln_queue l))"
    have "?f l = length (ws_pushed st)" if l: "l \<in> set (ws_lanes st)" for l
    proof -
      obtain i where i: "i < length (ws_lanes st)" "l = ws_lanes st ! i" using l by (auto simp: in_set_conv_nth)
      have "mset (handled l) + mset (ln_lost l) = mset (ws_pushed st)" using all [OF i(1)] i(2) idle by (simp add: lane_ok_def offered_def)
      from arg_cong [OF this, of size] have "length (handled l) + length (ln_lost l) = length (ws_pushed st)" by simp
      then show ?thesis using sum_length_filter_compl [of snd "ln_log l"] by (simp add: handled_def)
    qed
    then have "sum_list (map ?f (ws_lanes st)) = sum_list (map (\<lambda>l. length (ws_pushed st)) (ws_lanes st))"
      by (intro arg_cong [of _ _ sum_list] map_cong) auto
    also have "\<dots> = n * length (ws_pushed st)" using n by (simp add: sum_list_triv)
    finally show ?thesis using cnt by (simp add: counted_def lane_sum_def sum_list_addf)
  qed
  moreover have "length (ln_queue l) \<le> queue_cap" if "l \<in> set (ws_lanes st)" for l
    using that all by (auto simp: in_set_conv_nth lane_ok_def)
  ultimately show ?thesis unfolding st_def [symmetric] by (simp add: Let_def)
qed

text \<open>An accepted list of endpoints has only HTTP URLs.\<close>

lemma ParseEndpoints_http: "ParseEndpoints s = Inr eps \<Longrightarrow> \<forall>e \<in> set eps. http_url (ep_URL e)"
proof -
  have "endpoint_loop ps out = Inr eps \<Longrightarrow> \<forall>e \<in> set out. http_url (ep_URL e) \<Longrightarrow> \<forall>e \<in> set eps. http_url (ep_URL e)" for ps out
    by (induction ps out rule: endpoint_loop.induct) (auto simp: Let_def split: if_splits prod.splits)
  then show "ParseEndpoints s = Inr eps \<Longrightarrow> \<forall>e \<in> set eps. http_url (ep_URL e)" by (simp add: ParseEndpoints_def)
qed

subsection \<open>Witnesses\<close>

definition w_sender :: Sender where
  "w_sender = defaults \<lparr>sd_Retries = 0, sd_Backoff = 0, sd_Timeout = 0\<rparr>"

lemma w_sender: "sd_Retries w_sender = 5" "sd_Backoff w_sender = second"
  by (simp_all add: w_sender_def defaults_def Let_def)

text \<open>A receiver that comes back at the third attempt: three requests and three seconds of pauses; with the defaults, never more than six requests and 31 seconds.\<close>

theorem delivery_bounded_witness:
  "let (e, acts) = deliver w_sender (\<lambda>n. if n < 2 then Status 503 else Status 200) (\<lambda>_. False) in
     e = None \<and> posts acts \<le> 6 \<and> waited acts \<le> 31 * second"
proof -
  let ?ans = "\<lambda>n. if n < 2 then Status 503 else Status 200" let ?d = "deliver w_sender ?ans (\<lambda>_. False)"
  have h: "0 \<le> sd_Backoff w_sender" "0 \<le> sd_Retries w_sender" "sd_Backoff w_sender * 2 ^ nat (sd_Retries w_sender) < 2 ^ 63"
    by (simp_all add: w_sender)
  have "\<exists>m. int m \<le> sd_Retries w_sender \<and> (\<forall>i < m. try_again (?ans i)) \<and> (\<forall>i. 0 < i \<and> i \<le> m \<longrightarrow> \<not> False) \<and> is_success (?ans m)"
    by (intro exI [of _ 2]) (simp add: w_sender try_again_def is_success_def retryable_def)
  then have "fst ?d = None \<and> posts (snd ?d) \<le> 6 \<and> waited (snd ?d) \<le> 31 * second"
    using delivery_bounded [OF h, of ?ans "\<lambda>_. False"] by (simp add: w_sender)
  then show ?thesis by (simp add: split_beta)
qed

definition w_actions :: "action list" where
  "w_actions = [Pub ''break.started'' ''c1'' [] 0, Pub ''break.ended'' ''c1'' [] 0, Forward, Forward, Take 0, Forward, Forward, Finish 0 (\<lambda>_. Status 200) (\<lambda>_. False), Forward, Forward]"

theorem webhooks_in_order_witness:
  "let st = fold (act_on w_sender) w_actions (start 0 (NewHub 10) 1) in
    map ev_ID (ws_pushed st) = [1, 2] \<and> (\<forall>l \<in> set (ws_lanes st). subseq (handled l) (ws_pushed st)) \<and> ordered (ws_pushed st)"
proof -
  have "0 \<le> Last (NewHub 10)" by (simp add: Last_def NewHub_def)
  note p = webhooks_in_order [OF hub_inv_new order_refl this, of w_sender w_actions 1]
  have good: "fst (deliver w_sender (\<lambda>_. Status 200) (\<lambda>_. False)) = None"
    by (simp add: deliver_def deliver_loop_success reaches_def w_sender is_success_def) (intro exI [of _ 0], simp)
  have "map ev_ID (ws_pushed (fold (act_on w_sender) w_actions (start 0 (NewHub 10) 1))) = [1, 2]"
    by (simp add: w_actions_def start_def Subscribe_def NewHub_def Publish_def offer_def chan_cap_def Let_def forward_def next_event_def recv_def
        begin_push_def enqueue_def update_lane_def queue_cap_def take_event_def finish_event_def good)
  then show ?thesis using p by (simp add: Let_def)
qed

theorem webhooks_accounted_witness:
  "let st = fold (act_on w_sender) w_actions (start 0 (NewHub 10) 1) in
    ws_delivered st + ws_failed st + ws_dropped st + lane_sum (\<lambda>l. length (busy_list l) + length (ln_queue l)) st = length (ws_pushed st)"
proof -
  have good: "fst (deliver w_sender (\<lambda>_. Status 200) (\<lambda>_. False)) = None"
    by (simp add: deliver_def deliver_loop_success reaches_def w_sender is_success_def) (intro exI [of _ 0], simp)
  have "ws_phase (fold (act_on w_sender) w_actions (start 0 (NewHub 10) 1)) = Idle"
    by (simp add: w_actions_def start_def Subscribe_def NewHub_def Publish_def offer_def chan_cap_def Let_def forward_def next_event_def recv_def
        begin_push_def enqueue_def update_lane_def queue_cap_def take_event_def finish_event_def good)
  then show ?thesis using webhooks_accounted [of w_sender w_actions 0 "NewHub 10" 1] by (simp add: Let_def)
qed

end
