(* ===== verification/Settings.thy ===== *)
theory Settings
  imports Models GoText
begin

text \<open>
  \<^verbatim>\<open>pkg/config/config.go\<close>: the settings from the environment. \<open>env\<close> is \<^verbatim>\<open>os.Getenv\<close>, with the empty string for what is not
  set. A number is read by \<^verbatim>\<open>fmt.Sscanf\<close>, which takes the longest beginning that has the form of the verb and ignores what
  follows; hexadecimal floats, \<open>Inf\<close>, \<open>NaN\<close> and digits with underscores are outside of the model, as in \<open>ParseFloat\<close>.
\<close>

definition getenvDefault :: "(string \<Rightarrow> string) \<Rightarrow> string \<Rightarrow> string \<Rightarrow> string" where
  "getenvDefault env k d = (if env k \<noteq> '''' then env k else d)"

text \<open>\<^verbatim>\<open>SkipSpace\<close> stops at a line end, which is then no number.\<close>

definition skip_space :: "string \<Rightarrow> string" where
  "skip_space s = dropWhile (\<lambda>c. is_space c \<and> c \<noteq> NL) s"

definition scan_sign :: "string \<Rightarrow> string \<times> string" where
  "scan_sign s = (case s of c # r \<Rightarrow> if c = CHR ''+'' \<or> c = CHR ''-'' then ([c], r) else ([], s) | [] \<Rightarrow> ([], s))"

definition scan_d :: "string \<Rightarrow> int option" where
  "scan_d s =
     (case scan_sign (skip_space s) of
        (sg, r) \<Rightarrow>
          let ds = takeWhile is_digit r in
          if ds = [] then None
          else (case ParseInt64 (sg @ ds) of (n, good) \<Rightarrow> if good then Some n else None))"

definition atoi :: "string \<Rightarrow> int \<Rightarrow> int" where
  "atoi s def = (case scan_d s of None \<Rightarrow> def | Some n \<Rightarrow> n)"

definition scan_f :: "string \<Rightarrow> rat option" where
  "scan_f s =
     (case scan_sign (skip_space s) of
        (sg, r) \<Rightarrow>
          let ds = takeWhile is_digit r; r = dropWhile is_digit r;
              fr = (case r of c # q \<Rightarrow> if c = CHR ''.'' then c # takeWhile is_digit q else [] | [] \<Rightarrow> []);
              r = drop (length fr) r;
              ex = (case r of
                      c # q \<Rightarrow> if c = CHR ''e'' \<or> c = CHR ''E'' then c # fst (scan_sign q) @ takeWhile is_digit (snd (scan_sign q)) else []
                    | [] \<Rightarrow> [])
          in ParseFloat (sg @ ds @ fr @ ex))"

definition atof :: "string \<Rightarrow> rat \<Rightarrow> rat" where
  "atof s def = (case scan_f s of None \<Rightarrow> def | Some x \<Rightarrow> x)"

definition FromEnv :: "(string \<Rightarrow> string) \<Rightarrow> Config" where
  "FromEnv env =
     \<lparr>cfg_APIKey = env ''API_KEY'',
      cfg_PostgresDSN = env ''POSTGRES_DSN'',
      cfg_OriginRoot = getenvDefault env ''ORIGIN_ROOT'' ''/var/www'',
      cfg_SegmentSec = SegmentSec,
      cfg_AdsURL = env ''ADS_URL'',
      cfg_AdsRegistryFile = env ''ADS_REGISTRY_FILE'',
      cfg_AdsAPIKey = env ''ADS_API_KEY'',
      cfg_ChannelID = getenvDefault env ''CHANNEL_ID'' ''c1'',
      cfg_VariantID = getenvDefault env ''VARIANT_ID'' ''v720'',
      cfg_VariantBandwidth = atoi (env ''VARIANT_BANDWIDTH'') 3000000,
      cfg_VariantAverageBandwidth = atoi (env ''VARIANT_AVERAGE_BANDWIDTH'') 2600000,
      cfg_VariantResolution = getenvDefault env ''VARIANT_RESOLUTION'' ''1280x720'',
      cfg_VariantFrameRate = atof (env ''VARIANT_FRAME_RATE'') 25,
      cfg_VariantCodecs = getenvDefault env ''VARIANT_CODECS'' ''avc1.4d401f,mp4a.40.2'',
      cfg_PlaylistWindowMax = atoi (env ''PLAYLIST_WINDOW_MAX'') 180,
      cfg_TargetDurationFloor = atoi (env ''TARGETDURATION_FLOOR'') 1,
      cfg_IOTmpSuffix = getenvDefault env ''TMP_SUFFIX'' ''.tmp'',
      cfg_IOFsync = (getenvDefault env ''FSYNC'' ''true'' = ''true''),
      cfg_PreloadWindowS = atoi (env ''PRELOAD_WINDOW_S'') 180,
      cfg_TickMs = atoi (env ''TICK_MS'') 500,
      cfg_SlateURI = getenvDefault env ''SLATE_URI'' ''s3://bucket/slates/default_2s_cmaf.m3u8'',
      cfg_PublishAheadS = atoi (env ''PUBLISH_AHEAD_S'') 30,
      cfg_SourceFetchMap = env ''SOURCE_FETCH_MAP'',
      cfg_SourceTimeoutMs = atoi (env ''SOURCE_TIMEOUT_MS'') 3000,
      cfg_DurationTolerance = atof (env ''SOURCE_DURATION_TOLERANCE_S'') (1 / 100),
      cfg_LiveLeadS = atoi (env ''LIVE_LEAD_S'') 6,
      cfg_RetainS = atoi (env ''SEGMENT_RETAIN_S'') 30,
      cfg_SCTE35Tags = getenvDefault env ''SCTE35_TAGS'' ''daterange'',
      cfg_SourceFileRoot = env ''SOURCE_FILE_ROOT'',
      cfg_SourceAllowHosts = env ''SOURCE_ALLOW_HOSTS''\<rparr>"

lemma no_number [simp]: "atoi '''' d = d" "atof '''' x = x"
proof -
  have "scan_f '''' = None" by code_simp
  then show "atoi '''' d = d" "atof '''' x = x" by (simp_all add: atoi_def atof_def scan_d_def scan_sign_def skip_space_def)
qed

lemma FromEnv_default: "FromEnv (\<lambda>_. '''') = default_config"
  by (simp add: FromEnv_def default_config_def getenvDefault_def)

text \<open>A number that was printed is read back, and what follows it is ignored.\<close>

lemma digits_stop: "\<forall>c \<in> set ds. is_digit c \<Longrightarrow> r = [] \<or> \<not> is_digit (hd r) \<Longrightarrow> takeWhile is_digit (ds @ r) = ds"
  by (cases r) (simp_all add: takeWhile_append)

lemma digit_plain: "is_digit c \<Longrightarrow> \<not> is_space c \<and> c \<noteq> CHR ''+'' \<and> c \<noteq> CHR ''-''"
  by (auto simp: is_digit_def is_space_def)

lemma atoi_itoa:
  assumes "0 \<le> n" "n < 2 ^ 63" "r = [] \<or> \<not> is_digit (hd r)"
  shows "atoi (itoa n @ r) d = n"
proof -
  have i: "itoa n = nat_dec (nat n)" by (rule itoa_nonneg [OF assms(1)])
  obtain c cs where c: "nat_dec (nat n) = c # cs" by (cases "nat_dec (nat n)") simp_all
  then have dc: "is_digit c" using nat_dec_digits [of c "nat n"] by simp
  have "skip_space (itoa n @ r) = itoa n @ r" using digit_plain [OF dc] by (simp add: skip_space_def i c)
  moreover have "scan_sign (itoa n @ r) = ([], itoa n @ r)" using digit_plain [OF dc] by (simp add: scan_sign_def i c)
  moreover have "takeWhile is_digit (itoa n @ r) = itoa n" unfolding i by (rule digits_stop) (use nat_dec_digits assms(3) in auto)
  moreover have "ParseInt64 (itoa n) = (n, True)" using assms(1,2) by (intro ParseInt64_itoa) simp_all
  ultimately show ?thesis by (simp add: atoi_def scan_d_def i c)
qed

end
