(* ===== verification/Resolver.thy ===== *)
theory Resolver
  imports Stitch Settings "HOL-Library.AList"
begin

text \<open>
  \<^verbatim>\<open>services/engine/stitch.go\<close>, the resolver: where a source may be read from, how it is read, and the three caches (playlists,
  init sections, segments) that every goroutine of the engine shares. Each critical section under the lock \<^verbatim>\<open>r.mu\<close> is one
  definition, and a run is any sequence of them. The file system, the network and \<^verbatim>\<open>net/url\<close> are a record of functions, SHA-1 is an
  argument, and a sequence of readings of the clock is a function of their number. A Go map is an association list with distinct keys.
\<close>

subsection \<open>The mapping of addresses\<close>

record prefixPair =
  pp_from :: string
  pp_to :: string

definition parse_pair :: "string \<Rightarrow> prefixPair option" where
  "parse_pair part =
     (case cut_at (CHR ''='') part of (a, b, found) \<Rightarrow> if found \<and> a \<noteq> '''' then Some \<lparr>pp_from = a, pp_to = b\<rparr> else None)"

definition parseMap :: "string \<Rightarrow> prefixPair list" where
  "parseMap s = List.map_filter (\<lambda>part. parse_pair (TrimSpace part)) (split_on (CHR '','') s)"

fun applyMap :: "string \<Rightarrow> prefixPair list \<Rightarrow> string" where
  "applyMap uri [] = uri"
| "applyMap uri (p # ps) = (if HasPrefix uri (pp_from p) then pp_to p @ TrimPrefix uri (pp_from p) else applyMap uri ps)"

subsection \<open>Where sources may be\<close>

text \<open>What the code reads of a \<^verbatim>\<open>url.URL\<close>. \<open>Hostname\<close> is the method of that name: without the port, and without the brackets of IPv6.\<close>

record url =
  u_Scheme :: string
  u_Host :: string
  u_Path :: string

definition Hostname :: "url \<Rightarrow> string" where
  "Hostname u =
     (let r = dropWhile is_digit (rev (u_Host u));
          h = (if r \<noteq> [] \<and> hd r = CHR '':'' then rev (tl r) else u_Host u)
      in if HasPrefix h ''['' \<and> last h = CHR '']'' then butlast (tl h) else h)"

text \<open>\<^verbatim>\<open>strings.ToLower\<close> on ASCII.\<close>

definition lower :: "char \<Rightarrow> char" where
  "lower c = (let n = of_char c :: nat in if 65 \<le> n \<and> n \<le> 90 then char_of (n + 32) else c)"

definition ToLower :: "string \<Rightarrow> string" where
  "ToLower s = map lower s"

text \<open>\<^verbatim>\<open>None\<close> is the nil map: any host.\<close>

definition parseHosts :: "string \<Rightarrow> string list option" where
  "parseHosts s =
     (let hs = filter (\<lambda>h. h \<noteq> '''') (map (\<lambda>h. TrimSpace (ToLower h)) (split_on (CHR '','') s))
      in if hs = [] then None else Some hs)"

text \<open>\<^verbatim>\<open>filepath.Clean\<close> on a path with \<^verbatim>\<open>/\<close>: the kept elements are a stack.\<close>

fun clean_parts :: "bool \<Rightarrow> string list \<Rightarrow> string list \<Rightarrow> string list" where
  "clean_parts rooted stack [] = rev stack"
| "clean_parts rooted stack (p # ps) =
     (if p = '''' \<or> p = ''.'' then clean_parts rooted stack ps
      else if p = ''..'' then
        (if stack \<noteq> [] \<and> hd stack \<noteq> ''..'' then clean_parts rooted (tl stack) ps
         else if rooted then clean_parts rooted stack ps
         else clean_parts rooted (p # stack) ps)
      else clean_parts rooted (p # stack) ps)"

definition Clean :: "string \<Rightarrow> string" where
  "Clean p =
     (let rooted = HasPrefix p ''/'';
          out = (if rooted then ''/'' else []) @ joined (CHR ''/'') (clean_parts rooted [] (split_on (CHR ''/'') p))
      in if out = [] then ''.'' else out)"

text \<open>
  The world outside: \<^verbatim>\<open>url.Parse\<close>, the reference resolution of \<^verbatim>\<open>net/url\<close>, \<^verbatim>\<open>filepath.EvalSymlinks\<close>, the content of a file, and what comes back
  from the request number \<open>n\<close> of a download, which may send the client on to another address.
\<close>

datatype reply = NoReply | Redirect url | Reply int "byte list option"

record world =
  wo_parse :: "string \<Rightarrow> url option"
  wo_ref :: "url \<Rightarrow> string \<Rightarrow> string option"
  wo_links :: "string \<Rightarrow> string option"
  wo_file :: "string \<Rightarrow> byte list option"
  wo_http :: "nat \<Rightarrow> url \<Rightarrow> reply"

datatype source_error = BadURI string | HostNotAllowed string | FilesOff | NoPath string | OutsideRoot string | Unsupported string
  | ReadFailed | RequestFailed | TooManyRedirects | BadStatus string int | TooLarge string int
  | BadPlaylist string hls_error | BadInit string mp4_error | ContextDone

text \<open>The caches; an entry that holds an error has no playlist.\<close>

record cacheEntry =
  ce_pl :: "source_error + Playlist"
  ce_at :: gtime

record blob =
  bl_data :: "byte list"
  bl_at :: gtime

record resolver =
  re_fetch :: "prefixPair list"
  re_fileRoot :: string
  re_hosts :: "string list option"
  re_cache :: "(string \<times> cacheEntry) list"
  re_inits :: "(string \<times> initEntry \<times> gtime) list"
  re_inflight :: "string list"
  re_segs :: "(string \<times> blob) list"
  re_segBytes :: int
  re_flight :: "string list"

definition okTTL :: duration where "okTTL = 10 * 60 * second"
definition errTTL :: duration where "errTTL = 5 * second"
definition maxCached :: nat where "maxCached = 512"
definition maxPlaylistBytes :: int where "maxPlaylistBytes = 4 * 2 ^ 20"
definition maxSegCacheBytes :: int where "maxSegCacheBytes = 64 * 2 ^ 20"
definition segTTL :: duration where "segTTL = 2 * 60 * second"
definition maxSegmentBytes :: int where "maxSegmentBytes = 64 * 2 ^ 20"
definition maxInitBytes :: int where "maxInitBytes = 2 ^ 20"

definition newResolver :: "Config \<Rightarrow> resolver" where
  "newResolver cfg =
     \<lparr>re_fetch = parseMap (cfg_SourceFetchMap cfg), re_fileRoot = cfg_SourceFileRoot cfg, re_hosts = parseHosts (cfg_SourceAllowHosts cfg),
      re_cache = [], re_inits = [], re_inflight = [], re_segs = [], re_segBytes = 0, re_flight = []\<rparr>"

text \<open>\<^verbatim>\<open>allowed\<close>: \<open>None\<close> is the nil error.\<close>

definition source_allowed :: "world \<Rightarrow> resolver \<Rightarrow> url \<Rightarrow> source_error option" where
  "source_allowed w r u =
     (if u_Scheme u = ''http'' \<or> u_Scheme u = ''https'' then
        (case re_hosts r of
           None \<Rightarrow> None
         | Some hs \<Rightarrow> if ToLower (u_Host u) \<notin> set hs \<and> ToLower (Hostname u) \<notin> set hs then Some (HostNotAllowed (u_Host u)) else None)
      else if u_Scheme u = ''file'' then
        (if re_fileRoot r = '''' then Some FilesOff
         else
           (case wo_links w (re_fileRoot r) of
              None \<Rightarrow> Some (NoPath (re_fileRoot r))
            | Some base \<Rightarrow>
                (case wo_links w (Clean (u_Path u)) of
                   None \<Rightarrow> Some (NoPath (u_Path u))
                 | Some p \<Rightarrow> if p \<noteq> base \<and> \<not> HasPrefix p (base @ ''/'') then Some (OutsideRoot (u_Path u)) else None)))
      else Some (Unsupported (u_Scheme u)))"

subsection \<open>Downloads\<close>

text \<open>\<^verbatim>\<open>r.client.Do\<close> with \<^verbatim>\<open>CheckRedirect\<close>: \<open>via\<close> requests were made before this one. It also gives the addresses that were requested.\<close>

function do_request :: "world \<Rightarrow> resolver \<Rightarrow> nat \<Rightarrow> url \<Rightarrow> (source_error + int \<times> byte list option) \<times> url list" where
  "do_request w r via u =
     (case wo_http w via u of
        NoReply \<Rightarrow> (Inl RequestFailed, [u])
      | Reply status body \<Rightarrow> (Inr (status, body), [u])
      | Redirect u' \<Rightarrow>
          if via + 1 \<ge> 5 then (Inl TooManyRedirects, [u])
          else (case source_allowed w r u' of
                  Some e \<Rightarrow> (Inl e, [u])
                | None \<Rightarrow> apsnd (Cons u) (do_request w r (via + 1) u')))"
  by pat_completeness auto
termination by (relation "measure (\<lambda>(w, r, via, u). 5 - via)") auto

declare do_request.simps [simp del]

definition limited :: "string \<Rightarrow> int \<Rightarrow> byte list \<Rightarrow> source_error + byte list" where
  "limited target limit body =
     (let b = take (nat (limit + 1)) body in if int (length b) > limit then Inl (TooLarge target limit) else Inr b)"

text \<open>What a download touches.\<close>

datatype access = OpenFile string | Request url

definition get :: "world \<Rightarrow> resolver \<Rightarrow> string \<Rightarrow> int \<Rightarrow> (source_error + byte list) \<times> access list" where
  "get w r src limit =
     (let target = applyMap src (re_fetch r) in
      case wo_parse w target of
        None \<Rightarrow> (Inl (BadURI target), [])
      | Some u \<Rightarrow>
          (case source_allowed w r u of
             Some e \<Rightarrow> (Inl e, [])
           | None \<Rightarrow>
               if u_Scheme u = ''file'' then
                 ((case wo_file w (u_Path u) of None \<Rightarrow> Inl ReadFailed | Some b \<Rightarrow> limited target limit b), [OpenFile (u_Path u)])
               else
                 (case do_request w r 0 u of
                    (res, us) \<Rightarrow>
                      ((case res of
                          Inl e \<Rightarrow> Inl e
                        | Inr (status, body) \<Rightarrow>
                            if status \<noteq> 200 then Inl (BadStatus target status)
                            else (case body of None \<Rightarrow> Inl ReadFailed | Some b \<Rightarrow> limited target limit b)),
                       map Request us))))"

definition text_of :: "byte list \<Rightarrow> string" where
  "text_of b = map (\<lambda>x. char_of (unat x)) b"

definition download :: "world \<Rightarrow> resolver \<Rightarrow> string \<Rightarrow> source_error + Playlist" where
  "download w r src =
     (let target = applyMap src (re_fetch r) in
      case wo_parse w target of
        None \<Rightarrow> Inl (BadURI target)
      | Some u \<Rightarrow>
          bindE (fst (get w r target maxPlaylistBytes)) (\<lambda>b.
            case Hls.Parse (wo_ref w u) (text_of b) of
              Inl e \<Rightarrow> Inl (BadPlaylist target e)
            | Inr pl \<Rightarrow> Inr pl))"

subsection \<open>Source playlists\<close>

definition fresh :: "cacheEntry \<Rightarrow> gtime \<Rightarrow> bool" where
  "fresh e now =
     (case ce_pl e of Inl _ \<Rightarrow> Sub now (ce_at e) < errTTL | Inr _ \<Rightarrow> Sub now (ce_at e) < okTTL)"

definition playlist_look :: "string \<Rightarrow> gtime \<Rightarrow> resolver \<Rightarrow> (source_error + Playlist) option" where
  "playlist_look src now r =
     (case map_of (re_cache r) src of None \<Rightarrow> None | Some e \<Rightarrow> if fresh e now then Some (ce_pl e) else None)"

definition playlist_store :: "string \<Rightarrow> source_error + Playlist \<Rightarrow> gtime \<Rightarrow> gtime \<Rightarrow> resolver \<Rightarrow> resolver" where
  "playlist_store src pl now at1 r =
     (let kept = filter (\<lambda>(_, e). fresh e now) (re_cache r);
          cache = (if length (re_cache r) \<ge> maxCached then (if length kept \<ge> maxCached then [] else kept) else re_cache r)
      in r\<lparr>re_cache := AList.update src \<lparr>ce_pl = pl, ce_at = at1\<rparr> cache\<rparr>)"

definition playlist :: "world \<Rightarrow> (nat \<Rightarrow> gtime) \<Rightarrow> string \<Rightarrow> resolver \<Rightarrow> (source_error + Playlist) \<times> resolver" where
  "playlist w clk src r =
     (case playlist_look src (clk 0) r of
        Some pl \<Rightarrow> (pl, r)
      | None \<Rightarrow> let pl = download w r src in (pl, playlist_store src pl (clk 1) (clk 2) r))"

text \<open>\<^verbatim>\<open>prefetch\<close> up to its goroutine, which it says whether it starts, and the end of that goroutine.\<close>

definition prefetch :: "string \<Rightarrow> gtime \<Rightarrow> resolver \<Rightarrow> bool \<times> resolver" where
  "prefetch src now r =
     (if playlist_look src now r \<noteq> None \<or> src \<in> set (re_inflight r) then (False, r)
      else (True, r\<lparr>re_inflight := src # re_inflight r\<rparr>))"

definition prefetch_end :: "string \<Rightarrow> resolver \<Rightarrow> resolver" where
  "prefetch_end src r = r\<lparr>re_inflight := removeAll src (re_inflight r)\<rparr>"

subsection \<open>Segments\<close>

text \<open>The oldest file but \<open>src\<close>, before a moment; the empty name says that there is none. A \<^verbatim>\<open>range\<close> over a map runs in any order: \<open>rank\<close> gives it.\<close>

fun find_oldest :: "string \<Rightarrow> string \<Rightarrow> gtime \<Rightarrow> (string \<times> blob) list \<Rightarrow> string" where
  "find_oldest src oldest oldestAt [] = oldest"
| "find_oldest src oldest oldestAt ((k, v) # xs) =
     (if k \<noteq> src \<and> bl_at v < oldestAt then find_oldest src k (bl_at v) xs else find_oldest src oldest oldestAt xs)"

definition ranged :: "(string \<Rightarrow> nat) \<Rightarrow> (string \<times> 'a) list \<Rightarrow> (string \<times> 'a) list" where
  "ranged rank xs = sort_key (\<lambda>(k, _). rank k) xs"

lemma set_ranged [simp]: "set (ranged rank xs) = set xs"
  by (simp add: ranged_def)

lemma find_oldest_in: "find_oldest src o0 t xs = o0 \<or> find_oldest src o0 t xs \<in> fst ` set xs"
  by (induction src o0 t xs rule: find_oldest.induct) auto

definition blob_len :: "string \<Rightarrow> (string \<times> blob) list \<Rightarrow> int" where
  "blob_len k segs = (case map_of segs k of None \<Rightarrow> 0 | Some b \<Rightarrow> int (length (bl_data b)))"

function evict_loop :: "(nat \<Rightarrow> gtime) \<Rightarrow> (nat \<Rightarrow> string \<Rightarrow> nat) \<Rightarrow> nat \<Rightarrow> string \<Rightarrow> resolver \<Rightarrow> resolver" where
  "evict_loop clk rank n src r =
     (if re_segBytes r > maxSegCacheBytes \<and> length (re_segs r) > 1 then
        let oldest = find_oldest src '''' (clk n + 3600 * second) (ranged (rank n) (re_segs r)) in
        if oldest = '''' then r
        else evict_loop clk rank (n + 1) src
               (r\<lparr>re_segBytes := re_segBytes r - blob_len oldest (re_segs r), re_segs := AList.delete oldest (re_segs r)\<rparr>)
      else r)"
  by pat_completeness auto
termination
proof (relation "measure (\<lambda>(clk, rank, n, src, r). length (re_segs r))", goal_cases)
  case (2 clk rank n src r oldest)
  then have "oldest \<in> fst ` set (re_segs r)"
    using find_oldest_in [of src "''''" "clk n + 3600 * second" "ranged (rank n) (re_segs r)"] by auto
  then have "length (AList.delete oldest (re_segs r)) < length (re_segs r)"
    unfolding AList.delete_eq by (metis (mono_tags, lifting) case_prod_beta' imageE length_filter_less)
  then show ?case by simp
qed simp

declare evict_loop.simps [simp del]

definition storeBlob :: "(nat \<Rightarrow> gtime) \<Rightarrow> (nat \<Rightarrow> string \<Rightarrow> nat) \<Rightarrow> string \<Rightarrow> byte list \<Rightarrow> resolver \<Rightarrow> resolver" where
  "storeBlob clk rank src body r =
     (let bytes = re_segBytes r - blob_len src (re_segs r) + int (length body)
      in evict_loop clk rank 1 src
           (r\<lparr>re_segs := AList.update src \<lparr>bl_data = body, bl_at = clk 0\<rparr> (re_segs r), re_segBytes := bytes\<rparr>))"

text \<open>
  \<^verbatim>\<open>getCached\<close>: a look under the lock finds the file, a download that is running, or neither, and then the caller
  becomes the one that downloads. \<open>re_flight\<close> holds the sources with a channel; the channel is closed when the source leaves it.
\<close>

datatype look = Hit "byte list" | Running | Free

definition cached_look :: "string \<Rightarrow> gtime \<Rightarrow> resolver \<Rightarrow> look" where
  "cached_look src now r =
     (let there = (case map_of (re_segs r) src of None \<Rightarrow> None | Some b \<Rightarrow> if Sub now (bl_at b) < segTTL then Some (bl_data b) else None)
      in case there of
           Some d \<Rightarrow> Hit d
         | None \<Rightarrow> if src \<in> set (re_flight r) then Running else Free)"

definition cached_begin :: "string \<Rightarrow> resolver \<Rightarrow> resolver" where
  "cached_begin src r = r\<lparr>re_flight := src # re_flight r\<rparr>"

definition cached_end :: "(nat \<Rightarrow> gtime) \<Rightarrow> (nat \<Rightarrow> string \<Rightarrow> nat) \<Rightarrow> string \<Rightarrow> source_error + byte list \<Rightarrow> resolver \<Rightarrow> resolver" where
  "cached_end clk rank src res r =
     (let r = (case res of Inl _ \<Rightarrow> r | Inr body \<Rightarrow> storeBlob clk rank src body r)
      in r\<lparr>re_flight := removeAll src (re_flight r)\<rparr>)"

text \<open>
  One call: each time it waits for another download it finds the resolver as that left it, and the time of day, in \<open>waits\<close>; at the end of \<open>waits\<close> its context is done.
  While it downloads the others may change the resolver too: \<open>others\<close>.
\<close>

fun getCached :: "world \<Rightarrow> (nat \<Rightarrow> gtime) \<Rightarrow> (nat \<Rightarrow> string \<Rightarrow> nat) \<Rightarrow> (resolver \<Rightarrow> resolver) \<Rightarrow> (gtime \<times> resolver) list \<Rightarrow> string \<Rightarrow> int \<Rightarrow>
    gtime \<Rightarrow> resolver \<Rightarrow> (source_error + byte list) \<times> resolver" where
  "getCached w clk rank others waits src limit now r =
     (case cached_look src now r of
        Hit d \<Rightarrow> (Inr d, r)
      | Running \<Rightarrow>
          (case waits of
             [] \<Rightarrow> (Inl ContextDone, r)
           | (now', r') # waits' \<Rightarrow> getCached w clk rank others waits' src limit now' r')
      | Free \<Rightarrow>
          let res = fst (get w r src limit)
          in (res, cached_end clk rank src res (others (cached_begin src r))))"

declare getCached.simps [simp del]

text \<open>Whether \<^verbatim>\<open>prefetchBlob\<close> starts a goroutine for \<^verbatim>\<open>getCached\<close>.\<close>

definition prefetchBlob :: "string \<Rightarrow> gtime \<Rightarrow> resolver \<Rightarrow> bool" where
  "prefetchBlob src now r \<longleftrightarrow> cached_look src now r = Free"

subsection \<open>Init sections\<close>

definition init_look :: "string \<Rightarrow> gtime \<Rightarrow> resolver \<Rightarrow> initEntry option" where
  "init_look uri now r =
     (case map_of (re_inits r) uri of None \<Rightarrow> None | Some (e, t) \<Rightarrow> if Sub now t < okTTL then Some e else None)"

text \<open>\<^verbatim>\<open>hex.EncodeToString\<close>: lower case.\<close>

definition hex_lower :: "byte \<Rightarrow> char" where
  "hex_lower d = (if d < 10 then char_of (48 + unat d) else char_of (87 + unat d))"

definition EncodeToString :: "byte list \<Rightarrow> string" where
  "EncodeToString b = concat (map (\<lambda>x. [hex_lower (drop_bit 4 x), hex_lower (x AND 0x0F)]) b)"

definition init_entry :: "(byte list \<Rightarrow> byte list) \<Rightarrow> world \<Rightarrow> resolver \<Rightarrow> string \<Rightarrow> source_error + initEntry" where
  "init_entry sha1 w r uri =
     bindE (fst (get w r uri maxInitBytes)) (\<lambda>b.
       case ParseInit b of
         Inl e \<Rightarrow> Inl (BadInit uri e)
       | Inr parsed \<Rightarrow> Inr \<lparr>ie_data = b, ie_parsed = parsed, ie_name = ''init_'' @ EncodeToString (take 4 (sha1 b)) @ ''.mp4''\<rparr>)"

definition init_store :: "string \<Rightarrow> initEntry \<Rightarrow> gtime \<Rightarrow> resolver \<Rightarrow> resolver" where
  "init_store uri e at1 r =
     r\<lparr>re_inits := AList.update uri (e, at1) (if length (re_inits r) \<ge> maxCached then [] else re_inits r)\<rparr>"

definition initSection :: "(byte list \<Rightarrow> byte list) \<Rightarrow> world \<Rightarrow> (nat \<Rightarrow> gtime) \<Rightarrow> string \<Rightarrow> resolver \<Rightarrow> (source_error + initEntry) \<times> resolver" where
  "initSection sha1 w clk uri r =
     (case init_look uri (clk 0) r of
        Some e \<Rightarrow> (Inr e, r)
      | None \<Rightarrow>
          (case init_entry sha1 w r uri of
             Inl e \<Rightarrow> (Inl e, r)
           | Inr e \<Rightarrow> (Inr e, init_store uri e (clk 1) r)))"

subsection \<open>Prefetching for a clip\<close>

text \<open>The downloads that \<^verbatim>\<open>prefetchClip\<close> starts; \<open>so\<close> is what the resolver answers to \<^verbatim>\<open>lookup\<close>.\<close>

datatype fetching = FetchPlaylist string | FetchBlob string | FetchInit string

definition prefetchClip :: "sources \<Rightarrow> Config \<Rightarrow> ClipItem \<Rightarrow> gtime \<Rightarrow> resolver \<Rightarrow> fetching list \<times> resolver" where
  "prefetchClip so cfg c now r =
     (let known = (case playlist_look (ci_URI c) now r of Some (Inr _) \<Rightarrow> True | _ \<Rightarrow> False)
      in if \<not> known then
           (case prefetch (ci_URI c) now r of (started, r') \<Rightarrow> (if started then [FetchPlaylist (ci_URI c)] else [], r'))
         else
           (case lookup so (ci_URI c) (ci_OffsetS c) (ci_Type c = ''slate'') (cfg_SegmentSec cfg) (cfg_DurationTolerance cfg) of
              Inl _ \<Rightarrow> ([], r)
            | Inr m \<Rightarrow>
                ((if prefetchBlob (sm_URI m) now r then [FetchBlob (sm_URI m)] else []) @
                 (if sm_MapURI m \<noteq> '''' \<and> init_look (sm_MapURI m) now r = None then [FetchInit (sm_MapURI m)] else []), r)))"

text \<open>
  The engine prefetches the clips of the next ten seconds, once per source and offset, and at its start the first minute of
  the slate: \<open>rs i\<close> is the resolver at the look number \<open>i\<close>, because the goroutines that were started run meanwhile.
\<close>

definition prefetchAhead :: duration where "prefetchAhead = 10 * second"

definition prefetch_key :: "ClipItem \<Rightarrow> string" where
  "prefetch_key c = ci_URI c @ ''#'' @ itoa (ci_OffsetS c)"

fun prefetch_loop :: "sources \<Rightarrow> Config \<Rightarrow> gtime \<Rightarrow> gtime \<Rightarrow> ClipItem list \<Rightarrow> string list \<Rightarrow> resolver \<Rightarrow> fetching list \<times> resolver" where
  "prefetch_loop so cfg until now [] seen r = ([], r)"
| "prefetch_loop so cfg until now (c # cs) seen r =
     (if ci_StartAt c > until then ([], r)
      else if prefetch_key c \<in> set seen then prefetch_loop so cfg until now cs seen r
      else (case prefetchClip so cfg c now r of
              (fs, r') \<Rightarrow> apfst (append fs) (prefetch_loop so cfg until now cs (prefetch_key c # seen) r')))"

definition prefetch_slate :: "Config \<Rightarrow> source_error + Playlist \<Rightarrow> gtime \<Rightarrow> (nat \<Rightarrow> resolver) \<Rightarrow> fetching list" where
  "prefetch_slate cfg res now rs =
     (if cfg_SlateURI cfg = '''' then []
      else
        (case res of
           Inl _ \<Rightarrow> []
         | Inr pl \<Rightarrow>
             map (\<lambda>(i, sg). FetchBlob (sg_URI sg)) (filter (\<lambda>(i, sg). prefetchBlob (sg_URI sg) now (rs i)) (List.enumerate 0 (take 60 (pl_Segments pl)))) @
             (if pl_MapURI pl \<noteq> '''' then [FetchInit (pl_MapURI pl)] else [])))"

text \<open>Prefetching starts downloads and does nothing else: it marks playlists as being on their way, each of them once.\<close>

definition playlists_of :: "fetching list \<Rightarrow> string list" where
  "playlists_of fs = List.map_filter (\<lambda>f. case f of FetchPlaylist u \<Rightarrow> Some u | _ \<Rightarrow> None) fs"

lemma playlists_of_simps [simp]:
  "playlists_of [] = []" "playlists_of (FetchPlaylist u # fs) = u # playlists_of fs" "playlists_of (FetchBlob u # fs) = playlists_of fs"
  "playlists_of (FetchInit u # fs) = playlists_of fs" "playlists_of (fs @ gs) = playlists_of fs @ playlists_of gs"
  by (simp_all add: playlists_of_def map_filter_def)

lemma prefetchClip_starts:
  "prefetchClip so cfg c now r = (fs, r') \<Longrightarrow>
   r' = r\<lparr>re_inflight := playlists_of fs @ re_inflight r\<rparr> \<and> distinct (playlists_of fs) \<and> set (playlists_of fs) \<inter> set (re_inflight r) = {}"
  unfolding prefetchClip_def prefetch_def Let_def
  by (auto split: if_splits option.splits sum.splits prod.splits)

lemma prefetch_loop_starts:
  "prefetch_loop so cfg until now cs seen r = (fs, r') \<Longrightarrow>
   r' = r\<lparr>re_inflight := rev (playlists_of fs) @ re_inflight r\<rparr> \<and> distinct (playlists_of fs) \<and> set (playlists_of fs) \<inter> set (re_inflight r) = {}"
proof (induction so cfg until now cs seen r arbitrary: fs rule: prefetch_loop.induct)
  case (2 so cfg until now c cs seen r)
  show ?case
  proof (cases "ci_StartAt c > until \<or> prefetch_key c \<in> set seen")
    case True
    then show ?thesis using 2 by (auto split: if_splits)
  next
    case False
    obtain fs1 r1 where p: "prefetchClip so cfg c now r = (fs1, r1)" by (cases "prefetchClip so cfg c now r")
    obtain fs2 where q: "prefetch_loop so cfg until now cs (prefetch_key c # seen) r1 = (fs2, r')" "fs = fs1 @ fs2"
      using 2(3) False p by (cases "prefetch_loop so cfg until now cs (prefetch_key c # seen) r1") auto
    have a: "r1 = r\<lparr>re_inflight := playlists_of fs1 @ re_inflight r\<rparr>" "distinct (playlists_of fs1)" "set (playlists_of fs1) \<inter> set (re_inflight r) = {}"
      using prefetchClip_starts [OF p] by simp_all
    have b: "r' = r1\<lparr>re_inflight := rev (playlists_of fs2) @ re_inflight r1\<rparr>" "distinct (playlists_of fs2)" "set (playlists_of fs2) \<inter> set (re_inflight r1) = {}"
      using 2(2) [OF _ _ p [symmetric] q(1)] False by auto
    have "rev (playlists_of fs1) = playlists_of fs1"
    proof -
      have "length (playlists_of fs1) \<le> 1" using p unfolding prefetchClip_def prefetch_def Let_def
        by (auto split: if_splits option.splits sum.splits prod.splits)
      then show ?thesis by (cases "playlists_of fs1") auto
    qed
    then show ?thesis using a b q(2) by auto
  qed
qed simp

subsection \<open>Only what is allowed is read\<close>

text \<open>
  What may be opened or requested: a file whose cleaned path, with its links resolved, is the root or under it; a web address on a host of
  the list. A redirection to a file is let through for a file under the root (the client does not follow it).
\<close>

definition readable :: "world \<Rightarrow> resolver \<Rightarrow> access \<Rightarrow> bool" where
  "readable w r a \<longleftrightarrow>
     (let under = (\<lambda>p. re_fileRoot r \<noteq> '''' \<and>
            (\<exists>base q. wo_links w (re_fileRoot r) = Some base \<and> wo_links w (Clean p) = Some q \<and> (q = base \<or> HasPrefix q (base @ ''/''))))
      in case a of
           OpenFile p \<Rightarrow> under p
         | Request u \<Rightarrow>
             u_Scheme u \<in> {''http'', ''https''} \<and> (\<forall>hs. re_hosts r = Some hs \<longrightarrow> ToLower (u_Host u) \<in> set hs \<or> ToLower (Hostname u) \<in> set hs) \<or>
             u_Scheme u = ''file'' \<and> under (u_Path u))"

lemma source_allowed_readable:
  assumes "source_allowed w r u = None"
  shows "readable w r (Request u)" "u_Scheme u = ''file'' \<Longrightarrow> readable w r (OpenFile (u_Path u))"
  using assms unfolding source_allowed_def readable_def by (auto simp: Let_def split: if_splits option.splits)

lemma do_request_readable:
  assumes "source_allowed w r u = None" "via < 5"
  shows "(\<forall>a \<in> set (snd (do_request w r via u)). readable w r (Request a)) \<and> length (snd (do_request w r via u)) + via \<le> 5 \<and> snd (do_request w r via u) \<noteq> []"
  using assms
proof (induction w r via u rule: do_request.induct)
  case (1 w r via u)
  note d = do_request.simps [of w r via u]
  have here: "readable w r (Request u)" by (rule source_allowed_readable [OF 1(2)])
  show ?case
  proof (cases "wo_http w via u")
    case (Redirect u')
    show ?thesis
    proof (cases "via + 1 \<ge> 5 \<or> source_allowed w r u' \<noteq> None")
      case True
      then show ?thesis using here 1(3) Redirect by (auto simp: d)
    next
      case False
      then have n: "\<not> via + 1 \<ge> 5" "source_allowed w r u' = None" by auto
      then show ?thesis using 1(1) [OF Redirect n n(2)] here Redirect by (auto simp: d)
    qed
  qed (use here 1(3) in \<open>simp_all add: d\<close>)
qed

text \<open>A download depends on the settings only, not on the caches.\<close>

lemma source_allowed_cong:
  assumes "re_hosts r = re_hosts r'" "re_fileRoot r = re_fileRoot r'"
  shows "source_allowed w r u = source_allowed w r' u"
  unfolding source_allowed_def assms by (rule refl)

lemma do_request_cong:
  assumes "re_hosts r = re_hosts r'" "re_fileRoot r = re_fileRoot r'"
  shows "do_request w r via u = do_request w r' via u"
  using assms
proof (induction w r via u rule: do_request.induct)
  case (1 w r via u)
  note d = do_request.simps [of w r via u] do_request.simps [of w r' via u]
  show ?case
  proof (cases "wo_http w via u")
    case (Redirect u')
    then show ?thesis using 1(1) [OF Redirect _ _ 1(2,3)] source_allowed_cong [OF 1(2,3), of w u']
      by (cases "via + 1 \<ge> 5"; cases "source_allowed w r' u'") (simp_all add: d)
  qed (simp_all add: d)
qed

lemma get_cong:
  assumes "re_fetch r = re_fetch r'" "re_hosts r = re_hosts r'" "re_fileRoot r = re_fileRoot r'"
  shows "get w r src mx = get w r' src mx"
  unfolding get_def assms(1) do_request_cong [OF assms(2,3)] source_allowed_cong [OF assms(2,3)] by (rule refl)

lemma limited_le: "limited target mx body = Inr b \<Longrightarrow> int (length b) \<le> mx \<and> b = body"
  by (auto simp: limited_def Let_def split: if_splits)

lemma get_Inr_len: "fst (get w r src mx) = Inr b \<Longrightarrow> int (length b) \<le> mx"
  by (auto simp: get_def Let_def dest!: limited_le split: option.splits if_splits sum.splits prod.splits)


text \<open>
  The path that is checked is cleaned first, the one that is opened is not: under a link to a directory elsewhere, \<^verbatim>\<open>link/../x\<close> is
  checked as the \<^verbatim>\<open>x\<close> beside the link and opened as the one beside the directory.
\<close>

definition w_disk :: world where
  "w_disk = \<lparr>wo_parse = (\<lambda>s. if HasPrefix s ''file://'' then Some \<lparr>u_Scheme = ''file'', u_Host = '''', u_Path = drop 7 s\<rparr> else None),
     wo_ref = (\<lambda>_ _. None),
     wo_links = (\<lambda>p. if p = ''/srv/link/../x'' then Some ''/other/x'' else if p = ''/srv/x'' then Some ''/srv/x'' else if p = ''/srv'' then Some ''/srv'' else None),
     wo_file = (\<lambda>p. if p = ''/srv/link/../x'' then Some [1, 2, 3] else if p = ''/srv/x'' then Some [7] else None), wo_http = (\<lambda>_ _. NoReply)\<rparr>"

definition w_files :: Config where
  "w_files = default_config\<lparr>cfg_SourceFileRoot := ''/srv''\<rparr>"

lemma link_leads_out:
  "get w_disk (newResolver w_files) ''file:///srv/link/../x'' 10 = (Inr [1, 2, 3], [OpenFile ''/srv/link/../x'']) \<and>
   wo_links w_disk ''/srv/link/../x'' = Some ''/other/x''"
  by code_simp

text \<open>\<^verbatim>\<open>download\<close> maps the address and hands the mapped one to \<^verbatim>\<open>get\<close>, which maps it again: a rule that matches its own result is applied twice.\<close>

lemma download_maps_twice:
  "applyMap ''http://cdn/a.m3u8'' (parseMap ''http://cdn/=http://cdn/vod/'') = ''http://cdn/vod/a.m3u8''"
  "applyMap (applyMap ''http://cdn/a.m3u8'' (parseMap ''http://cdn/=http://cdn/vod/'')) (parseMap ''http://cdn/=http://cdn/vod/'') = ''http://cdn/vod/vod/a.m3u8''"
  by code_simp+

subsection \<open>The cache of segments\<close>

definition total :: "(string \<times> blob) list \<Rightarrow> int" where
  "total xs = sum_list (map (\<lambda>(k, b). int (length (bl_data b))) xs)"

lemma total_Nil [simp]: "total [] = 0" by (simp add: total_def)

lemma total_Cons [simp]: "total ((k, b) # xs) = int (length (bl_data b)) + total xs" by (simp add: total_def)

lemma total_ge: "(k, b) \<in> set xs \<Longrightarrow> int (length (bl_data b)) \<le> total xs"
proof (induction xs)
  case (Cons x xs)
  have "0 \<le> total xs" by (auto simp: total_def intro!: sum_list_nonneg)
  then show ?case using Cons by (cases x) auto
qed simp

lemma total_update: "distinct (map fst xs) \<Longrightarrow> total (AList.update k b xs) = total xs - blob_len k xs + int (length (bl_data b))"
  by (induction xs) (auto simp: blob_len_def)

lemma total_delete: "distinct (map fst xs) \<Longrightarrow> total (AList.delete k xs) = total xs - blob_len k xs"
proof (induction xs)
  case (Cons x xs)
  obtain k' b where x: "x = (k', b)" by (cases x)
  show ?case
  proof (cases "k' = k")
    case True
    then have "k \<notin> fst ` set xs" using Cons.prems x by simp
    then have "AList.delete k xs = xs" by (induction xs) auto
    then show ?thesis using True x by (simp add: blob_len_def)
  next
    case False
    then show ?thesis using Cons x by (simp add: blob_len_def)
  qed
qed (simp add: blob_len_def)

text \<open>The oldest other file is found, when there is one before the given moment and no name is empty.\<close>

lemma find_oldest_found:
  assumes "\<forall>(k, v) \<in> set xs. k \<noteq> ''''" "\<exists>(k, v) \<in> set xs. k \<noteq> src \<and> bl_at v < t"
  shows "find_oldest src o0 t xs \<noteq> '''' \<and> find_oldest src o0 t xs \<noteq> src"
  using assms
proof (induction src o0 t xs rule: find_oldest.induct)
  case (2 src o0 t k v xs)
  have keep: "o1 \<noteq> '''' \<and> o1 \<noteq> src \<Longrightarrow> find_oldest src o1 t1 ys \<noteq> '''' \<and> find_oldest src o1 t1 ys \<noteq> src"
    if "\<forall>(k, v) \<in> set ys. k \<noteq> ''''" for o1 t1 ys
    using that by (induction src o1 t1 ys rule: find_oldest.induct) auto
  show ?case
  proof (cases "k \<noteq> src \<and> bl_at v < t")
    case True
    then show ?thesis using keep [of xs k "bl_at v"] 2(3) by auto
  next
    case False
    then show ?thesis using 2(2) [OF False] 2(3,4) by auto
  qed
qed simp

lemma find_oldest_le:
  "find_oldest src o0 t xs = o0 \<and> (\<forall>k v. (k, v) \<in> set xs \<and> k \<noteq> src \<longrightarrow> t \<le> bl_at v) \<or>
   (\<exists>v. (find_oldest src o0 t xs, v) \<in> set xs \<and> bl_at v < t \<and> (\<forall>k v'. (k, v') \<in> set xs \<and> k \<noteq> src \<longrightarrow> bl_at v \<le> bl_at v'))"
proof (induction src o0 t xs rule: find_oldest.induct)
  case (2 src o0 t k v xs)
  show ?case
  proof (cases "k \<noteq> src \<and> bl_at v < t")
    case True
    let ?k = "find_oldest src k (bl_at v) xs"
    have f: "find_oldest src o0 t ((k, v) # xs) = ?k" using True by simp
    from 2(1) [OF True] show ?thesis
    proof (elim disjE conjE exE)
      assume "?k = k" "\<forall>k' v'. (k', v') \<in> set xs \<and> k' \<noteq> src \<longrightarrow> bl_at v \<le> bl_at v'"
      then show ?thesis using True unfolding f by (intro disjI2 exI [of _ v]) auto
    next
      fix v1 assume "(?k, v1) \<in> set xs" "bl_at v1 < bl_at v" "\<forall>k' v'. (k', v') \<in> set xs \<and> k' \<noteq> src \<longrightarrow> bl_at v1 \<le> bl_at v'"
      then show ?thesis using True unfolding f by (intro disjI2 exI [of _ v1]) auto
    qed
  next
    case False
    have f: "find_oldest src o0 t ((k, v) # xs) = find_oldest src o0 t xs" using False by auto
    from 2(2) [OF False] show ?thesis
    proof (elim disjE conjE exE)
      assume "find_oldest src o0 t xs = o0" "\<forall>k' v'. (k', v') \<in> set xs \<and> k' \<noteq> src \<longrightarrow> t \<le> bl_at v'"
      then show ?thesis using False unfolding f by (intro disjI1) auto
    next
      fix v1 assume a: "(find_oldest src o0 t xs, v1) \<in> set xs" "bl_at v1 < t" "\<forall>k' v'. (k', v') \<in> set xs \<and> k' \<noteq> src \<longrightarrow> bl_at v1 \<le> bl_at v'"
      have "bl_at v1 \<le> bl_at v" if "k \<noteq> src" using False that a(2) by auto
      then show ?thesis using a unfolding f by (intro disjI2 exI [of _ v1]) auto
    qed
  qed
qed simp

text \<open>What holds of the segments while \<open>src\<close> is stored: the others are no younger than any later look at the clock.\<close>

definition segs_ok :: "(string \<times> blob) list \<Rightarrow> int \<Rightarrow> gtime \<Rightarrow> bool" where
  "segs_ok xs n t \<longleftrightarrow> distinct (map fst xs) \<and> n = total xs \<and>
     (\<forall>(k, b) \<in> set xs. k \<noteq> '''' \<and> int (length (bl_data b)) \<le> maxSegmentBytes \<and> bl_at b \<le> t)"

lemma segs_ok_delete: "segs_ok xs n t \<Longrightarrow> segs_ok (AList.delete k xs) (n - blob_len k xs) t"
  unfolding segs_ok_def by (simp add: total_delete distinct_delete) (auto simp: AList.delete_eq)

lemma set_update_sub: "set (AList.update k v xs) \<subseteq> insert (k, v) (set xs)"
  by (induction xs) auto

lemma set_update_keep: "(k', v') \<in> set xs \<Longrightarrow> k' \<noteq> k \<Longrightarrow> (k', v') \<in> set (AList.update k v xs)"
  by (induction xs) auto

lemma segs_ok_update:
  "segs_ok xs n t \<Longrightarrow> k \<noteq> '''' \<Longrightarrow> int (length d) \<le> maxSegmentBytes \<Longrightarrow> t \<le> t' \<Longrightarrow>
   segs_ok (AList.update k \<lparr>bl_data = d, bl_at = t'\<rparr> xs) (n - blob_len k xs + int (length d)) t'"
  using set_update_sub [of k "\<lparr>bl_data = d, bl_at = t'\<rparr>" xs] unfolding segs_ok_def by (fastforce simp: total_update distinct_update)

lemma small_cache:
  assumes "segs_ok xs n t" "\<not> 1 < length xs"
  shows "n \<le> maxSegCacheBytes"
proof (cases xs)
  case (Cons x ys)
  then show ?thesis using assms by (cases x) (auto simp: segs_ok_def maxSegmentBytes_def maxSegCacheBytes_def)
qed (use assms in \<open>simp add: segs_ok_def maxSegCacheBytes_def\<close>)

lemma another_key:
  assumes "distinct (map fst xs)" "1 < length xs"
  shows "\<exists>(k, v) \<in> set xs. k \<noteq> src"
proof -
  obtain a b ys where "xs = a # b # ys" using assms(2) by (metis One_nat_def Suc_less_eq length_0_conv length_Cons less_numeral_extra(3) not_less_zero neq_Nil_conv)
  then show ?thesis using assms(1) by (cases a, cases b) auto
qed

text \<open>
  The loop ends with at most 64 MiB, keeps the new file, and forgets only files that are no younger than any other one it keeps.
\<close>

lemma evict_loop_ok:
  assumes "segs_ok (re_segs r) (re_segBytes r) t" "\<forall>n. t < clk n + 3600 * second" "src \<in> fst ` set (re_segs r)"
  shows "let r' = evict_loop clk rank n src r in
    segs_ok (re_segs r') (re_segBytes r') t \<and> re_segBytes r' \<le> maxSegCacheBytes \<and> set (re_segs r') \<subseteq> set (re_segs r) \<and>
    map_of (re_segs r') src = map_of (re_segs r) src \<and>
    (\<forall>k v k' v'. (k, v) \<in> set (re_segs r) \<and> (k, v) \<notin> set (re_segs r') \<and> (k', v') \<in> set (re_segs r') \<and> k' \<noteq> src \<longrightarrow> bl_at v \<le> bl_at v') \<and>
    (re_segBytes r \<le> maxSegCacheBytes \<longrightarrow> re_segs r' = re_segs r) \<and>
    r' = r\<lparr>re_segs := re_segs r', re_segBytes := re_segBytes r'\<rparr>"
  using assms
proof (induction clk rank n src r rule: evict_loop.induct)
  case (1 clk rank n src r)
  note e = evict_loop.simps [of clk rank n src r]
  show ?case
  proof (cases "re_segBytes r > maxSegCacheBytes \<and> length (re_segs r) > 1")
    case False
    then have "evict_loop clk rank n src r = r" by (subst e) auto
    moreover have "re_segBytes r \<le> maxSegCacheBytes" using False small_cache [OF 1(2)] by auto
    ultimately show ?thesis using 1(2) by (auto simp: Let_def)
  next
    case True
    define xs where "xs = ranged (rank n) (re_segs r)"
    define k0 where "k0 = find_oldest src '''' (clk n + 3600 * second) xs"
    have sx: "set xs = set (re_segs r)" by (simp add: xs_def)
    have lt: "bl_at v < clk n + 3600 * second" if "(k, v) \<in> set (re_segs r)" for k v
    proof -
      have "bl_at v \<le> t" using 1(2) that by (auto simp: segs_ok_def)
      then show ?thesis using 1(3) [rule_format, of n] by linarith
    qed
    have "distinct (map fst (re_segs r))" using 1(2) by (simp add: segs_ok_def)
    then obtain k v where "(k, v) \<in> set (re_segs r)" "k \<noteq> src" using another_key [of "re_segs r" src] True by blast
    then have "\<exists>(k, v) \<in> set xs. k \<noteq> src \<and> bl_at v < clk n + 3600 * second" using lt unfolding sx by blast
    moreover have "\<forall>(k, v) \<in> set xs. k \<noteq> ''''" using 1(2) unfolding sx by (auto simp: segs_ok_def)
    ultimately have k0: "k0 \<noteq> ''''" "k0 \<noteq> src" using find_oldest_found [of xs src "clk n + 3600 * second" "''''"] by (simp_all add: k0_def)
    define r1 where "r1 = r\<lparr>re_segBytes := re_segBytes r - blob_len k0 (re_segs r), re_segs := AList.delete k0 (re_segs r)\<rparr>"
    have ev: "evict_loop clk rank n src r = evict_loop clk rank (n + 1) src r1"
      using True k0(1) by (simp add: e Let_def k0_def xs_def r1_def)
    obtain v0 where v0: "(k0, v0) \<in> set (re_segs r)" "\<forall>k v. (k, v) \<in> set (re_segs r) \<and> k \<noteq> src \<longrightarrow> bl_at v0 \<le> bl_at v"
      using find_oldest_le [of src "''''" "clk n + 3600 * second" xs] k0(1) unfolding k0_def [symmetric] sx by auto
    have s1: "set (re_segs r1) = {x \<in> set (re_segs r). fst x \<noteq> k0}" by (auto simp: r1_def AList.delete_eq)
    have gone: "x = (k0, v0)" if "x \<in> set (re_segs r)" "x \<notin> set (re_segs r1)" for x
    proof -
      have "distinct (map fst (re_segs r))" using 1(2) by (simp add: segs_ok_def)
      moreover have "fst x = k0" using that unfolding s1 by simp
      ultimately show ?thesis using that(1) v0(1) by (metis eq_key_imp_eq_value prod.collapse)
    qed
    define r' where "r' = evict_loop clk rank (n + 1) src r1"
    have ok1: "segs_ok (re_segs r1) (re_segBytes r1) t" using segs_ok_delete [OF 1(2)] by (simp add: r1_def)
    have src1: "src \<in> fst ` set (re_segs r1)" using 1(4) k0(2) unfolding s1 by force
    have "find_oldest src '''' (clk n + 3600 * second) (ranged (rank n) (re_segs r)) \<noteq> ''''" using k0(1) unfolding k0_def xs_def .
    note ih = 1(1) [OF True refl this, folded xs_def, folded k0_def, folded r1_def, OF ok1 1(3) src1, unfolded Let_def, folded r'_def]
    have IH: "segs_ok (re_segs r') (re_segBytes r') t" "re_segBytes r' \<le> maxSegCacheBytes" "set (re_segs r') \<subseteq> set (re_segs r1)"
      "map_of (re_segs r') src = map_of (re_segs r1) src"
      "\<forall>k v k' v'. (k, v) \<in> set (re_segs r1) \<and> (k, v) \<notin> set (re_segs r') \<and> (k', v') \<in> set (re_segs r') \<and> k' \<noteq> src \<longrightarrow> bl_at v \<le> bl_at v'"
      "r' = r1\<lparr>re_segs := re_segs r', re_segBytes := re_segBytes r'\<rparr>"
      using ih by blast+
    have "set (re_segs r') \<subseteq> set (re_segs r)" using IH(3) s1 by auto
    moreover have "map_of (re_segs r') src = map_of (re_segs r) src" using IH(4) k0(2) by (simp add: r1_def AList.delete_conv')
    moreover have "\<forall>k v k' v'. (k, v) \<in> set (re_segs r) \<and> (k, v) \<notin> set (re_segs r') \<and> (k', v') \<in> set (re_segs r') \<and> k' \<noteq> src \<longrightarrow> bl_at v \<le> bl_at v'"
    proof (intro allI impI, elim conjE)
      fix k v k' v' assume a: "(k, v) \<in> set (re_segs r)" "(k, v) \<notin> set (re_segs r')" "(k', v') \<in> set (re_segs r')" "k' \<noteq> src"
      have in': "(k', v') \<in> set (re_segs r)" using a(3) calculation(1) by blast
      show "bl_at v \<le> bl_at v'"
      proof (cases "(k, v) \<in> set (re_segs r1)")
        case True
        then show ?thesis using IH(5) a by blast
      next
        case False
        then show ?thesis using gone [OF a(1)] v0(2) in' a(4) by blast
      qed
    qed
    moreover have "r' = r\<lparr>re_segs := re_segs r', re_segBytes := re_segBytes r'\<rparr>" using IH(6) by (simp add: r1_def)
    ultimately show ?thesis using IH(1,2) True unfolding ev r'_def [symmetric] by (simp add: Let_def)
  qed
qed

lemma storeBlob_ok:
  assumes "segs_ok (re_segs r) (re_segBytes r) t" "t \<le> clk 0" "\<forall>n. clk 0 \<le> clk n" "src \<noteq> ''''" "int (length d) \<le> maxSegmentBytes"
  shows "let r' = storeBlob clk rank src d r in
    segs_ok (re_segs r') (re_segBytes r') (clk 0) \<and> re_segBytes r' \<le> maxSegCacheBytes \<and>
    map_of (re_segs r') src = Some \<lparr>bl_data = d, bl_at = clk 0\<rparr> \<and>
    (\<forall>k v. k \<noteq> src \<and> (k, v) \<in> set (re_segs r') \<longrightarrow> (k, v) \<in> set (re_segs r)) \<and>
    (\<forall>k v k' v'. k \<noteq> src \<and> (k, v) \<in> set (re_segs r) \<and> (k, v) \<notin> set (re_segs r') \<and> (k', v') \<in> set (re_segs r') \<and> k' \<noteq> src \<longrightarrow> bl_at v \<le> bl_at v') \<and>
    r' = r\<lparr>re_segs := re_segs r', re_segBytes := re_segBytes r'\<rparr>"
proof -
  let ?b = "\<lparr>bl_data = d, bl_at = clk 0\<rparr>"
  define r1 where "r1 = r\<lparr>re_segs := AList.update src ?b (re_segs r), re_segBytes := re_segBytes r - blob_len src (re_segs r) + int (length d)\<rparr>"
  have s: "storeBlob clk rank src d r = evict_loop clk rank 1 src r1" by (simp add: storeBlob_def r1_def)
  have ok: "segs_ok (re_segs r1) (re_segBytes r1) (clk 0)" using segs_ok_update [OF assms(1,4,5,2)] by (simp add: r1_def)
  have m: "map_of (re_segs r1) src = Some ?b" by (simp add: r1_def update_conv')
  then have "src \<in> fst ` set (re_segs r1)" by (metis domI dom_map_of_conv_image_fst)
  moreover have "\<forall>n. clk 0 < clk n + 3600 * second" using assms(3) by (auto intro: le_less_trans [OF _ less_add_same_cancel1 [THEN iffD2]])
  moreover have "(k, v) \<in> set (re_segs r)" if "k \<noteq> src" "(k, v) \<in> set (re_segs r1)" for k v
    using that set_update_sub [of src ?b "re_segs r"] by (auto simp: r1_def)
  moreover have "(k, v) \<in> set (re_segs r1)" if "k \<noteq> src" "(k, v) \<in> set (re_segs r)" for k v
    using that set_update_keep by (fastforce simp: r1_def)
  moreover define r' where "r' = evict_loop clk rank 1 src r1"
  ultimately have e: "segs_ok (re_segs r') (re_segBytes r') (clk 0)" "re_segBytes r' \<le> maxSegCacheBytes" "map_of (re_segs r') src = Some ?b"
    "\<forall>k v. k \<noteq> src \<and> (k, v) \<in> set (re_segs r') \<longrightarrow> (k, v) \<in> set (re_segs r)"
    "\<forall>k v k' v'. k \<noteq> src \<and> (k, v) \<in> set (re_segs r) \<and> (k, v) \<notin> set (re_segs r') \<and> (k', v') \<in> set (re_segs r') \<and> k' \<noteq> src \<longrightarrow> bl_at v \<le> bl_at v'"
    "r' = r1\<lparr>re_segs := re_segs r', re_segBytes := re_segBytes r'\<rparr>"
    using evict_loop_ok [OF ok, of clk src rank 1] m unfolding Let_def r'_def [symmetric] by (blast, blast, simp, blast, blast, blast)
  moreover have "r' = r\<lparr>re_segs := re_segs r', re_segBytes := re_segBytes r'\<rparr>" using e(6) by (simp add: r1_def)
  ultimately show ?thesis unfolding s r'_def [symmetric] Let_def by blast
qed

subsection \<open>Runs\<close>

text \<open>
  The resolver between its critical sections: the time up to which the clock was read, the downloads of \<^verbatim>\<open>getCached\<close> that run, and what
  the downloads gave, newest first.
\<close>

record run =
  rn_res :: resolver
  rn_tm :: gtime
  rn_down :: "string list"
  rn_pls :: "(string \<times> (source_error + Playlist) \<times> gtime) list"
  rn_blobs :: "(string \<times> byte list \<times> gtime) list"
  rn_inits :: "(string \<times> initEntry \<times> gtime) list"

definition begin_run :: "resolver \<Rightarrow> gtime \<Rightarrow> run" where
  "begin_run r t = \<lparr>rn_res = r, rn_tm = t, rn_down = [], rn_pls = [], rn_blobs = [], rn_inits = []\<rparr>"

text \<open>The readings of the clock in a critical section: none before an earlier one. An empty address has no scheme.\<close>

definition clock :: "run \<Rightarrow> (nat \<Rightarrow> gtime) \<Rightarrow> gtime \<Rightarrow> bool" where
  "clock st clk t \<longleftrightarrow> mono clk \<and> rn_tm st \<le> clk 0 \<and> (\<forall>n. clk n \<le> t)"

definition empty_address :: "world \<Rightarrow> bool" where
  "empty_address w \<longleftrightarrow> (\<forall>u. wo_parse w '''' = Some u \<longrightarrow> u_Scheme u = '''')"

text \<open>Goroutines of the engine in any order: the ends of downloads at any time after their beginning, in whatever world they ran.\<close>

inductive step :: "(byte list \<Rightarrow> byte list) \<Rightarrow> run \<Rightarrow> run \<Rightarrow> bool" for sha1 where
  Playlist: "clock st clk t \<Longrightarrow> pl = download w (rn_res st) src \<Longrightarrow>
    step sha1 st (st\<lparr>rn_res := playlist_store src pl (clk 1) (clk 2) (rn_res st), rn_tm := t, rn_pls := (src, pl, clk 2) # rn_pls st\<rparr>)"
| Prefetch: "step sha1 st (st\<lparr>rn_res := snd (prefetch src now (rn_res st))\<rparr>)"
| PrefetchEnd: "step sha1 st (st\<lparr>rn_res := prefetch_end src (rn_res st)\<rparr>)"
| Begin: "cached_look src now (rn_res st) = Free \<Longrightarrow>
    step sha1 st (st\<lparr>rn_res := cached_begin src (rn_res st), rn_down := src # rn_down st\<rparr>)"
| Got: "src \<in> set (rn_down st) \<Longrightarrow> clock st clk t \<Longrightarrow> empty_address w \<Longrightarrow> fst (get w (rn_res st) src maxSegmentBytes) = Inr d \<Longrightarrow>
    step sha1 st (st\<lparr>rn_res := cached_end clk rank src (Inr d) (rn_res st), rn_tm := t,
      rn_down := remove1 src (rn_down st), rn_blobs := (src, d, clk 0) # rn_blobs st\<rparr>)"
| Failed: "src \<in> set (rn_down st) \<Longrightarrow> fst (get w (rn_res st) src maxSegmentBytes) = Inl e \<Longrightarrow>
    step sha1 st (st\<lparr>rn_res := cached_end clk rank src (Inl e) (rn_res st), rn_down := remove1 src (rn_down st)\<rparr>)"
| Init: "clock st clk t \<Longrightarrow> init_entry sha1 w (rn_res st) uri = Inr e \<Longrightarrow>
    step sha1 st (st\<lparr>rn_res := init_store uri e (clk 0) (rn_res st), rn_tm := t, rn_inits := (uri, e, clk 0) # rn_inits st\<rparr>)"

inductive_cases step_cases: "step sha1 st st'"

abbreviation steps :: "(byte list \<Rightarrow> byte list) \<Rightarrow> run \<Rightarrow> run \<Rightarrow> bool" where
  "steps sha1 \<equiv> (step sha1)\<^sup>*\<^sup>*"

text \<open>
  The invariant: every cache is bounded and holds the newest thing its source gave; the running downloads are the sources in
  flight, each once.
\<close>

definition caches :: "(string \<times> 'a) list \<Rightarrow> (string \<times> 'b) list \<Rightarrow> ('a \<Rightarrow> 'b) \<Rightarrow> bool" where
  "caches xs lg f \<longleftrightarrow> (\<forall>k v. map_of xs k = Some v \<longrightarrow> map_of lg k = Some (f v))"

definition run_inv :: "run \<Rightarrow> bool" where
  "run_inv st \<longleftrightarrow>
     (let r = rn_res st in
      (\<forall>p \<in> set (re_fetch r). pp_from p \<noteq> '''') \<and>
      distinct (map fst (re_cache r)) \<and> length (re_cache r) \<le> maxCached \<and> caches (re_cache r) (rn_pls st) (\<lambda>e. (ce_pl e, ce_at e)) \<and>
      length (re_inits r) \<le> maxCached \<and> caches (re_inits r) (rn_inits st) id \<and>
      segs_ok (re_segs r) (re_segBytes r) (rn_tm st) \<and> re_segBytes r \<le> maxSegCacheBytes \<and>
      caches (re_segs r) (rn_blobs st) (\<lambda>b. (bl_data b, bl_at b)) \<and>
      distinct (re_flight r) \<and> rn_down st = re_flight r)"

lemma caches_update: "caches xs lg f \<Longrightarrow> caches (AList.update k v xs) ((k, f v) # lg) f"
  by (auto simp: caches_def update_conv')

lemma caches_sub: "caches xs lg f \<Longrightarrow> distinct (map fst xs) \<Longrightarrow> set ys \<subseteq> set xs \<Longrightarrow> caches ys lg f"
  unfolding caches_def by (meson map_of_SomeD map_of_is_SomeI subsetD)

lemma update_length: "length (AList.update k v xs) \<le> Suc (length xs)"
  by (induction xs) auto

lemma playlist_store_ok:
  assumes "distinct (map fst (re_cache r))" "length (re_cache r) \<le> maxCached" "caches (re_cache r) lg (\<lambda>e. (ce_pl e, ce_at e))"
  shows "let c = re_cache (playlist_store src pl t t' r) in
    distinct (map fst c) \<and> length c \<le> maxCached \<and> caches c ((src, pl, t') # lg) (\<lambda>e. (ce_pl e, ce_at e))"
proof -
  let ?kept = "filter (\<lambda>(_, e). fresh e t) (re_cache r)"
  define xs where "xs = (if length (re_cache r) \<ge> maxCached then (if length ?kept \<ge> maxCached then [] else ?kept) else re_cache r)"
  have "distinct (map fst ?kept)" using assms(1) by (rule distinct_map_filter)
  then have d: "distinct (map fst xs)" using assms(1) by (auto simp: xs_def)
  have "set xs \<subseteq> set (re_cache r)" by (auto simp: xs_def)
  then have c: "caches xs lg (\<lambda>e. (ce_pl e, ce_at e))" by (rule caches_sub [OF assms(3,1)])
  have "length xs < maxCached" by (auto simp: xs_def maxCached_def)
  then have "length (AList.update src \<lparr>ce_pl = pl, ce_at = t'\<rparr> xs) \<le> maxCached"
    using update_length [of src "\<lparr>ce_pl = pl, ce_at = t'\<rparr>" xs] by linarith
  then show ?thesis
    using distinct_update [OF d] caches_update [OF c, of src "\<lparr>ce_pl = pl, ce_at = t'\<rparr>"] by (simp add: playlist_store_def xs_def Let_def)
qed

lemma applyMap_empty: "\<forall>p \<in> set m. pp_from p \<noteq> '''' \<Longrightarrow> applyMap '''' m = ''''"
  by (induction m) (auto simp: HasPrefix_def)

lemma get_nonempty:
  assumes "empty_address w" "\<forall>p \<in> set (re_fetch r). pp_from p \<noteq> ''''" "fst (get w r src mx) = Inr d"
  shows "src \<noteq> ''''"
proof
  assume s: "src = ''''"
  have "source_allowed w r u \<noteq> None" if "wo_parse w '''' = Some u" for u
    using assms(1) that by (auto simp: empty_address_def source_allowed_def)
  then show False using assms(3) by (auto simp: s get_def applyMap_empty [OF assms(2)] Let_def split: option.splits)
qed

lemma run_inv_step:
  assumes "step sha1 st st'" "run_inv st"
  shows "run_inv st'"
  using assms
proof (induction rule: step.induct)
  case (Playlist st clk t pl w src)
  have "segs_ok (re_segs (rn_res st)) (re_segBytes (rn_res st)) t"
    using Playlist(1,3) unfolding run_inv_def clock_def segs_ok_def Let_def by (fastforce intro: order_trans)
  then show ?case
    using playlist_store_ok [of "rn_res st" "rn_pls st" src pl "clk 1" "clk 2"] Playlist(3)
    by (simp add: run_inv_def Let_def) (simp add: playlist_store_def Let_def)
next
  case (Prefetch st src now)
  then show ?case by (auto simp: run_inv_def prefetch_def Let_def)
next
  case (PrefetchEnd st src)
  then show ?case by (simp add: run_inv_def prefetch_end_def Let_def)
next
  case (Begin src now st)
  then show ?case by (auto simp: run_inv_def cached_begin_def cached_look_def Let_def split: option.splits if_splits)
next
  case (Got src st clk t w d rank)
  let ?r = "rn_res st" let ?r' = "storeBlob clk rank src d ?r"
  have pre: "\<forall>p \<in> set (re_fetch ?r). pp_from p \<noteq> ''''" "segs_ok (re_segs ?r) (re_segBytes ?r) (rn_tm st)" "caches (re_segs ?r) (rn_blobs st) (\<lambda>b. (bl_data b, bl_at b))"
    "distinct (re_flight ?r)" "rn_down st = re_flight ?r" using Got(5) by (simp_all add: run_inv_def Let_def)
  have clk: "rn_tm st \<le> clk 0" "\<forall>n. clk 0 \<le> clk n" "clk 0 \<le> t" using Got(2) by (auto simp: clock_def mono_def)
  have ok: "segs_ok (re_segs ?r') (re_segBytes ?r') (clk 0)" "re_segBytes ?r' \<le> maxSegCacheBytes" "map_of (re_segs ?r') src = Some \<lparr>bl_data = d, bl_at = clk 0\<rparr>"
    "\<forall>k v. k \<noteq> src \<and> (k, v) \<in> set (re_segs ?r') \<longrightarrow> (k, v) \<in> set (re_segs ?r)" "?r' = ?r\<lparr>re_segs := re_segs ?r', re_segBytes := re_segBytes ?r'\<rparr>"
    using storeBlob_ok [OF pre(2) clk(1,2) get_nonempty [OF Got(3) pre(1) Got(4)] get_Inr_len [OF Got(4)], of rank] unfolding Let_def by blast+
  have "segs_ok (re_segs ?r') (re_segBytes ?r') t" using ok(1) clk(3) by (fastforce simp: segs_ok_def)
  moreover have "caches (re_segs ?r') ((src, d, clk 0) # rn_blobs st) (\<lambda>b. (bl_data b, bl_at b))"
    unfolding caches_def
  proof (intro allI impI)
    fix k v assume m: "map_of (re_segs ?r') k = Some v"
    show "map_of ((src, d, clk 0) # rn_blobs st) k = Some (bl_data v, bl_at v)"
    proof (cases "k = src")
      case False
      then have "(k, v) \<in> set (re_segs ?r)" using ok(4) map_of_SomeD [OF m] by blast
      then have "map_of (re_segs ?r) k = Some v" using pre(2) by (auto simp: segs_ok_def intro: map_of_is_SomeI)
      then show ?thesis using False pre(3) by (auto simp: caches_def)
    qed (use m ok(3) in auto)
  qed
  moreover have "remove1 src (rn_down st) = removeAll src (re_flight ?r)" using pre(4,5) by (simp add: distinct_remove1_removeAll)
  moreover obtain xs n where "?r' = ?r\<lparr>re_segs := xs, re_segBytes := n\<rparr>" using ok(5) by blast
  ultimately show ?case using Got(5) ok(2) by (simp add: run_inv_def cached_end_def Let_def distinct_removeAll)
next
  case (Failed src st w e clk rank)
  then show ?case by (auto simp: run_inv_def cached_end_def Let_def distinct_remove1_removeAll distinct_removeAll)
next
  case (Init st clk t w uri e)
  let ?xs = "if length (re_inits (rn_res st)) \<ge> maxCached then [] else re_inits (rn_res st)"
  have "segs_ok (re_segs (rn_res st)) (re_segBytes (rn_res st)) t"
    using Init(1,3) unfolding run_inv_def clock_def segs_ok_def Let_def by (fastforce intro: order_trans)
  moreover have "caches ?xs (rn_inits st) id" using Init(3) by (simp add: run_inv_def Let_def caches_def)
  moreover have "length (AList.update uri (e, clk 0) ?xs) \<le> maxCached"
    using update_length [of uri "(e, clk 0)" ?xs] by (auto simp: maxCached_def split: if_splits)
  ultimately show ?case using Init(3) caches_update [where f = id, of ?xs "rn_inits st" uri "(e, clk 0)"]
    by (simp add: run_inv_def init_store_def Let_def del: if_split)
qed

lemma run_inv_begin: "run_inv (begin_run (newResolver cfg) t)"
proof -
  have "pp_from p \<noteq> ''''" if "p \<in> set (parseMap m)" for p m
  proof -
    have "\<exists>part. parse_pair (TrimSpace part) = Some p" using that by (auto simp: parseMap_def map_filter_def)
    then obtain part where part: "parse_pair (TrimSpace part) = Some p" by blast
    then show ?thesis by (cases "cut_at (CHR ''='') (TrimSpace part)") (auto simp: parse_pair_def split: if_splits)
  qed
  then show ?thesis by (simp add: run_inv_def begin_run_def newResolver_def caches_def segs_ok_def maxCached_def maxSegCacheBytes_def)
qed

lemma run_inv_steps: "steps sha1 st st' \<Longrightarrow> run_inv st \<Longrightarrow> run_inv st'"
  by (induction rule: rtranclp_induct) (auto intro: run_inv_step)

subsection \<open>What the resolver promises\<close>


text \<open>When room is needed the oldest files go first: a file that is stored stays, and every other file that goes is no younger
  than any other that stays.\<close>

theorem storeBlob_drops_oldest:
  assumes "steps sha1 (begin_run (newResolver cfg) t) st" "clock st clk t'" "src \<noteq> ''''" "int (length d) \<le> maxSegmentBytes"
  shows "let r = rn_res st; r' = storeBlob clk rank src d r in
    map_of (re_segs r') src = Some \<lparr>bl_data = d, bl_at = clk 0\<rparr> \<and>
    (\<forall>k v k' v'. k \<noteq> src \<and> (k, v) \<in> set (re_segs r) \<and> (k, v) \<notin> set (re_segs r') \<and> (k', v') \<in> set (re_segs r') \<and> k' \<noteq> src \<longrightarrow> bl_at v \<le> bl_at v')"
proof -
  have "segs_ok (re_segs (rn_res st)) (re_segBytes (rn_res st)) (rn_tm st)"
    using run_inv_steps [OF assms(1) run_inv_begin] by (simp add: run_inv_def Let_def)
  moreover have "rn_tm st \<le> clk 0" "\<forall>n. clk 0 \<le> clk n" using assms(2) by (auto simp: clock_def mono_def)
  ultimately show ?thesis using storeBlob_ok [OF _ _ _ assms(3,4), of "rn_res st" "rn_tm st" clk rank] unfolding Let_def by blast
qed

lemma hex_lower_not_slash: "d < 16 \<Longrightarrow> hex_lower d \<noteq> CHR ''/''"
proof -
  assume "d < 16"
  then have "unat d < 16" by (simp add: word_less_nat_alt)
  then have "of_char (hex_lower d) \<noteq> (of_char (CHR ''/'') :: nat)" by (simp add: hex_lower_def)
  then show ?thesis by auto
qed

lemma init_entry_name:
  assumes "init_entry sha1 w r uri = Inr e"
  shows "init_name (ie_name e)"
proof -
  have plain: "CHR ''/'' \<notin> set (EncodeToString b)" for b
  proof -
    have "drop_bit 4 x < (16 :: byte)" "x AND 15 < (16 :: byte)" for x :: byte
    proof -
      have "unat x < 256" using unsigned_less [of x] by simp
      then show "drop_bit 4 x < 16" by (simp add: word_less_nat_alt drop_bit_eq_div unat_div less_mult_imp_div_less)
      have "x AND 15 \<le> 15" by (rule word_and_le1)
      also have "15 < (16 :: byte)" by simp
      finally show "x AND 15 < 16" .
    qed
    then show ?thesis using hex_lower_not_slash by (auto simp: EncodeToString_def) metis+
  qed
  obtain b where b: "(case ParseInit b of Inl e \<Rightarrow> Inl (BadInit uri e)
      | Inr parsed \<Rightarrow> Inr \<lparr>ie_data = b, ie_parsed = parsed, ie_name = ''init_'' @ EncodeToString (take 4 (sha1 b)) @ ''.mp4''\<rparr>) = Inr e"
    using assms by (auto simp: init_entry_def bindE_Inr_iff)
  then have "ie_name e = ''init_'' @ EncodeToString (take 4 (sha1 b)) @ ''.mp4''" by (cases "ParseInit b") auto
  then show ?thesis using plain by (simp add: init_name_def plain_name_def HasPrefix_def)
qed

text \<open>C19. What the caches serve is what the source gave last, and not long ago: a playlist is at most ten minutes old, an error five
  seconds, a segment two minutes, an init section ten minutes; and an init section has a file name of its own, as the
  live playlist needs it.\<close>

theorem resolver_serves_fresh:
  assumes "steps sha1 (begin_run (newResolver cfg) t) st"
  shows "let r = rn_res st in
    (\<forall>pl. playlist_look src now r = Some pl \<longrightarrow>
       (\<exists>at1. map_of (rn_pls st) src = Some (pl, at1) \<and> Sub now at1 < (if isl pl then 5 * second else 600 * second))) \<and>
    (\<forall>d. cached_look src now r = Hit d \<longrightarrow> (\<exists>at1. map_of (rn_blobs st) src = Some (d, at1) \<and> Sub now at1 < 120 * second)) \<and>
    (\<forall>e. init_look src now r = Some e \<longrightarrow>
       (\<exists>at1. map_of (rn_inits st) src = Some (e, at1) \<and> Sub now at1 < 600 * second \<and> init_name (ie_name e)))"
proof -
  have inv: "run_inv st" by (rule run_inv_steps [OF assms run_inv_begin])
  have named: "\<forall>(u, e, t) \<in> set (rn_inits st). init_name (ie_name e)"
    using assms
  proof (induction rule: rtranclp_induct)
    case (step st1 st2)
    from step(2,3) show ?case by (induction rule: step.induct) (auto simp: init_entry_name)
  qed (simp add: begin_run_def)
  have "playlist_look src now (rn_res st) = Some pl \<Longrightarrow>
    \<exists>at1. map_of (rn_pls st) src = Some (pl, at1) \<and> Sub now at1 < (if isl pl then 5 * second else 600 * second)" for pl
    using inv by (auto simp: run_inv_def Let_def caches_def playlist_look_def fresh_def errTTL_def okTTL_def split: option.splits if_splits sum.splits)
  moreover have "cached_look src now (rn_res st) = Hit d \<Longrightarrow> \<exists>at1. map_of (rn_blobs st) src = Some (d, at1) \<and> Sub now at1 < 120 * second" for d
    using inv by (auto simp: run_inv_def Let_def caches_def cached_look_def segTTL_def split: option.splits if_splits)
  moreover have "init_look src now (rn_res st) = Some e \<Longrightarrow>
    \<exists>at1. map_of (rn_inits st) src = Some (e, at1) \<and> Sub now at1 < 600 * second \<and> init_name (ie_name e)" for e
  proof -
    assume "init_look src now (rn_res st) = Some e"
    then obtain at1 where at1: "map_of (rn_inits st) src = Some (e, at1)" "Sub now at1 < 600 * second"
      using inv by (auto simp: run_inv_def Let_def caches_def init_look_def okTTL_def split: option.splits if_splits)
    then show ?thesis using named map_of_SomeD [OF at1(1)] by auto
  qed
  ultimately show ?thesis by (simp add: Let_def)
qed

text \<open>What \<^verbatim>\<open>prepare\<close> (the packager's) gets when it asks the resolver, the errors as texts.\<close>

definition text_error :: "(source_error \<Rightarrow> string) \<Rightarrow> source_error + 'a \<Rightarrow> string + 'a" where
  "text_error etext res = (case res of Inl e \<Rightarrow> Inl (etext e) | Inr x \<Rightarrow> Inr x)"

definition sources_of :: "(byte list \<Rightarrow> byte list) \<Rightarrow> (source_error \<Rightarrow> string) \<Rightarrow> world \<Rightarrow> (nat \<Rightarrow> gtime) \<Rightarrow> (nat \<Rightarrow> string \<Rightarrow> nat) \<Rightarrow>
    (resolver \<Rightarrow> resolver) \<Rightarrow> (gtime \<times> resolver) list \<Rightarrow> resolver \<Rightarrow> sources" where
  "sources_of sha1 etext w clk rank others waits r =
     \<lparr>so_playlist = (\<lambda>u. text_error etext (fst (playlist w clk u r))),
      so_init = (\<lambda>u. text_error etext (fst (initSection sha1 w clk u r))),
      so_blob = (\<lambda>u. text_error etext (fst (getCached w clk rank others waits u maxSegmentBytes (clk 0) r)))\<rparr>"

definition playlist_ok :: "Playlist \<Rightarrow> bool" where
  "playlist_ok pl \<longleftrightarrow> pl_Segments pl \<noteq> [] \<and> (\<forall>s \<in> set (pl_Segments pl). 0 \<le> sg_Duration s)"

lemma download_ok: "download w r src = Inr pl \<Longrightarrow> playlist_ok pl"
proof -
  assume a: "download w r src = Inr pl"
  then obtain u b where "(case Hls.Parse (wo_ref w u) (text_of b) of Inl e \<Rightarrow> Inl (BadPlaylist (applyMap src (re_fetch r)) e) | Inr pl \<Rightarrow> Inr pl) = Inr pl"
    by (auto simp: download_def bindE_Inr_iff Let_def split: option.splits)
  then have "Hls.Parse (wo_ref w u) (text_of b) = Inr pl" by (cases "Hls.Parse (wo_ref w u) (text_of b)") auto
  then show ?thesis using Parse_segments by (simp add: playlist_ok_def)
qed

lemma log_ok:
  assumes "steps sha1 (begin_run r t) st"
  shows "(\<forall>x \<in> set (rn_pls st). \<forall>pl. fst (snd x) = Inr pl \<longrightarrow> playlist_ok pl) \<and> (\<forall>x \<in> set (rn_inits st). init_name (ie_name (fst (snd x))))"
  using assms
proof (induction rule: rtranclp_induct)
  case (step st1 st2)
  from step(2,3) show ?case by (induction rule: step.induct) (auto simp: init_entry_name dest: download_ok)
qed (simp add: begin_run_def)

lemma text_error_Inr [simp]: "text_error etext res = Inr x \<longleftrightarrow> res = Inr x"
  by (cases res) (simp_all add: text_error_def)

lemma getCached_len:
  assumes "fst (getCached w clk rank others waits src mx now r) = Inr d" "mx \<le> maxSegmentBytes" "run_inv st" "rn_res st = r"
    "\<forall>x \<in> set waits. \<exists>st. run_inv st \<and> rn_res st = snd x"
  shows "int (length d) \<le> maxSegmentBytes"
  using assms
proof (induction waits arbitrary: now r st)
  case Nil
  have "int (length d) \<le> maxSegmentBytes" if "cached_look src now r = Hit d"
    using that Nil(3,4) by (auto simp: cached_look_def run_inv_def segs_ok_def Let_def split: option.splits if_splits dest: map_of_SomeD)
  then show ?case using Nil(1,2) get_Inr_len [of w r src mx d]
    by (subst (asm) getCached.simps) (auto simp: Let_def split: look.splits)
next
  case (Cons x waits)
  have hit: "int (length d) \<le> maxSegmentBytes" if "cached_look src now r = Hit d"
    using that Cons(4,5) by (auto simp: cached_look_def run_inv_def segs_ok_def Let_def split: option.splits if_splits dest: map_of_SomeD)
  obtain st' where st': "run_inv st'" "rn_res st' = snd x" using Cons(6) by auto
  show ?case
  proof (cases "cached_look src now r")
    case Running
    then have "fst (getCached w clk rank others waits src mx (fst x) (snd x)) = Inr d"
      using Cons(2) by (subst (asm) getCached.simps) (auto split: prod.splits)
    then show ?thesis using Cons(1) [OF _ Cons(3) st'] Cons(6) by auto
  next
    case Free
    then show ?thesis using Cons(2,3) get_Inr_len [of w r src mx d] by (subst (asm) getCached.simps) (auto simp: Let_def)
  next
    case (Hit d')
    then show ?thesis using Cons(2) hit by (subst (asm) getCached.simps) auto
  qed
qed

text \<open>C20. The resolver keeps what the engine relies on, whatever state its caches are in and whatever the sources answer: a playlist
  it gives has segments (so that a looped slate never divides by zero) and none of negative length, an init section has a
  plain file name of its own, and a segment has at most 64 MiB.\<close>

theorem resolver_serves_engine:
  assumes "steps sha1 (begin_run (newResolver cfg) t) st"
    and "\<forall>x \<in> set waits. \<exists>st'. steps sha1 (begin_run (newResolver cfg) t) st' \<and> rn_res st' = snd x"
  shows "let so = sources_of sha1 etext w clk rank others waits (rn_res st) in
    sources_ok so \<and> (\<forall>u pl. so_playlist so u = Inr pl \<longrightarrow> playlist_ok pl) \<and> (\<forall>u d. so_blob so u = Inr d \<longrightarrow> int (length d) \<le> maxSegmentBytes)"
proof -
  have inv: "run_inv st'" if "steps sha1 (begin_run (newResolver cfg) t) st'" for st' by (rule run_inv_steps [OF that run_inv_begin])
  note st = inv [OF assms(1)] and lg = log_ok [OF assms(1)]
  have "init_name (ie_name e)" if "fst (initSection sha1 w clk u (rn_res st)) = Inr e" for u e
  proof (cases "init_look u (clk 0) (rn_res st)")
    case None
    then show ?thesis using that by (auto simp: initSection_def init_entry_name split: sum.splits)
  next
    case (Some e')
    then obtain at1 where "map_of (rn_inits st) u = Some (e', at1)"
      using st by (auto simp: run_inv_def Let_def caches_def init_look_def split: option.splits if_splits)
    then show ?thesis using that Some lg map_of_SomeD [of "rn_inits st" u] by (fastforce simp: initSection_def)
  qed
  moreover have "playlist_ok pl" if "fst (playlist w clk u (rn_res st)) = Inr pl" for u pl
  proof (cases "playlist_look u (clk 0) (rn_res st)")
    case None
    then show ?thesis using that by (auto simp: playlist_def Let_def intro: download_ok)
  next
    case (Some res)
    then obtain at1 where "map_of (rn_pls st) u = Some (res, at1)"
      using st by (auto simp: run_inv_def Let_def caches_def playlist_look_def split: option.splits if_splits)
    then show ?thesis using that Some lg map_of_SomeD [of "rn_pls st" u] by (fastforce simp: playlist_def)
  qed
  moreover have "int (length d) \<le> maxSegmentBytes"
    if "fst (getCached w clk rank others waits u maxSegmentBytes (clk 0) (rn_res st)) = Inr d" for u d
    using getCached_len [OF that order_refl st refl] assms(2) inv by blast
  ultimately show ?thesis by (simp add: sources_of_def sources_ok_def Let_def)
qed

subsection \<open>Witnesses\<close>

text \<open>A web server with one segment, and a resolver that has downloaded it.\<close>

definition w_web :: world where
  "w_web = \<lparr>wo_parse = (\<lambda>s. if s = ''http://s/a'' then Some \<lparr>u_Scheme = ''http'', u_Host = ''S:80'', u_Path = ''/a''\<rparr> else None),
     wo_ref = (\<lambda>_ _. None), wo_links = (\<lambda>_. None), wo_file = (\<lambda>_. None),
     wo_http = (\<lambda>n u. if n = 0 then Redirect (u\<lparr>u_Path := ''/b''\<rparr>) else Reply 200 (Some [1, 2, 3]))\<rparr>"

definition w_resolver :: resolver where
  "w_resolver = newResolver (default_config\<lparr>cfg_SourceAllowHosts := ''other, s''\<rparr>)"

definition w_loaded :: run where
  "w_loaded = (let st = begin_run w_resolver 0 in
     st\<lparr>rn_res := w_resolver\<lparr>re_segs := [(''http://s/a'', \<lparr>bl_data = [1, 2, 3], bl_at = 0\<rparr>)], re_segBytes := 3\<rparr>,
        rn_blobs := [(''http://s/a'', [1, 2, 3], 0)]\<rparr>)"

lemma w_settings: "re_fetch w_resolver = []" "applyMap u [] = u"
  by code_simp simp

lemma w_allowed: "source_allowed w_web w_resolver \<lparr>u_Scheme = ''http'', u_Host = ''S:80'', u_Path = p\<rparr> = None"
proof -
  have "Hostname \<lparr>u_Scheme = ''http'', u_Host = ''S:80'', u_Path = p\<rparr> = ''S''" by (simp add: Hostname_def HasPrefix_def is_digit_def)
  moreover have "re_hosts w_resolver = Some [''other'', ''s'']" "ToLower ''S'' = ''s''" by code_simp+
  ultimately show ?thesis by (simp add: source_allowed_def)
qed

lemma w_get: "get w_web w_resolver ''http://s/a'' maxSegmentBytes =
  (Inr [1, 2, 3], [Request \<lparr>u_Scheme = ''http'', u_Host = ''S:80'', u_Path = ''/a''\<rparr>, Request \<lparr>u_Scheme = ''http'', u_Host = ''S:80'', u_Path = ''/b''\<rparr>])"
proof -
  let ?a = "\<lparr>u_Scheme = ''http'', u_Host = ''S:80'', u_Path = ''/a''\<rparr>" let ?b = "\<lparr>u_Scheme = ''http'', u_Host = ''S:80'', u_Path = ''/b''\<rparr>"
  have w: "wo_parse w_web ''http://s/a'' = Some ?a" "wo_http w_web 0 ?a = Redirect ?b" "wo_http w_web (Suc 0) ?b = Reply 200 (Some [1, 2, 3])"
    by (simp_all add: w_web_def)
  have "do_request w_web w_resolver (Suc 0) ?b = (Inr (200, Some [1, 2, 3]), [?b])" by (simp add: do_request.simps w(3))
  then have d: "do_request w_web w_resolver 0 ?a = (Inr (200, Some [1, 2, 3]), [?a, ?b])" by (subst do_request.simps) (simp add: w(2) w_allowed)
  have "limited x maxSegmentBytes [1, 2, 3] = Inr [1, 2, 3]" for x by (simp add: limited_def maxSegmentBytes_def)
  then show ?thesis by (simp add: get_def w_settings w(1) w_allowed d)
qed

lemma w_steps: "steps sha1 (begin_run w_resolver 0) w_loaded"
proof -
  let ?st = "begin_run w_resolver 0" let ?src = "''http://s/a''"
  let ?st1 = "?st\<lparr>rn_res := cached_begin ?src w_resolver, rn_down := [?src]\<rparr>"
  have "cached_look ?src 0 w_resolver = Free" by (simp add: cached_look_def w_resolver_def newResolver_def)
  then have "step sha1 ?st ?st1" using step.Begin [of ?src 0 ?st] by (simp add: begin_run_def)
  moreover have "step sha1 ?st1 w_loaded"
  proof -
    have "get w_web (cached_begin ?src w_resolver) ?src maxSegmentBytes = get w_web w_resolver ?src maxSegmentBytes"
      by (rule get_cong) (simp_all add: cached_begin_def)
    then have g: "fst (get w_web (cached_begin ?src w_resolver) ?src maxSegmentBytes) = Inr [1, 2, 3]" by (simp add: w_get)
    have "cached_end (\<lambda>_. 0) (\<lambda>_ _. 0) ?src (Inr [1, 2, 3]) (cached_begin ?src w_resolver) = rn_res w_loaded"
      by (simp add: cached_end_def cached_begin_def storeBlob_def blob_len_def w_resolver_def newResolver_def w_loaded_def Let_def evict_loop.simps maxSegCacheBytes_def)
    then show ?thesis
      using step.Got [of ?src ?st1 "\<lambda>_. 0" 0 w_web "[1, 2, 3]" sha1 "\<lambda>_ _. 0"] g
      by (simp add: clock_def mono_def empty_address_def w_web_def begin_run_def w_loaded_def)
  qed
  ultimately show ?thesis by (meson converse_rtranclp_into_rtranclp rtranclp.rtrancl_refl)
qed



theorem storeBlob_drops_oldest_witness:
  "map_of (re_segs (storeBlob (\<lambda>_. 7) (\<lambda>_ _. 0) ''b'' [4] (rn_res w_loaded))) ''b'' = Some \<lparr>bl_data = [4], bl_at = 7\<rparr>"
  using storeBlob_drops_oldest [OF w_steps [unfolded w_resolver_def], of "\<lambda>_. 7" 7 "''b''" "[4]" "\<lambda>_ _. 0"]
  by (simp add: Let_def clock_def mono_def w_loaded_def begin_run_def maxSegmentBytes_def)

theorem resolver_serves_fresh_witness:
  "cached_look ''http://s/a'' (60 * second) (rn_res w_loaded) = Hit [1, 2, 3] \<and> map_of (rn_blobs w_loaded) ''http://s/a'' = Some ([1, 2, 3], 0)"
proof -
  have h: "cached_look ''http://s/a'' (60 * second) (rn_res w_loaded) = Hit [1, 2, 3]"
    by (simp add: cached_look_def w_loaded_def segTTL_def Let_def)
  then show ?thesis
    using resolver_serves_fresh [OF w_steps [unfolded w_resolver_def], of "''http://s/a''" "60 * second"] by (auto simp: Let_def w_loaded_def)
qed

theorem resolver_serves_engine_witness:
  "sources_ok (sources_of (\<lambda>_. []) (\<lambda>_. '''') w_web (\<lambda>_. 0) (\<lambda>_ _. 0) id [] (rn_res w_loaded)) \<and>
   so_blob (sources_of (\<lambda>_. []) (\<lambda>_. '''') w_web (\<lambda>_. 0) (\<lambda>_ _. 0) id [] (rn_res w_loaded)) ''http://s/a'' = Inr [1, 2, 3]"
proof -
  have "cached_look ''http://s/a'' 0 (rn_res w_loaded) = Hit [1, 2, 3]"
    by (simp add: cached_look_def w_loaded_def segTTL_def Let_def)
  then have "so_blob (sources_of (\<lambda>_. []) (\<lambda>_. '''') w_web (\<lambda>_. 0) (\<lambda>_ _. 0) id [] (rn_res w_loaded)) ''http://s/a'' = Inr [1, 2, 3]"
    by (simp add: sources_of_def getCached.simps)
  then show ?thesis
    using resolver_serves_engine [OF w_steps [where ?sha1.0 = "\<lambda>_. []", unfolded w_resolver_def], where waits = "[]" and etext = "\<lambda>_. ''''" and w = w_web and clk = "\<lambda>_. 0" and rank = "\<lambda>_ _. 0" and others = id]
    by (simp add: Let_def)
qed

end
