(* ===== verification/EngineApi.thy ===== *)
theory EngineApi
  imports Engine Webhook Auth
begin

text \<open>
  The HTTP interface of the engine (\<^verbatim>\<open>services/engine/main.go\<close>) and the event stream that it serves (\<^verbatim>\<open>ServeSSE\<close> of
  \<^verbatim>\<open>pkg/events/events.go\<close>). A stream is a session: what it wrote, the rest of its replay and its subscription; its turns
  of the \<^verbatim>\<open>select\<close> interleave with everything else that happens to the hub.
\<close>

subsection \<open>Status\<close>

record ChannelStatus =
  cs_NowSeq :: int
  cs_WindowLen :: int
  cs_LastTimelineAt :: gtime
  cs_AdState :: string
  cs_Gaps :: int
  cs_Segments :: int
  cs_LastPlaylistAt :: gtime

definition snapshot :: "engineState \<Rightarrow> ChannelStatus" where
  "snapshot s = \<lparr>cs_NowSeq = es_nowSeq s, cs_WindowLen = es_windowLen s, cs_LastTimelineAt = es_lastTimelineAt s, cs_AdState = es_adState s,
     cs_Gaps = es_gaps s, cs_Segments = es_segments s, cs_LastPlaylistAt = es_lastPlaylistAt s\<rparr>"

record webhookStats =
  wh_Delivered :: nat
  wh_Failed :: nat
  wh_Dropped :: nat

record statusReply =
  sr_ChannelStatus :: ChannelStatus
  sr_Webhooks :: "webhookStats option"

text \<open>\<open>None\<close> for an engine without webhooks.\<close>

definition status :: "engine \<Rightarrow> ws option \<Rightarrow> statusReply" where
  "status e sender =
     \<lparr>sr_ChannelStatus = snapshot (en_state e),
      sr_Webhooks = map_option (\<lambda>w. \<lparr>wh_Delivered = ws_delivered w, wh_Failed = ws_failed w, wh_Dropped = ws_dropped w\<rparr>) sender\<rparr>"

definition status_json :: "statusReply \<Rightarrow> json" where
  "status_json r =
     (let c = sr_ChannelStatus r in
      JObj ([(''now_seq'', JInt (cs_NowSeq c)), (''window_len'', JInt (cs_WindowLen c)), (''last_timeline_at'', JTime (cs_LastTimelineAt c)),
        (''ad_state'', JStr (cs_AdState c)), (''gaps'', JInt (cs_Gaps c)), (''segments'', JInt (cs_Segments c)),
        (''last_playlist_at'', JTime (cs_LastPlaylistAt c))] @
       (case sr_Webhooks r of None \<Rightarrow> []
        | Some w \<Rightarrow> [(''webhooks'', JObj [(''delivered'', JInt (int (wh_Delivered w))), (''failed'', JInt (int (wh_Failed w))), (''dropped'', JInt (int (wh_Dropped w)))])])))"

subsection \<open>Event streams\<close>

text \<open>\<open>sn_out\<close> are the writes, in order; \<open>sn_seen\<close> are the events that were taken from the replay and the channel, which the code does not keep.\<close>

record session =
  sn_sub :: nat
  sn_replay :: "Event list"
  sn_out :: "string list"
  sn_open :: bool
  sn_seen :: "Event list"

definition connected :: string where "connected = '': connected'' @ [CHR 0x0A, CHR 0x0A]"
definition keepalive :: string where "keepalive = '': keepalive'' @ [CHR 0x0A, CHR 0x0A]"

text \<open>The start of a stream; \<open>between\<close> is what happens to the hub between the look at its last id and the subscription.\<close>

definition resume_after :: "request \<Rightarrow> Hub \<Rightarrow> int" where
  "resume_after r h =
     sse_after (\<lambda>v. fst (ParseInt64 v)) (rq_header r ''Last-Event-ID'') (rq_query r ''last_event_id'') (rq_query r ''from'') h"

definition open_stream :: "(Hub \<Rightarrow> Hub) \<Rightarrow> request \<Rightarrow> Hub \<Rightarrow> Hub \<times> session" where
  "open_stream between r h =
     (case Subscribe (resume_after r h) (between h) of (replay, a, h') \<Rightarrow>
        (h', \<lparr>sn_sub = a, sn_replay = replay, sn_out = [connected], sn_open = True, sn_seen = []\<rparr>))"

text \<open>The end of the handler closes the subscription. A write to the client succeeds or not; an event of another channel is skipped.\<close>

definition hang_up :: "Hub \<Rightarrow> session \<Rightarrow> Hub \<times> session" where
  "hang_up h s = (Close (sn_sub s) h, s\<lparr>sn_open := False\<rparr>)"

definition write_event :: "(Event \<Rightarrow> string) \<Rightarrow> string \<Rightarrow> bool \<Rightarrow> Event \<Rightarrow> Hub \<Rightarrow> session \<Rightarrow> Hub \<times> session" where
  "write_event json channel good e h s =
     (if ev_Channel e \<noteq> channel then (h, s\<lparr>sn_seen := sn_seen s @ [e]\<rparr>)
      else if good then (h, s\<lparr>sn_out := sn_out s @ [sse_write json channel e], sn_seen := sn_seen s @ [e]\<rparr>)
      else hang_up h s)"

definition turn :: "(Event \<Rightarrow> string) \<Rightarrow> string \<Rightarrow> bool \<Rightarrow> Hub \<Rightarrow> session \<Rightarrow> Hub \<times> session" where
  "turn json channel good h s =
     (case sn_replay s of
        e # es \<Rightarrow> write_event json channel good e h (s\<lparr>sn_replay := es\<rparr>)
      | [] \<Rightarrow>
          (case recv (sn_sub s) h of
             Some (e, h') \<Rightarrow> write_event json channel good e h' s
           | None \<Rightarrow> if sb_closed (hb_store h ! sn_sub s) then hang_up h s else (h, s)))"

datatype stream_act = Publishes string string data gtime | Subscribes int | Receives nat | Closes nat | Turn bool | Tick bool | Leaves

text \<open>\<open>Tick\<close> is the ticker of 15 seconds, which is heard only after the replay; the rest are other users of the hub and the client that leaves.\<close>

fun stream_step :: "(Event \<Rightarrow> string) \<Rightarrow> string \<Rightarrow> stream_act \<Rightarrow> Hub \<times> session \<Rightarrow> Hub \<times> session" where
  "stream_step json channel (Publishes typ ch dat now) (h, s) = (snd (Publish typ ch dat now h), s)"
| "stream_step json channel (Subscribes after) (h, s) = (snd (snd (Subscribe after h)), s)"
| "stream_step json channel (Receives b) (h, s) = (if b = sn_sub s then (h, s) else (case recv b h of None \<Rightarrow> (h, s) | Some (_, h') \<Rightarrow> (h', s)))"
| "stream_step json channel (Closes b) (h, s) = (if b = sn_sub s then (h, s) else (Close b h, s))"
| "stream_step json channel (Turn good) (h, s) = (if sn_open s then turn json channel good h s else (h, s))"
| "stream_step json channel (Tick good) (h, s) =
     (if \<not> sn_open s \<or> sn_replay s \<noteq> [] then (h, s)
      else if good then (h, s\<lparr>sn_out := sn_out s @ [keepalive]\<rparr>) else hang_up h s)"
| "stream_step json channel Leaves (h, s) = (if sn_open s \<and> sn_replay s = [] then hang_up h s else (h, s))"

subsection \<open>Routes\<close>

datatype engine_route = Healthz | Readyz | Metrics | StatusR | EventsR

definition engine_pattern :: "engine_route \<Rightarrow> string \<times> string" where
  "engine_pattern rt =
     (case rt of
        Healthz \<Rightarrow> (''GET'', ''/healthz'')
      | Readyz \<Rightarrow> (''GET'', ''/readyz'')
      | Metrics \<Rightarrow> (''GET'', ''/metrics'')
      | StatusR \<Rightarrow> (''GET'', ''/v1/channels/{channel_id}/status'')
      | EventsR \<Rightarrow> (''GET'', ''/v1/channels/{channel_id}/events''))"

text \<open>The running engine as its handlers see it, and what a request meets.\<close>

record engine_http =
  eh_engine :: engine
  eh_sender :: "ws option"
  eh_streams :: "session list"

record engine_env =
  ee_sha :: "string \<Rightarrow> byte list"
  ee_keys :: "Key list"
  ee_cfg :: Config
  ee_ping :: bool
  ee_metrics :: response
  ee_flusher :: bool
  ee_between :: "Hub \<Rightarrow> Hub"

definition ready_handler :: "engine_env \<Rightarrow> engine_http handler" where
  "ready_handler v ctx r st =
     (if \<not> ee_ping v then WriteProblem [] 503 ''unready'' ''postgres unavailable''
      else if \<not> en_ready (eh_engine st) then WriteProblem [] 503 ''unready'' ''no playlist written yet''
      else WriteHeader 200, st)"

definition mine :: "Config \<Rightarrow> engine_http handler \<Rightarrow> engine_http handler" where
  "mine cfg nxt ctx r st =
     (if rq_param r ''channel_id'' \<noteq> cfg_ChannelID cfg then (WriteProblem [] 404 ''Not Found'' ''this engine does not play that channel'', st)
      else nxt ctx r st)"

definition status_handler :: "engine_http handler" where
  "status_handler ctx r st = (WriteJSON [] 200 (status_json (status (eh_engine st) (eh_sender st))), st)"

text \<open>The text of the error without a flusher is left out; the body of the stream is its session.\<close>

definition events_handler :: "engine_env \<Rightarrow> engine_http handler" where
  "events_handler v ctx r st =
     (if \<not> ee_flusher v then (\<lparr>rs_status = 500, rs_header = [(''Content-Type'', ''text/plain; charset=utf-8'')], rs_body = NoBody\<rparr>, st)
      else
        (case open_stream (ee_between v) r (ob_hub (en_out (eh_engine st))) of (h, s) \<Rightarrow>
           (\<lparr>rs_status = 200, rs_header = [(''Content-Type'', ''text/event-stream''), (''Cache-Control'', ''no-cache''), (''X-Accel-Buffering'', ''no'')], rs_body = NoBody\<rparr>,
            st\<lparr>eh_engine := (eh_engine st)\<lparr>en_out := (en_out (eh_engine st))\<lparr>ob_hub := h\<rparr>\<rparr>, eh_streams := eh_streams st @ [s]\<rparr>)))"

definition engine_serve :: "engine_env \<Rightarrow> engine_route \<Rightarrow> engine_http handler" where
  "engine_serve v rt =
     (let read = Require (ee_sha v) (ee_keys v) Read (Some (\<lambda>r. rq_param r ''channel_id''))
      in case rt of
        Healthz \<Rightarrow> (\<lambda>_ _ st. (WriteHeader 200, st))
      | Readyz \<Rightarrow> ready_handler v
      | Metrics \<Rightarrow> (\<lambda>_ _ st. (ee_metrics v, st))
      | StatusR \<Rightarrow> read (mine (ee_cfg v) status_handler)
      | EventsR \<Rightarrow> read (mine (ee_cfg v) (events_handler v)))"

subsection \<open>What a stream gives\<close>

text \<open>
  The invariant of a stream that began with \<open>replay\<close> at the subscription \<open>a\<close> of the hub \<open>h0\<close>: what it took and what is left of the replay are the
  replay and what the channel gave, and its writes are the events of its channel among what it took, between keepalives.
\<close>

definition taken :: "(Event \<Rightarrow> string) \<Rightarrow> string \<Rightarrow> Event list \<Rightarrow> Event list \<Rightarrow> session \<Rightarrow> bool" where
  "taken json channel replay got s \<longleftrightarrow>
     (if sn_open s then sn_seen s @ sn_replay s = replay @ got \<and> (sn_replay s \<noteq> [] \<longrightarrow> got = []) else \<exists>rest. sn_seen s @ rest = replay @ got) \<and>
     filter (\<lambda>c. c \<noteq> keepalive) (sn_out s) = connected # map (sse_write json channel) (filter (\<lambda>e. ev_Channel e = channel) (sn_seen s))"

definition stream_inv :: "(Event \<Rightarrow> string) \<Rightarrow> string \<Rightarrow> Event list \<Rightarrow> nat \<Rightarrow> Hub \<Rightarrow> Hub \<times> session \<Rightarrow> bool" where
  "stream_inv json channel replay a h0 hs \<longleftrightarrow>
     sn_sub (snd hs) = a \<and> (\<exists>pubs got. hub_run a h0 pubs got (fst hs) \<and> taken json channel replay got (snd hs))"

lemma stream_invI: "sn_sub s = a \<Longrightarrow> hub_run a h0 pubs got h \<Longrightarrow> taken json channel replay got s \<Longrightarrow> stream_inv json channel replay a h0 (h, s)"
  by (auto simp: stream_inv_def)

lemma stream_invE:
  assumes "stream_inv json channel replay a h0 (h, s)"
  obtains pubs got where "sn_sub s = a" "hub_run a h0 pubs got h" "taken json channel replay got s"
  using assms by (auto simp: stream_inv_def)

lemma stream_inv_run:
  assumes "stream_inv json channel replay a h0 (h, s)" "\<And>pubs got. hub_run a h0 pubs got h \<Longrightarrow> \<exists>pubs'. hub_run a h0 pubs' got h'"
  shows "stream_inv json channel replay a h0 (h', s)"
  using assms(1) by (rule stream_invE) (use assms(2) in \<open>blast intro: stream_invI\<close>)

lemma taken_seen: "taken json channel replay got s \<Longrightarrow> \<exists>rest. sn_seen s @ rest = replay @ got"
  by (auto simp: taken_def split: if_splits)

lemma taken_hang_up: "taken json channel replay got s \<Longrightarrow> taken json channel replay got (s\<lparr>sn_open := False\<rparr>)"
  using taken_seen by (simp add: taken_def)

lemma stream_inv_hang_up:
  assumes "stream_inv json channel replay a h0 (h, s)"
  shows "stream_inv json channel replay a h0 (hang_up h s)"
proof -
  obtain pubs got where r: "sn_sub s = a" "hub_run a h0 pubs got h" "taken json channel replay got s" using assms by (rule stream_invE)
  show ?thesis unfolding hang_up_def by (rule stream_invI [OF _ run_close [OF r(2)] taken_hang_up [OF r(3)]]) (simp add: r(1))
qed

lemma write_not_keepalive: "ev_Channel e = channel \<Longrightarrow> sse_write json channel e \<noteq> keepalive"
  by (simp add: sse_write_def keepalive_def)

text \<open>An event is taken: the run of the hub with it, and what is left.\<close>

lemma stream_inv_write:
  assumes "sn_sub s = a" "sn_open s" "hub_run a h0 pubs got h" "sn_seen s @ e # sn_replay s = replay @ got" "sn_replay s \<noteq> [] \<longrightarrow> got = []"
    and "filter (\<lambda>c. c \<noteq> keepalive) (sn_out s) = connected # map (sse_write json channel) (filter (\<lambda>e. ev_Channel e = channel) (sn_seen s))"
  shows "stream_inv json channel replay a h0 (write_event json channel good e h s)"
proof (cases "ev_Channel e = channel \<and> \<not> good")
  case True
  have "\<exists>rest. sn_seen s @ rest = replay @ got" using assms(4) by blast
  then have "taken json channel replay got (s\<lparr>sn_open := False\<rparr>)" using assms(6) by (simp add: taken_def)
  then show ?thesis using True stream_invI [OF _ run_close [OF assms(3)]] assms(1) by (simp add: write_event_def hang_up_def)
next
  case False
  define s' where "s' = (if ev_Channel e = channel then s\<lparr>sn_out := sn_out s @ [sse_write json channel e], sn_seen := sn_seen s @ [e]\<rparr> else s\<lparr>sn_seen := sn_seen s @ [e]\<rparr>)"
  have w: "write_event json channel good e h s = (h, s')" using False by (auto simp: write_event_def s'_def)
  have "filter (\<lambda>c. c \<noteq> keepalive) (sn_out s') = connected # map (sse_write json channel) (filter (\<lambda>e. ev_Channel e = channel) (sn_seen s'))"
    using assms(6) write_not_keepalive [of e channel json] by (simp add: s'_def)
  moreover have "sn_seen s' @ sn_replay s' = replay @ got" "sn_replay s' \<noteq> [] \<longrightarrow> got = []" "sn_open s'" "sn_sub s' = a"
    using assms(1,2,4,5) by (simp_all add: s'_def)
  ultimately show ?thesis unfolding w by (intro stream_invI [OF _ assms(3)]) (simp_all add: taken_def)
qed

lemma stream_inv_turn:
  assumes "stream_inv json channel replay a h0 (h, s)" "sn_open s"
  shows "stream_inv json channel replay a h0 (turn json channel good h s)"
proof -
  obtain pubs got where r: "sn_sub s = a" "hub_run a h0 pubs got h" "taken json channel replay got s" using assms(1) by (rule stream_invE)
  have t: "sn_seen s @ sn_replay s = replay @ got" "sn_replay s \<noteq> [] \<longrightarrow> got = []"
    "filter (\<lambda>c. c \<noteq> keepalive) (sn_out s) = connected # map (sse_write json channel) (filter (\<lambda>e. ev_Channel e = channel) (sn_seen s))"
    using r(3) assms(2) by (auto simp: taken_def)
  show ?thesis
  proof (cases "sn_replay s")
    case (Cons e es)
    then show ?thesis using r(1,2) t assms(2) stream_inv_write [of "s\<lparr>sn_replay := es\<rparr>" a h0 pubs got h e replay json channel good] by (simp add: turn_def)
  next
    case Nil
    show ?thesis
    proof (cases "recv (sn_sub s) h")
      case None
      then show ?thesis using Nil assms(1) stream_inv_hang_up [OF assms(1)] by (simp add: turn_def)
    next
      case (Some eh)
      obtain e h' where eh: "eh = (e, h')" by (cases eh)
      then have "recv a h = Some (e, h')" using Some r(1) by simp
      then have "hub_run a h0 pubs (got @ [e]) h'" using run_recv [OF r(2)] by blast
      then show ?thesis using stream_inv_write [of s a h0 pubs "got @ [e]" h' e replay json channel good] r(1) t assms(2) Nil Some eh by (simp add: turn_def)
    qed
  qed
qed

lemma stream_inv_step:
  assumes "stream_inv json channel replay a h0 (h, s)"
  shows "stream_inv json channel replay a h0 (stream_step json channel act (h, s))"
proof (cases act)
  case (Publishes typ' ch dat now)
  obtain ev h' where p: "Publish typ' ch dat now h = (ev, h')" by (cases "Publish typ' ch dat now h")
  have "stream_inv json channel replay a h0 (h', s)" by (rule stream_inv_run [OF assms]) (blast intro: run_publish [OF _ p])
  then show ?thesis using Publishes p by simp
next
  case (Subscribes after)
  obtain rep b h' where p: "Subscribe after h = (rep, b, h')" by (cases "Subscribe after h")
  have "stream_inv json channel replay a h0 (h', s)" by (rule stream_inv_run [OF assms]) (blast intro: run_subscribe [OF _ p])
  then show ?thesis using Subscribes p by simp
next
  case (Receives b)
  have sub: "sn_sub s = a" using assms by (rule stream_invE)
  show ?thesis
  proof (cases "b = a \<or> recv b h = None")
    case True
    then show ?thesis using Receives assms sub by auto
  next
    case False
    then obtain e h' where p: "b \<noteq> a" "recv b h = Some (e, h')" by auto
    have "stream_inv json channel replay a h0 (h', s)" by (rule stream_inv_run [OF assms]) (blast intro: run_other_recv [OF _ p])
    then show ?thesis using Receives p sub by simp
  qed
next
  case (Closes b)
  have "stream_inv json channel replay a h0 (Close b h, s)" by (rule stream_inv_run [OF assms]) (blast intro: run_close)
  then show ?thesis using Closes assms by simp
next
  case (Turn good)
  then show ?thesis using assms stream_inv_turn by simp
next
  case (Tick good)
  have "stream_inv json channel replay a h0 (h, s\<lparr>sn_out := sn_out s @ [keepalive]\<rparr>)"
    using assms by (rule stream_invE) (auto simp: taken_def intro: stream_invI)
  then show ?thesis using Tick assms stream_inv_hang_up by simp
next
  case Leaves
  then show ?thesis using assms stream_inv_hang_up by simp
qed

lemma stream_inv_fold:
  "stream_inv json channel replay a h0 hs \<Longrightarrow> stream_inv json channel replay a h0 (fold (stream_step json channel) acts hs)"
proof (induction acts arbitrary: hs)
  case (Cons act acts)
  then show ?case using stream_inv_step [of json channel replay a h0 "fst hs" "snd hs" act] by simp
qed simp

text \<open>C21. What an event stream writes is exactly what happened on its channel. Whatever is published, whoever else uses the hub and
  however slowly the client reads: the events that the stream has taken are the beginning of all events that follow the id
  the client gave (or the oldest remembered one) up to the newest, with consecutive ids; its writes are those of them that
  are of its channel, in order, each once, between keepalives; and while it is connected, what it has not taken yet is waiting for it.\<close>

theorem sse_stream_exact:
  assumes "hub_inv (between h)" "open_stream between r h = (h0, s0)" "resume_after r h \<le> Last (between h)"
    and "fold (stream_step json channel) acts (h0, s0) = (h1, s1)"
  shows "\<exists>events rest. ids_from (max (resume_after r h + 1) (hb_nextID (between h) - int (length (hb_ring (between h))))) events \<and>
    max (resume_after r h + 1) (hb_nextID (between h) - int (length (hb_ring (between h)))) + int (length events) = hb_nextID h1 \<and>
    events = sn_seen s1 @ rest \<and>
    filter (\<lambda>c. c \<noteq> keepalive) (sn_out s1) = connected # map (sse_write json channel) (filter (\<lambda>e. ev_Channel e = channel) (sn_seen s1)) \<and>
    (sn_open s1 \<and> \<not> sb_closed (hb_store h1 ! sn_sub s1) \<longrightarrow> rest = sn_replay s1 @ sb_C (hb_store h1 ! sn_sub s1))"
proof -
  let ?hb = "between h" let ?after = "resume_after r h"
  obtain replay a where sub: "Subscribe ?after ?hb = (replay, a, h0)"
    and s0: "s0 = \<lparr>sn_sub = a, sn_replay = replay, sn_out = [connected], sn_open = True, sn_seen = []\<rparr>"
    using assms(2) by (auto simp: open_stream_def split: prod.splits)
  have "stream_inv json channel replay a h0 (h0, s0)"
    by (rule stream_invI [OF _ run_start]) (simp_all add: s0 taken_def connected_def keepalive_def)
  then have "stream_inv json channel replay a h0 (h1, s1)" using stream_inv_fold assms(4) by metis
  then obtain pubs got where run: "sn_sub s1 = a" "hub_run a h0 pubs got h1" "taken json channel replay got s1" by (rule stream_invE)
  let ?first = "max (?after + 1) (hb_nextID ?hb - int (length (hb_ring ?hb)))"
  obtain left where ids: "ids_from ?first (replay @ pubs)" and left: "pubs = got @ sb_C (hb_store h1 ! a) @ left" "left \<noteq> [] \<longrightarrow> sb_closed (hb_store h1 ! a)"
    using hub_stream_exact [OF assms(1) sub assms(3) run(2)] by blast
  have "hb_nextID ?hb - int (length replay) = ?first"
    using Subscribe_replay(2) [OF assms(1) sub assms(3)] by (simp add: Last_def max_def min_def)
  moreover have "hb_nextID h1 = hb_nextID ?hb + int (length pubs)" using hub_run_ids [OF run(2)] sub by (auto simp: Subscribe_def)
  ultimately have len: "?first + int (length (replay @ pubs)) = hb_nextID h1" by simp
  obtain more where more: "sn_seen s1 @ more = replay @ got" "sn_open s1 \<longrightarrow> more = sn_replay s1" using run(3) by (auto simp: taken_def split: if_splits)
  define rest where "rest = more @ sb_C (hb_store h1 ! a) @ left"
  have "replay @ pubs = (replay @ got) @ sb_C (hb_store h1 ! a) @ left" by (simp add: left(1))
  then have "replay @ pubs = sn_seen s1 @ rest" unfolding more(1) [symmetric] by (simp add: rest_def)
  then show ?thesis using ids len run(1,3) more(2) left(2) by (intro exI [of _ "replay @ pubs"] exI [of _ rest]) (auto simp: rest_def taken_def)
qed

lemma same_engine: "\<exists>h. e = e\<lparr>en_out := (en_out e)\<lparr>ob_hub := h\<rparr>\<rparr>" for e :: engine
  by (intro exI [of _ "ob_hub (en_out e)"]) simp

text \<open>C22. The status and the events of an engine are for keys that may read its channel, and for its channel only; nothing that a
  client asks changes the engine but for the subscriptions of its hub; and the engine says that it is ready exactly when the database answers and a playlist was written.\<close>

theorem engine_api_confined:
  assumes "engine_serve v rt ctx r st = (rs, st')"
  shows "(rt \<in> {StatusR, EventsR} \<and> (rs_status rs = 200 \<or> st' \<noteq> st) \<longrightarrow>
      rq_param r ''channel_id'' = cfg_ChannelID (ee_cfg v) \<and> (\<exists>k. Find (ee_sha v) (ee_keys v) (secretOf r) = Some k \<and> Allows k Read (cfg_ChannelID (ee_cfg v)))) \<and>
    (\<exists>h. eh_engine st' = (eh_engine st)\<lparr>en_out := (en_out (eh_engine st))\<lparr>ob_hub := h\<rparr>\<rparr>) \<and> eh_sender st' = eh_sender st \<and> (rt \<noteq> EventsR \<longrightarrow> st' = st) \<and>
    (rt = Readyz \<longrightarrow> (rs_status rs = 200) = (ee_ping v \<and> en_ready (eh_engine st)))"
proof (cases rt)
  case StatusR
  then show ?thesis using assms by (auto simp: engine_serve_def Require_def mine_def status_handler_def Let_def same_engine split: option.splits if_splits)
next
  case EventsR
  then show ?thesis using assms by (auto simp: engine_serve_def Require_def mine_def events_handler_def Let_def same_engine split: option.splits if_splits prod.splits)
qed (use assms in \<open>auto simp: engine_serve_def ready_handler_def Let_def same_engine split: if_splits\<close>)

subsection \<open>Witnesses\<close>

definition w_client :: request where
  "w_client = \<lparr>rq_header = (\<lambda>n. if n = ''Last-Event-ID'' then ''1'' else if n = ''X-API-Key'' then ''viewer'' else ''''), rq_query = (\<lambda>_. ''''),
     rq_param = (\<lambda>n. if n = ''channel_id'' then ''c1'' else ''''), rq_body = None\<rparr>"

text \<open>Two events happened before, the client has seen the first; another one happens on another channel.\<close>

definition w_hub :: Hub where
  "w_hub = w_pub (w_pub (NewHub 10))"

lemma w_after: "resume_after w_client h = 1"
proof -
  have "ParseInt64 ''1'' = (1, True)" by code_simp
  then show ?thesis by (simp add: resume_after_def sse_after_def w_client_def)
qed

theorem sse_stream_exact_witness:
  "let (h1, s1) = fold (stream_step (\<lambda>_. '''') ''c1'') [Publishes ''x'' ''c2'' [] 0, Turn True, Tick True, Turn True] (open_stream (\<lambda>h. h) w_client w_hub) in
     map ev_ID (sn_seen s1) = [2, 3] \<and> length (filter (\<lambda>c. c \<noteq> keepalive) (sn_out s1)) = 2"
proof -
  obtain h0 s0 where o: "open_stream (\<lambda>h. h) w_client w_hub = (h0, s0)" by (cases "open_stream (\<lambda>h. h) w_client w_hub")
  let ?acts = "[Publishes ''x'' ''c2'' [] 0, Turn True, Tick True, Turn True]"
  obtain h1 s1 where f: "fold (stream_step (\<lambda>_. '''') ''c1'') ?acts (h0, s0) = (h1, s1)" by (metis surj_pair)
  have inv: "hub_inv w_hub" unfolding w_hub_def by (intro Publish_inv hub_inv_new)
  have le: "resume_after w_client w_hub \<le> Last w_hub" by (simp add: w_after Last_def w_hub_def Publish_def NewHub_def Let_def)
  have seen: "map ev_ID (sn_seen s1) = [2, 3]" "map ev_Channel (sn_seen s1) = [''c1'', ''c2'']"
    using f o by (auto simp: open_stream_def w_after w_hub_def Subscribe_def Publish_def NewHub_def Let_def offer_def chan_cap_def turn_def recv_def write_event_def)
  then obtain a b where ab: "sn_seen s1 = [a, b]" "ev_Channel a = ''c1''" "ev_Channel b = ''c2''" by (auto simp: map_eq_Cons_conv)
  have "filter (\<lambda>c. c \<noteq> keepalive) (sn_out s1) = connected # map (sse_write (\<lambda>_. '''') ''c1'') (filter (\<lambda>e. ev_Channel e = ''c1'') (sn_seen s1))"
    using sse_stream_exact [where between = "\<lambda>h. h", OF inv o le f] by blast
  then have "length (filter (\<lambda>c. c \<noteq> keepalive) (sn_out s1)) = 2" by (simp add: ab)
  then show ?thesis using seen(1) unfolding o f Let_def by (simp only: case_prod_conv)
qed

definition w_viewer :: Key where
  "w_viewer = \<lparr>ky_Name = ''viewer'', ky_hash = [1], ky_scopes = {Read}, ky_channels = {''c1''}, ky_allChannels = False\<rparr>"

definition w_eenv :: engine_env where
  "w_eenv = \<lparr>ee_sha = (\<lambda>s. if s = ''viewer'' then [1] else [0]), ee_keys = [w_viewer], ee_cfg = default_config, ee_ping = True,
     ee_metrics = WriteHeader 200, ee_flusher = True, ee_between = (\<lambda>h. h)\<rparr>"

definition w_http :: engine_http where
  "w_http = \<lparr>eh_engine = newEngine default_config 0 (\<lambda>_. None) None, eh_sender = None, eh_streams = []\<rparr>"

theorem engine_api_confined_witness:
  "\<exists>rs st'. engine_serve w_eenv EventsR None w_client w_http = (rs, st') \<and> rs_status rs = 200 \<and> length (eh_streams st') = 1 \<and>
     rq_param w_client ''channel_id'' = cfg_ChannelID default_config \<and> eh_sender st' = None"
proof -
  obtain rs st' where p: "engine_serve w_eenv EventsR None w_client w_http = (rs, st')" by (metis surj_pair)
  have "Find (ee_sha w_eenv) (ee_keys w_eenv) (secretOf w_client) = Some w_viewer" by (simp add: Find_def secretOf_def w_client_def w_viewer_def w_eenv_def)
  moreover have "Allows w_viewer Read (rq_param w_client ''channel_id'')" "rq_param w_client ''channel_id'' = cfg_ChannelID (ee_cfg w_eenv)" "ee_flusher w_eenv"
    by (simp_all add: Allows_def w_viewer_def w_client_def w_eenv_def default_config_def)
  ultimately have "rs_status rs = 200 \<and> length (eh_streams st') = 1"
    using p by (auto simp: engine_serve_def Require_def mine_def events_handler_def w_http_def split: prod.splits)
  then show ?thesis using engine_api_confined [OF p] p by (auto simp: w_eenv_def w_http_def)
qed

end
