(* ===== verification/Migrate.thy ===== *)
theory Migrate
  imports Prelude
begin

text \<open>
  \<^verbatim>\<open>pkg/storage/postgres.go\<close>, \<^verbatim>\<open>migrate\<close>: the services create and change the tables when they start, several of them at once. The steps of
  all of them interleave; a process is known by its number, and one that tries again is a new one. \<open>mg_applied\<close> are the rows of \<^verbatim>\<open>schema_migrations\<close> in the order of their
  insertion, \<open>mg_ran\<close> the migrations whose statements were committed, which the database does not record.
\<close>

subsection \<open>Steps\<close>

text \<open>Where a process is: waiting for the advisory lock, with the lock, before the turn \<open>i\<close> of the loop, in the transaction of that turn, or gone with or without success.\<close>

datatype phase = Queued | Locked | At nat | InTx nat | Gone bool

record migrating =
  mg_applied :: "nat list"
  mg_ran :: "nat list"
  mg_lock :: "nat option"
  mg_phase :: "nat \<Rightarrow> phase"

abbreviation enter :: "nat \<Rightarrow> phase \<Rightarrow> migrating \<Rightarrow> migrating" where
  "enter p ph st \<equiv> st\<lparr>mg_phase := (mg_phase st)(p := ph)\<rparr>"

text \<open>The return of \<^verbatim>\<open>migrate\<close>: the deferred unlock, or the end of the session when the connection is lost.\<close>

definition leave :: "nat \<Rightarrow> bool \<Rightarrow> migrating \<Rightarrow> migrating" where
  "leave p good st = (enter p (Gone good) st)\<lparr>mg_lock := (if mg_lock st = Some p then None else mg_lock st)\<rparr>"

text \<open>The commit of the transaction of turn \<open>i\<close>: the statements of the migration and its row, together.\<close>

definition apply_migration :: "nat \<Rightarrow> migrating \<Rightarrow> migrating" where
  "apply_migration i st = st\<lparr>mg_applied := mg_applied st @ [i + 1], mg_ran := mg_ran st @ [i + 1]\<rparr>"

text \<open>
  One step of one process, with \<open>n\<close> migrations. A statement may fail at any time; a commit may be carried out although its answer is lost; and the
  primary key refuses a version that is there.
\<close>

inductive mig_step :: "nat \<Rightarrow> migrating \<Rightarrow> migrating \<Rightarrow> bool" for n where
  lock: "mg_phase st p = Queued \<Longrightarrow> mg_lock st = None \<Longrightarrow> mig_step n st ((enter p Locked st)\<lparr>mg_lock := Some p\<rparr>)"
| create: "mg_phase st p = Locked \<Longrightarrow> mig_step n st (enter p (At 0) st)"
| skip: "mg_phase st p = At i \<Longrightarrow> i < n \<Longrightarrow> i + 1 \<in> set (mg_applied st) \<Longrightarrow> mig_step n st (enter p (At (i + 1)) st)"
| begin_tx: "mg_phase st p = At i \<Longrightarrow> i < n \<Longrightarrow> i + 1 \<notin> set (mg_applied st) \<Longrightarrow> mig_step n st (enter p (InTx i) st)"
| commit: "mg_phase st p = InTx i \<Longrightarrow> i + 1 \<notin> set (mg_applied st) \<Longrightarrow> mig_step n st (enter p (At (i + 1)) (apply_migration i st))"
| commit_lost: "mg_phase st p = InTx i \<Longrightarrow> i + 1 \<notin> set (mg_applied st) \<Longrightarrow> mig_step n st (leave p False (apply_migration i st))"
| fail: "mg_phase st p \<noteq> Gone g \<Longrightarrow> mig_step n st (leave p False st)"
| finish: "mg_phase st p = At n \<Longrightarrow> mig_step n st (leave p True st)"

definition fresh_database :: migrating where
  "fresh_database = \<lparr>mg_applied = [], mg_ran = [], mg_lock = None, mg_phase = (\<lambda>_. Queued)\<rparr>"

subsection \<open>Every migration once\<close>

definition phase_ok :: "nat \<Rightarrow> nat \<Rightarrow> nat option \<Rightarrow> nat \<Rightarrow> phase \<Rightarrow> bool" where
  "phase_ok n k lk p ph =
     (case ph of
        Queued \<Rightarrow> lk \<noteq> Some p
      | Locked \<Rightarrow> lk = Some p
      | At i \<Rightarrow> lk = Some p \<and> i \<le> k
      | InTx i \<Rightarrow> lk = Some p \<and> i = k \<and> i < n
      | Gone good \<Rightarrow> lk \<noteq> Some p \<and> (good \<longrightarrow> k = n))"

definition mig_inv :: "nat \<Rightarrow> migrating \<Rightarrow> bool" where
  "mig_inv n st \<longleftrightarrow> (\<exists>k \<le> n. mg_applied st = [1..<k + 1] \<and> mg_ran st = [1..<k + 1] \<and> (\<forall>p. phase_ok n k (mg_lock st) p (mg_phase st p)))"

lemma phase_ok_simps [simp]:
  "phase_ok n k lk p Queued \<longleftrightarrow> lk \<noteq> Some p"
  "phase_ok n k lk p Locked \<longleftrightarrow> lk = Some p"
  "phase_ok n k lk p (At i) \<longleftrightarrow> lk = Some p \<and> i \<le> k"
  "phase_ok n k lk p (InTx i) \<longleftrightarrow> lk = Some p \<and> i = k \<and> i < n"
  "phase_ok n k lk p (Gone good) \<longleftrightarrow> lk \<noteq> Some p \<and> (good \<longrightarrow> k = n)"
  by (simp_all add: phase_ok_def)

text \<open>Only the process with the lock moves the loop, and another one is outside of it.\<close>

lemma phase_ok_other: "phase_ok n k (Some p) q ph \<Longrightarrow> q \<noteq> p \<Longrightarrow> (\<exists>g. ph = Gone g \<and> (g \<longrightarrow> k = n)) \<or> ph = Queued"
  by (cases ph) auto

lemma phase_ok_free: "phase_ok n k (Some p) q ph \<Longrightarrow> q \<noteq> p \<Longrightarrow> phase_ok n k None q ph"
  by (cases ph) auto

lemma phase_ok_taken: "phase_ok n k None q ph \<Longrightarrow> q \<noteq> p \<Longrightarrow> phase_ok n k (Some p) q ph"
  by (cases ph) auto

lemma phase_ok_grow: "phase_ok n k (Some p) q ph \<Longrightarrow> q \<noteq> p \<Longrightarrow> k < n \<Longrightarrow> lk = None \<or> lk = Some p \<Longrightarrow> phase_ok n (Suc k) lk q ph"
  using phase_ok_other [of n k p q ph] by auto

lemma mig_inv_step:
  assumes "mig_step n st st'" "mig_inv n st"
  shows "mig_inv n st'"
proof -
  obtain k where k: "k \<le> n" "mg_applied st = [1..<k + 1]" "mg_ran st = [1..<k + 1]" and ph: "\<And>p. phase_ok n k (mg_lock st) p (mg_phase st p)"
    using assms(2) by (auto simp: mig_inv_def)
  have inv: "mig_inv n s" if "k' \<le> n" "mg_applied s = [1..<k' + 1]" "mg_ran s = [1..<k' + 1]" "\<And>p. phase_ok n k' (mg_lock s) p (mg_phase s p)" for s k'
    using that by (auto simp: mig_inv_def)
  have mem: "i + 1 \<in> set (mg_applied st) \<longleftrightarrow> i < k" for i by (auto simp: k(2))
  show ?thesis
    using assms(1)
  proof (cases rule: mig_step.cases)
    case (lock p)
    then have "phase_ok n k (Some p) q (mg_phase st q)" if "q \<noteq> p" for q using phase_ok_taken ph [of q] that by simp
    then show ?thesis using k lock by (intro inv [of k]) auto
  next
    case (create p)
    have "mg_lock st = Some p" using ph [of p] create by simp
    then show ?thesis using k ph create by (intro inv [of k]) auto
  next
    case (skip p i)
    have "mg_lock st = Some p" using ph [of p] skip by simp
    then show ?thesis using k ph skip mem [of i] by (intro inv [of k]) auto
  next
    case (begin_tx p i)
    have "mg_lock st = Some p" "i = k" using ph [of p] begin_tx mem [of i] by auto
    then show ?thesis using k ph begin_tx by (intro inv [of k]) auto
  next
    case (commit p i)
    have l: "mg_lock st = Some p" "i = k" "k < n" using ph [of p] commit by auto
    have "phase_ok n (Suc k) (Some p) q (mg_phase st q)" if "q \<noteq> p" for q using phase_ok_grow [of n k p q] ph [of q] l that by simp
    then show ?thesis using k l commit by (intro inv [of "Suc k"]) (auto simp: apply_migration_def)
  next
    case (commit_lost p i)
    have l: "mg_lock st = Some p" "i = k" "k < n" using ph [of p] commit_lost by auto
    have "phase_ok n (Suc k) None q (mg_phase st q)" if "q \<noteq> p" for q using phase_ok_grow [of n k p q] ph [of q] l that by simp
    then show ?thesis using k l commit_lost by (intro inv [of "Suc k"]) (auto simp: apply_migration_def leave_def)
  next
    case (fail p g)
    show ?thesis
    proof (cases "mg_lock st = Some p")
      case True
      then have "phase_ok n k None q (mg_phase st q)" if "q \<noteq> p" for q using phase_ok_free [of n k p q] ph [of q] that by simp
      then show ?thesis using k True fail by (intro inv [of k]) (auto simp: leave_def)
    next
      case False
      then show ?thesis using k ph fail by (intro inv [of k]) (auto simp: leave_def)
    qed
  next
    case (finish p)
    have l: "mg_lock st = Some p" "k = n" using ph [of p] finish k(1) by auto
    then have "phase_ok n k None q (mg_phase st q)" if "q \<noteq> p" for q using phase_ok_free [of n k p q] ph [of q] that by simp
    then show ?thesis using k l finish by (intro inv [of k]) (auto simp: leave_def)
  qed
qed

lemma mig_inv_run: "(mig_step n)\<^sup>*\<^sup>* fresh_database st \<Longrightarrow> mig_inv n st"
proof (induction rule: rtranclp_induct)
  case base
  show ?case by (auto simp: mig_inv_def fresh_database_def intro!: exI [of _ 0])
qed (rule mig_inv_step)

text \<open>C26. Every migration runs once and in order, however many services start at the same time, wherever they fail and whether or not they hear
  of a commit: the committed migrations are always the first ones, each once, they are what the table of versions says, and a service
  that starts up successfully finds all of them.\<close>

theorem migrations_once:
  assumes "(mig_step n)\<^sup>*\<^sup>* fresh_database st"
  shows "\<exists>k \<le> n. mg_ran st = [1..<k + 1] \<and> mg_applied st = mg_ran st \<and> (\<forall>p. mg_phase st p = Gone True \<longrightarrow> k = n)"
proof -
  obtain k where k: "k \<le> n" "mg_applied st = [1..<k + 1]" "mg_ran st = [1..<k + 1]" and ph: "\<And>p. phase_ok n k (mg_lock st) p (mg_phase st p)"
    using mig_inv_run [OF assms] by (auto simp: mig_inv_def)
  have "k = n" if "mg_phase st p = Gone True" for p using ph [of p] that by simp
  then show ?thesis using k by auto
qed

text \<open>One service commits the only migration and does not hear of it; the other one finds it done.\<close>

theorem migrations_once_witness:
  "\<exists>st. (mig_step 1)\<^sup>*\<^sup>* fresh_database st \<and> mg_phase st 0 = Gone False \<and> mg_phase st 1 = Gone True \<and> mg_ran st = [1]"
proof -
  let ?s0 = fresh_database
  let ?s1 = "(enter 0 Locked ?s0)\<lparr>mg_lock := Some 0\<rparr>"
  let ?s2 = "enter 0 (At 0) ?s1"
  let ?s3 = "enter 0 (InTx 0) ?s2"
  let ?s4 = "leave 0 False (apply_migration 0 ?s3)"
  let ?s5 = "(enter 1 Locked ?s4)\<lparr>mg_lock := Some 1\<rparr>"
  let ?s6 = "enter 1 (At 0) ?s5"
  let ?s7 = "enter 1 (At (0 + 1)) ?s6"
  let ?s8 = "leave 1 True ?s7"
  note d = fresh_database_def leave_def apply_migration_def
  have "mig_step 1 ?s0 ?s1" by (rule mig_step.lock) (simp_all add: d)
  moreover have "mig_step 1 ?s1 ?s2" by (rule mig_step.create) simp
  moreover have "mig_step 1 ?s2 ?s3" by (rule mig_step.begin_tx) (simp_all add: d)
  moreover have "mig_step 1 ?s3 ?s4" by (rule mig_step.commit_lost) (simp_all add: d)
  moreover have "mig_step 1 ?s4 ?s5" by (rule mig_step.lock) (simp_all add: d)
  moreover have "mig_step 1 ?s5 ?s6" by (rule mig_step.create) simp
  moreover have "mig_step 1 ?s6 ?s7" by (rule mig_step.skip) (simp_all add: d)
  moreover have "mig_step 1 ?s7 ?s8" by (rule mig_step.finish) simp
  ultimately have run: "(mig_step 1)\<^sup>*\<^sup>* ?s0 ?s8" by (meson rtranclp.rtrancl_into_rtrancl rtranclp.rtrancl_refl)
  have "mg_phase ?s8 0 = Gone False" "mg_phase ?s8 1 = Gone True" by (simp_all add: leave_def)
  then show ?thesis using migrations_once [OF run] run by (intro exI [of _ ?s8]) auto
qed

end
