(* ===== verification/Spec2Isabelle.thy ===== *)
theory Spec2Isabelle
  imports Schedule Scte35 Plan Fmp4 Hub OnAir Engine ControlApi Webhook Resolver EngineApi Migrate
begin

text \<open>
  The core of a live TV channel, as \<^verbatim>\<open>README.md\<close> describes it. The control API (\<^verbatim>\<open>src/services/control-api\<close>) writes channels, assets and
  the schedule into PostgreSQL (\<^verbatim>\<open>src/pkg/storage\<close>). The engine (\<^verbatim>\<open>src/services/engine\<close>) plays one channel: on every tick it reads the
  schedule, plans the next seconds as clips of one second, asks for the ads of every break, finds the source segment of every clip,
  moves it onto the timeline of the stream by rewriting its decode times, and writes the segments and the live playlist. What it
  does it tells by events (SSE and webhooks) and by SCTE-35 markers in the playlist.

  \<^bold>\<open>The theories and the code.\<close> In the order of their imports:

    \<^item> \<open>Prelude\<close>, \<open>GoTime\<close>, \<open>GoText\<close>, \<open>Bytes\<close>: what the code uses of Go's standard library (division, 64-bit wrap-around, \<^verbatim>\<open>strings\<close>,
      \<^verbatim>\<open>strconv\<close>, \<^verbatim>\<open>time\<close>, \<^verbatim>\<open>encoding/binary\<close>, \<^verbatim>\<open>encoding/hex\<close>), and the lemmas and collections that the components share.
    \<^item> \<open>Models\<close>, \<open>Settings\<close>: \<^verbatim>\<open>pkg/models\<close> and \<^verbatim>\<open>pkg/config\<close>; \<open>FromEnv\<close> reads the settings from the environment.
    \<^item> \<open>Schedule\<close>: \<^verbatim>\<open>pkg/schedule\<close>. \<open>CheckEntries\<close>, \<open>InsertShift\<close>, \<open>Skip\<close>; the abstract view is \<open>airs\<close>, what is on the air at a moment.
    \<^item> \<open>Scte35\<close>: \<^verbatim>\<open>pkg/scte35\<close>. The section on machine words, its CRC, hex and base64.
    \<^item> \<open>Fmp4\<close>: \<^verbatim>\<open>pkg/fmp4\<close>. The box reader and \<open>Retime\<close> on byte lists.
    \<^item> \<open>Hls\<close>: \<^verbatim>\<open>pkg/hls\<close>. The parser of source playlists.
    \<^item> \<open>Filler\<close>, \<open>Pods\<close>: \<^verbatim>\<open>engine/filler.go\<close> and \<^verbatim>\<open>engine/ads.go\<close>. How a break is filled, and where pods come from; the Go interface
      \<^verbatim>\<open>podSource\<close> is the locale \<open>pod_source\<close>, interpreted on the broker, the registry filler, \<open>noAds\<close> and their wrapper.
    \<^item> \<open>Plan\<close>: \<^verbatim>\<open>engine/plan.go\<close>. \<open>buildPlan\<close> over any pod source.
    \<^item> \<open>Stitch\<close>, \<open>LivePlaylist\<close>, \<open>Media\<close>, \<open>Resolver\<close>: \<^verbatim>\<open>engine/stitch.go\<close>. From the clip to the files (\<open>lookup\<close>, \<open>prepare\<close>, \<open>resolve\<close>, \<open>add\<close>),
      runs of the stitcher, the text of the playlist and its restoration, and the downloads with their caches.
    \<^item> \<open>Hub\<close>, \<open>OnAir\<close>, \<open>Webhook\<close>: \<^verbatim>\<open>pkg/events\<close> and \<^verbatim>\<open>engine/events.go\<close>. The hub, the announcements, the delivery to endpoints.
    \<^item> \<open>Engine\<close>, \<open>EngineApi\<close>: \<^verbatim>\<open>engine/engine.go\<close> and \<^verbatim>\<open>engine/main.go\<close>. \<open>tick\<close> composes the parts as the code does; the routes of the
      engine and the event stream (\<^verbatim>\<open>ServeSSE\<close>).
    \<^item> \<open>Http\<close>, \<open>Auth\<close>, \<open>Storage\<close>, \<open>Server\<close>, \<open>Commands\<close>, \<open>ControlApi\<close>: \<^verbatim>\<open>pkg/httpx\<close>, \<^verbatim>\<open>pkg/auth\<close>, \<^verbatim>\<open>pkg/storage\<close> and \<^verbatim>\<open>control-api\<close>. Handlers are functions
      from request and database to answer and database; \<open>serve\<close> is the router with the scope of every route. What the handlers use of the
      store is the locale \<open>schedule_store\<close>, interpreted on the tables. \<open>Migrate\<close> is the creation of the tables by services that start together.

  \<^bold>\<open>How state and effects are modelled.\<close> A struct is a record, an operation that changes it returns it updated, and an error is a value of a
  sum or an option. Goroutines are steps: the requests of the broker that end while a call waits (\<open>Pods\<close>), the actions of a hub (\<open>Hub\<close>), the
  \<^verbatim>\<open>select\<close>s of the webhook sender (\<open>Webhook\<close>), the turns of an event stream (\<open>EngineApi\<close>) and the critical sections of the resolver (\<open>Resolver\<close>) run in any
  order. What the outside answers is an argument of the call: the schedule store, the ad server, sources and file system of a tick
  (\<open>tick_env\<close>), the connection to the database and whether it breaks before or after a commit (\<open>link\<close>), the network and the disk of a
  download (\<open>world\<close>). Durations and offsets of the schedule are integers whose product with a second wraps at 64 bits, decode times are \<^typ>\<open>64 word\<close>.

  \<^bold>\<open>What is shown.\<close>

    \<^item> The plan is a prefix of a reference plan that the schedule and the pods give, it has every second up to the live lead, and plans of different
      ticks agree on every second of a break (\<open>Plan\<close>); a pod that is ready stays the same, and no break waits for ever (\<open>Pods\<close>).
    \<^item> The choice of creatives is optimal among all sub-lists and fills the break (\<open>Filler\<close>).
    \<^item> \<open>Retime\<close> puts a fragment exactly where it belongs and changes no other byte; it fails exactly when the input is off the grid (\<open>Fmp4\<close>).
    \<^item> The live playlist keeps consecutive numbers, growing times and files that exist, do not change and stay for the retention time; a player
      reads from its text exactly the window (\<open>LivePlaylist\<close>, \<open>Media\<close>).
    \<^item> Every run of the engine keeps this, the playlist reaches the lead as long as the slate works, the published events tell a listener
      what is on the air, and a restart takes up the playlist where it was (\<open>Engine\<close>).
    \<^item> A download reads only what is allowed, the caches are bounded and serve only what is fresh, and the resolver keeps the
      contract that the engine relies on (\<open>Resolver\<close>).
    \<^item> A schedule that is accepted has no overlaps and a command does to the air what it says (\<open>Schedule\<close>, \<open>Commands\<close>); the transactions refine a map from
      channels to versioned schedules, a retry is carried out once (\<open>Storage\<close>), and so is every migration of the tables (\<open>Migrate\<close>).
    \<^item> Keys confine a request to their scopes and channels, what the API stores is well-formed, pages give every channel once, and now-next shows what
      the engine plays (\<open>Auth\<close>, \<open>ControlApi\<close>).
    \<^item> An event stream and a webhook endpoint get every event once and in order, and every event that is not delivered is counted
      (\<open>Hub\<close>, \<open>EngineApi\<close>, \<open>Webhook\<close>).
    \<^item> SCTE-35 messages survive encoding and decoding, and a corrupted one is refused (\<open>Scte35\<close>).

  \<^bold>\<open>Bounds.\<close> The loops are total functions: on lists, on the end of the plan, on the redirections left, on the files in the cache, on the
  attempts left. The one function with fuel is \<open>follow\<close>, a client that turns the pages of the channel list: with more
  steps than there are channels it reaches the end. The buffers have the sizes of the code: 1000 events in the hub of an engine, 256 in a
  subscription, 512 in the queue of an endpoint, 512 playlists, 512 init sections and 64 MiB of segments in the caches.

  \<^bold>\<open>Not modelled.\<close> The Prometheus counters (\<^verbatim>\<open>pkg/metrics\<close>), which are written and never read; log lines; the start and the end of the two
  processes with their HTTP servers (\<^verbatim>\<open>main\<close>, \<^verbatim>\<open>pkg/httpx/serve.go\<close>, \<^verbatim>\<open>pkg/logger\<close>); the wait for the database; the text of JSON documents, which \<^verbatim>\<open>encoding/json\<close> writes and reads; \<^verbatim>\<open>net/url\<close>, SHA-1, SHA-256, HMAC and the resolution of
  links, which are arguments; the master playlist, which is constant text with the settings of the variant; the test helpers of \<^verbatim>\<open>pkg/fmp4/fmp4test\<close>. Floats
  are the fractions that they denote, and letters outside ASCII are not turned to lower case.
\<close>

end
